(* ===== verification/Prelude.thy ===== *)
theory Prelude
  imports Main "HOL-Library.Word"
begin

text \<open>
  What the components share: machine integers and clocks of the Rust code, the parts of the Rust
  standard library it uses (checked subtraction, durations, splitting a string, decimal and
  hexadecimal output), reachability of a state machine with the interface
  \<open>invariant_system\<close>, and facts about finite sums over updated functions.
\<close>

section \<open>Machine integers and time\<close>

type_synonym u8 = "8 word"
type_synonym u16 = "16 word"
type_synonym u32 = "32 word"
type_synonym u64 = "64 word"

text \<open>An \<open>i64\<close> is its 64 bits; \<open>sint\<close> reads it as two's complement.\<close>
type_synonym i64 = "64 word"

text \<open>
  \<open>std::time::Duration\<close> and \<open>std::time::Instant\<close> count nanoseconds. Subtraction of naturals stops
  at zero, which is \<open>Duration::saturating_sub\<close> and \<open>Instant::duration_since\<close>.
\<close>
type_synonym duration = nat
type_synonym instant = nat

definition from_millis :: "u64 \<Rightarrow> duration" where
  "from_millis ms = unat ms * 10 ^ 6"

definition from_secs :: "u64 \<Rightarrow> duration" where
  "from_secs s = unat s * 10 ^ 9"

definition as_secs :: "duration \<Rightarrow> u64" where
  "as_secs d = of_nat (d div 10 ^ 9)"

definition subsec_nanos :: "duration \<Rightarrow> u32" where
  "subsec_nanos d = of_nat (d mod 10 ^ 9)"

definition saturating_sub :: "duration \<Rightarrow> duration \<Rightarrow> duration" where
  "saturating_sub d e = d - e"

definition duration_since :: "instant \<Rightarrow> instant \<Rightarrow> duration" where
  "duration_since later earlier = later - earlier"

text \<open>\<open>u64::checked_sub\<close>.\<close>
definition checked_sub :: "u64 \<Rightarrow> u64 \<Rightarrow> u64 option" where
  "checked_sub v n = (if n \<le> v then Some (v - n) else None)"

lemma as_secs_from_secs [simp]: "as_secs (from_secs s) = s"
  by (simp add: as_secs_def from_secs_def)

lemma unat_pos_iff: "0 < unat w \<longleftrightarrow> w \<noteq> 0"
  by (simp add: unat_gt_0)

lemma unat_dec: "w \<noteq> 0 \<Longrightarrow> unat (w - 1) = unat w - 1"
  by (simp add: unat_minus_one)

lemma of_nat_dec:
  assumes "w \<noteq> 0"
  shows "of_nat (unat w - 1) = w - 1"
  unfolding unat_dec [OF assms, symmetric] by simp

lemma uint_dec:
  assumes "w \<noteq> 0"
  shows "1 \<le> uint w" and "uint (w - 1) = uint w - 1"
proof -
  have "1 \<le> unat w" using assms by (simp add: Suc_le_eq unat_gt_0)
  then have "int 1 \<le> int (unat w)" and d: "int (unat w - 1) = int (unat w) - 1"
    by (simp_all only: of_nat_le_iff of_nat_diff of_nat_1)
  then show "1 \<le> uint w" by simp
  have "int (unat (w - 1)) = int (unat w) - 1" using d unat_dec [OF assms] by (simp only:)
  then show "uint (w - 1) = uint w - 1" by simp
qed

lemma one_le_word_iff: "(1::u64) \<le> w \<longleftrightarrow> w \<noteq> 0"
  by (simp add: word_le_nat_alt Suc_le_eq unat_gt_0)

lemma sint_of_int_small: "0 \<le> e \<Longrightarrow> e \<le> 2 ^ 53 \<Longrightarrow> sint (word_of_int e :: i64) = e"
  by (simp add: signed_of_int signed_take_bit_int_eq_self)

lemma checked_sub_one: "checked_sub v 1 = (if v = 0 then None else Some (v - 1))"
  by (simp add: checked_sub_def one_le_word_iff)

section \<open>Text\<close>

text \<open>
  A Rust \<open>String\<close> is its UTF-8 bytes. \<open>split_str c s\<close> is \<open>s.split(c)\<close>, collected: the maximal
  pieces without \<open>c\<close>, empty ones included, and never no piece at all.
\<close>

fun split_str :: "char \<Rightarrow> string \<Rightarrow> string list" where
  "split_str c [] = [[]]"
| "split_str c (x # xs) =
     (if x = c then [] # split_str c xs
      else (case split_str c xs of [] \<Rightarrow> [[x]] | p # ps \<Rightarrow> (x # p) # ps))"

text \<open>\<open>Iterator::next\<close> on a fresh iterator over a list.\<close>
definition iter_next :: "'a list \<Rightarrow> 'a option" where
  "iter_next xs = (case xs of [] \<Rightarrow> None | x # _ \<Rightarrow> Some x)"

lemma iter_next_simps [simp]:
  "iter_next [] = None"
  "iter_next (x # xs) = Some x"
  by (simp_all add: iter_next_def)

lemma split_str_ne [simp]: "split_str c s \<noteq> []"
  by (induction s) (auto split: list.splits)

lemma split_str_first: "iter_next (split_str c s) = Some (takeWhile (\<lambda>x. x \<noteq> c) s)"
proof (induction s)
  case (Cons x s)
  then show ?case by (cases "split_str c s") auto
qed simp

text \<open>\<open>join c ps\<close> writes the pieces with the separator between them.\<close>

fun join :: "char \<Rightarrow> string list \<Rightarrow> string" where
  "join c [] = []"
| "join c [p] = p"
| "join c (p # q # ps) = p @ c # join c (q # ps)"

subsection \<open>Numerals\<close>

text \<open>\<open>Display\<close> (base 10) and \<open>LowerHex\<close> (base 16) of an unsigned integer, and the value of a numeral.\<close>

definition digit_char :: "nat \<Rightarrow> char" where
  "digit_char d = ''0123456789abcdef'' ! d"

fun show_base :: "nat \<Rightarrow> nat \<Rightarrow> string" where
  "show_base b n =
     (if b \<le> 1 \<or> n < b then [digit_char n] else show_base b (n div b) @ [digit_char (n mod b)])"

declare show_base.simps [simp del]

abbreviation show_nat :: "nat \<Rightarrow> string" where
  "show_nat \<equiv> show_base 10"

abbreviation show_hex :: "nat \<Rightarrow> string" where
  "show_hex \<equiv> show_base 16"

text \<open>\<open>Display\<close> of a signed integer.\<close>
definition show_int :: "int \<Rightarrow> string" where
  "show_int i = (if i < 0 then CHR ''-'' # show_nat (nat (- i)) else show_nat (nat i))"

text \<open>\<open>char::to_digit\<close>; letters of either case are digits of base 16.\<close>
definition char_digit :: "nat \<Rightarrow> char \<Rightarrow> nat option" where
  "char_digit b c =
     (let n = of_char c :: nat;
          d = (if 48 \<le> n \<and> n \<le> 57 then Some (n - 48)
               else if 97 \<le> n \<and> n \<le> 122 then Some (n - 87)
               else if 65 \<le> n \<and> n \<le> 90 then Some (n - 55)
               else None)
      in (case d of None \<Rightarrow> None | Some v \<Rightarrow> if v < b then Some v else None))"

definition base_val :: "nat \<Rightarrow> string \<Rightarrow> nat" where
  "base_val b s = foldl (\<lambda>a c. a * b + (case char_digit b c of None \<Rightarrow> 0 | Some d \<Rightarrow> d)) 0 s"

lemma base_val_snoc:
  "base_val b (s @ [c]) = base_val b s * b + (case char_digit b c of None \<Rightarrow> 0 | Some d \<Rightarrow> d)"
  by (simp add: base_val_def)

lemma less_16_cases:
  "d < (16::nat) \<Longrightarrow> d \<in> {0, 1, 2, 3, 4, 5, 6, 7, 8, 9, 10, 11, 12, 13, 14, 15}"
  by (simp; presburger)

lemma char_digit_digit_char: "d < b \<Longrightarrow> b \<le> 16 \<Longrightarrow> char_digit b (digit_char d) = Some d"
proof -
  assume "d < b" "b \<le> 16"
  then have "d < 16" by simp
  then show ?thesis using \<open>d < b\<close>
    by (elim less_16_cases [THEN insertE] insertE)
      (auto simp: char_digit_def digit_char_def Let_def)
qed

lemma base_val_show_base:
  "1 < b \<Longrightarrow> b \<le> 16 \<Longrightarrow> base_val b (show_base b n) = n"
proof (induction b n rule: show_base.induct)
  case (1 b n)
  show ?case
  proof (cases "n < b")
    case True
    then show ?thesis using "1.prems"
      by (subst show_base.simps) (simp add: base_val_def char_digit_digit_char)
  next
    case False
    then show ?thesis using 1
      by (subst show_base.simps) (simp add: base_val_snoc char_digit_digit_char)
  qed
qed

lemma show_base_inject:
  "1 < b \<Longrightarrow> b \<le> 16 \<Longrightarrow> show_base b m = show_base b n \<longleftrightarrow> m = n"
  by (metis base_val_show_base)

lemma show_nat_inject [simp]: "show_nat m = show_nat n \<longleftrightarrow> m = n"
  by (rule show_base_inject) simp_all

lemma show_hex_inject [simp]: "show_hex m = show_hex n \<longleftrightarrow> m = n"
  by (rule show_base_inject) simp_all

lemma show_base_ne [simp]: "show_base b n \<noteq> []" "[] \<noteq> show_base b n"
  by (subst show_base.simps, simp)+

lemma set_show_base:
  "1 < b \<Longrightarrow> b \<le> 16 \<Longrightarrow> set (show_base b n) \<subseteq> digit_char ` {..<b}"
proof (induction b n rule: show_base.induct)
  case (1 b n)
  show ?case
  proof (cases "n < b")
    case True
    then show ?thesis by (subst show_base.simps) simp
  next
    case False
    then show ?thesis using 1 by (subst show_base.simps) auto
  qed
qed

text \<open>The decimal reading of a signed numeral; the inverse of \<open>show_int\<close>.\<close>

definition read_dec :: "string \<Rightarrow> nat option" where
  "read_dec s =
     (if s \<noteq> [] \<and> list_all (\<lambda>c. char_digit 10 c \<noteq> None) s then Some (base_val 10 s) else None)"

fun read_int :: "string \<Rightarrow> int option" where
  "read_int [] = None"
| "read_int (c # cs) =
     (if c = CHR ''-'' then map_option (\<lambda>n. - int n) (read_dec cs)
      else map_option int (read_dec (c # cs)))"

lemma read_dec_show_nat [simp]: "read_dec (show_nat n) = Some n"
proof -
  have "char_digit 10 c \<noteq> None" if "c \<in> set (show_nat n)" for c
    using that set_show_base [of 10 n] char_digit_digit_char [of _ 10] by auto
  then show ?thesis by (simp add: read_dec_def base_val_show_base list_all_iff del: not_None_eq)
qed

lemma hd_show_nat: "show_nat n = c # cs \<Longrightarrow> c \<noteq> CHR ''-''"
proof
  assume "show_nat n = c # cs" and c: "c = CHR ''-''"
  then obtain d where "d < 10" "c = digit_char d"
    using set_show_base [of 10 n] by auto
  then have "char_digit 10 c = Some d" by (simp add: char_digit_digit_char)
  then show False using c by (simp add: char_digit_def)
qed

lemma read_int_show_int [simp]: "read_int (show_int i) = Some i"
proof (cases "i < 0")
  case True
  then show ?thesis by (simp add: show_int_def)
next
  case False
  obtain c cs where "show_nat (nat i) = c # cs" by (metis show_base_ne(1) neq_Nil_conv)
  moreover have "read_dec (show_nat (nat i)) = Some (nat i)" by simp
  ultimately show ?thesis using False hd_show_nat [of "nat i" c cs] by (simp add: show_int_def)
qed

lemma show_int_inject [simp]: "show_int i = show_int j \<longleftrightarrow> i = j"
  by (metis option.inject read_int_show_int)

lemma show_int_nat: "show_nat n = show_int (int n)"
  by (simp add: show_int_def)

section \<open>State machines\<close>

inductive reach :: "('s \<Rightarrow> bool) \<Rightarrow> ('s \<Rightarrow> 's \<Rightarrow> bool) \<Rightarrow> 's \<Rightarrow> bool" for start step where
  reach_start: "start s \<Longrightarrow> reach start step s"
| reach_step: "reach start step s \<Longrightarrow> step s t \<Longrightarrow> reach start step t"

text \<open>A machine given by a transition function over events, run on a list of events.\<close>

fun run :: "('e \<Rightarrow> 's \<Rightarrow> 's option) \<Rightarrow> 'e list \<Rightarrow> 's \<Rightarrow> 's option" where
  "run fire [] s = Some s"
| "run fire (e # es) s = (case fire e s of None \<Rightarrow> None | Some t \<Rightarrow> run fire es t)"

definition fires :: "('e \<Rightarrow> 's \<Rightarrow> 's option) \<Rightarrow> 's \<Rightarrow> 's \<Rightarrow> bool" where
  "fires fire s t \<longleftrightarrow> (\<exists>e. fire e s = Some t)"

lemma run_append:
  "run fire (es @ fs) s = (case run fire es s of None \<Rightarrow> None | Some t \<Rightarrow> run fire fs t)"
  by (induction es arbitrary: s) (auto split: option.splits)

lemma reach_run:
  "reach start (fires fire) s \<Longrightarrow> run fire es s = Some t \<Longrightarrow> reach start (fires fire) t"
proof (induction es arbitrary: s)
  case (Cons e es)
  then obtain u where u: "fire e s = Some u" "run fire es u = Some t"
    by (auto split: option.splits)
  then have "fires fire s u" by (auto simp: fires_def)
  with Cons.prems(1) have "reach start (fires fire) u" by (rule reach_step)
  then show ?case using u(2) by (rule Cons.IH)
qed simp

lemma run_keeps:
  assumes "run fire es s = Some t" and "I s" and "\<And>e s t. e \<in> set es \<Longrightarrow> I s \<Longrightarrow> fire e s = Some t \<Longrightarrow> I t"
  shows "I t"
  using assms
proof (induction es arbitrary: s)
  case (Cons e es)
  then obtain u where u: "fire e s = Some u" "run fire es u = Some t" by (auto split: option.splits)
  have "I u" by (rule Cons.prems(3) [OF _ Cons.prems(2) u(1)]) simp
  with u(2) show ?case
  proof (rule Cons.IH)
    show "I t'" if "e' \<in> set es" "I s'" "fire e' s' = Some t'" for e' s' t'
      by (rule Cons.prems(3) [OF _ that(2,3)]) (use that(1) in simp)
  qed
qed simp

text \<open>
  The contract of an inductive invariant: it holds at the start and each step from a reachable
  state keeps it. Every machine of the development interprets this interface.
\<close>

locale invariant_system =
  fixes start :: "'s \<Rightarrow> bool" and step :: "'s \<Rightarrow> 's \<Rightarrow> bool" and inv :: "'s \<Rightarrow> bool"
  assumes start_inv: "start s \<Longrightarrow> inv s"
    and step_inv: "inv s \<Longrightarrow> step s t \<Longrightarrow> inv t"
begin

lemma reach_inv: "reach start step s \<Longrightarrow> inv s"
  by (induction rule: reach.induct) (auto intro: start_inv step_inv)

lemma reach_inv_imp: "reach start step s \<Longrightarrow> (inv s \<Longrightarrow> P s) \<Longrightarrow> P s"
  using reach_inv by blast

end

section \<open>Infinite runs\<close>

definition history :: "('e \<Rightarrow> 's \<Rightarrow> 's option) \<Rightarrow> (nat \<Rightarrow> 'e) \<Rightarrow> (nat \<Rightarrow> 's) \<Rightarrow> bool" where
  "history f es h \<longleftrightarrow> (\<forall>n. f (es n) (h n) = Some (h (Suc n)))"

text \<open>A participant that can act from some time on does act.\<close>
definition weakly_fair ::
    "('e \<Rightarrow> 'p option) \<Rightarrow> ('p \<Rightarrow> 's \<Rightarrow> bool) \<Rightarrow> (nat \<Rightarrow> 'e) \<Rightarrow> (nat \<Rightarrow> 's) \<Rightarrow> bool" where
  "weakly_fair actor can_act es h \<longleftrightarrow>
     (\<forall>p n. (\<forall>m\<ge>n. can_act p (h m)) \<longrightarrow> (\<exists>m\<ge>n. actor (es m) = Some p))"

lemma fair_leads_to:
  assumes "weakly_fair actor can_act es h" and "P (h n)"
    and can: "\<And>m. n \<le> m \<Longrightarrow> P (h m) \<Longrightarrow> can_act p (h m)"
    and stay: "\<And>m. n \<le> m \<Longrightarrow> P (h m) \<Longrightarrow> actor (es m) \<noteq> Some p \<Longrightarrow> P (h (Suc m))"
    and act: "\<And>m. n \<le> m \<Longrightarrow> P (h m) \<Longrightarrow> actor (es m) = Some p \<Longrightarrow> Q (h (Suc m))"
  shows "\<exists>m\<ge>n. Q (h m)"
proof -
  have keeps: "P (h m)" if "n \<le> m" "\<forall>k. n \<le> k \<and> k < m \<longrightarrow> actor (es k) \<noteq> Some p" for m
    using that
  proof (induction m rule: dec_induct)
    case base
    show ?case using \<open>P (h n)\<close> .
  next
    case (step m)
    then show ?case using stay [of m] by simp
  qed
  obtain m where m: "n \<le> m" "actor (es m) = Some p"
    using assms(1) can keeps unfolding weakly_fair_def by blast
  define l where "l = (LEAST m. n \<le> m \<and> actor (es m) = Some p)"
  have l: "n \<le> l \<and> actor (es l) = Some p" unfolding l_def by (rule LeastI [of _ m]) (use m in simp)
  have "P (h l)"
    by (rule keeps) (use l not_less_Least [of _ "\<lambda>m. n \<le> m \<and> actor (es m) = Some p", folded l_def] in blast)+
  then have "Q (h (Suc l))" "n \<le> Suc l" using act [of l] l by simp_all
  then show ?thesis by blast
qed

lemma history_reach:
  "history f es h \<Longrightarrow> start (h 0) \<Longrightarrow> reach start (fires f) (h n)"
proof (induction n)
  case (Suc n)
  then have "fires f (h n) (h (Suc n))" by (auto simp: history_def fires_def)
  then show ?case using Suc by (blast intro: reach_step)
qed (simp add: reach_start)

text \<open>A finite run that ends where an event changes nothing goes on for ever.\<close>

lemma history_of_run:
  assumes "run f fs s = Some t" and "f idle t = Some t"
  shows "\<exists>h. history f (\<lambda>n. if n < length fs then fs ! n else idle) h \<and>
    (\<forall>n. run f (take n fs) s = Some (h n)) \<and> (\<forall>n\<ge>length fs. h n = t)"
proof -
  have "\<exists>u. run f (take n fs) s = Some u" for n
    using assms(1) run_append [of f "take n fs" "drop n fs" s] by (auto split: option.splits)
  then obtain h where h: "\<And>n. run f (take n fs) s = Some (h n)" by metis
  have "h n = t" if "length fs \<le> n" for n using h [of n] assms(1) that by simp
  moreover have "f (fs ! n) (h n) = Some (h (Suc n))" if "n < length fs" for n
    using h [of n] h [of "Suc n"] that
    by (simp add: take_Suc_conv_app_nth run_append split: option.splits)
  ultimately have "history f (\<lambda>n. if n < length fs then fs ! n else idle) h"
    using assms(2) by (simp add: history_def)
  then show ?thesis using h \<open>\<And>n. length fs \<le> n \<Longrightarrow> h n = t\<close> by blast
qed

section \<open>Sums over an updated function\<close>

lemma sum_fun_upd:
  fixes f :: "nat \<Rightarrow> 'a \<Rightarrow> nat"
  assumes "i < n"
  shows "(\<Sum>j<n. f j ((g(i := v)) j)) + f i (g i) = (\<Sum>j<n. f j (g j)) + f i v"
proof -
  have "(\<Sum>j<n. f j ((g(i := v)) j)) = f i v + (\<Sum>j\<in>{..<n} - {i}. f j (g j))"
    using assms by (subst sum.remove [of _ i]) (auto intro: sum.cong)
  moreover have "(\<Sum>j<n. f j (g j)) = f i (g i) + (\<Sum>j\<in>{..<n} - {i}. f j (g j))"
    using assms by (subst sum.remove [of _ i]) auto
  ultimately show ?thesis by simp
qed

end
