(* ===== verification/Redis.thy ===== *)
theory Redis
  imports Prelude "HOL-Library.Log_Nat"
begin

text \<open>
  What the program relies on from Redis and from the Redis client. The server is not part of the
  repository: its commands are the fields of a record of functions over an abstract server state,
  and \<open>redis_server\<close> states their documented behaviour through \<open>live\<close>, the value and the expiry of a key
  at a server time. A script runs at one server time (Unix time in milliseconds).
\<close>

section \<open>Commands\<close>

text \<open>
  Commands take the server time; a command that writes returns the new server state or an error
  reply. \<open>lua_tonumber\<close> and \<open>lua_tostring\<close> are the conversions of the script interpreter between
  strings and numbers (a number is the integer it denotes); \<open>as_u64\<close>, \<open>as_i64\<close> and \<open>as_u8\<close> are the
  client's conversions of an integer reply.
\<close>

record 'r redis_ops =
  redis_get :: "'r \<Rightarrow> int \<Rightarrow> string \<Rightarrow> string + string option"
  redis_setex :: "'r \<Rightarrow> int \<Rightarrow> string \<Rightarrow> string \<Rightarrow> string \<Rightarrow> string + 'r"
  redis_decrby :: "'r \<Rightarrow> int \<Rightarrow> string \<Rightarrow> string \<Rightarrow> string + 'r"
  redis_incrby :: "'r \<Rightarrow> int \<Rightarrow> string \<Rightarrow> string \<Rightarrow> string + 'r"
  redis_pttl :: "'r \<Rightarrow> int \<Rightarrow> string \<Rightarrow> int"
  redis_pexpiretime :: "'r \<Rightarrow> int \<Rightarrow> string \<Rightarrow> int"
  lua_tonumber :: "string \<Rightarrow> int option"
  lua_tostring :: "int \<Rightarrow> string"
  as_u64 :: "int \<Rightarrow> string + u64"
  as_i64 :: "int \<Rightarrow> string + i64"
  as_u8 :: "int \<Rightarrow> string + u8"

text \<open>
  Lua numbers are IEEE doubles: integers up to \<open>2^53\<close> are exact, beyond it the result of an operation
  is rounded to 53 significant bits, ties to even.
\<close>

definition exact :: "int \<Rightarrow> bool" where
  "exact n \<longleftrightarrow> \<bar>n\<bar> \<le> 2 ^ 53"

definition lua_round :: "int \<Rightarrow> int" where
  "lua_round n =
     (if exact n then n
      else (let m = nat \<bar>n\<bar>; e = floorlog 2 m - 53; q = m div 2 ^ e; r = m mod 2 ^ e;
                q' = (if 2 ^ e < 2 * r \<or> (2 * r = 2 ^ e \<and> odd q) then Suc q else q)
            in sgn n * int (q' * 2 ^ e)))"

definition lua_sub :: "int \<Rightarrow> int \<Rightarrow> int" where
  "lua_sub a b = lua_round (a - b)"

lemma lua_round_exact [simp]: "exact n \<Longrightarrow> lua_round n = n"
  by (simp add: lua_round_def)

lemma exactI: "0 \<le> n \<Longrightarrow> n \<le> 2 ^ 53 \<Longrightarrow> exact n"
  by (simp add: exact_def)

section \<open>Documented behaviour\<close>

text \<open>
  A key without expiry is not written by the program; its commands keep the expiry (\<open>INCRBY\<close>, \<open>DECRBY\<close>)
  or set it (\<open>SETEX\<close>). A key is there until its expiry and gone after it, with the documented
  tolerance of a millisecond; nothing else removes it (no eviction, no lost writes).
\<close>

locale redis_server =
  fixes ops :: "'r redis_ops"
    and live :: "'r \<Rightarrow> int \<Rightarrow> string \<Rightarrow> (string \<times> int option) option"
  assumes live_none: "live r t k = None \<Longrightarrow> t \<le> t' \<Longrightarrow> live r t' k = None"
    and live_plain: "live r t k = Some (v, None) \<Longrightarrow> t \<le> t' \<Longrightarrow> live r t' k = Some (v, None)"
    and live_expiring: "live r t k = Some (v, Some e) \<Longrightarrow> t \<le> t' \<Longrightarrow>
      live r t' k = Some (v, Some e) \<or> (live r t' k = None \<and> e \<le> t')"
    and live_le: "live r t k = Some (v, Some e) \<Longrightarrow> t \<le> e"
    and get_live: "redis_get ops r t k = Inr (map_option fst (live r t k))"
    and pttl_live: "redis_pttl ops r t k =
      (case live r t k of None \<Rightarrow> -2 | Some (_, None) \<Rightarrow> -1 | Some (_, Some e) \<Rightarrow> e - t)"
    and pexpiretime_live: "redis_pexpiretime ops r t k =
      (case live r t k of None \<Rightarrow> -2 | Some (_, None) \<Rightarrow> -1 | Some (_, Some e) \<Rightarrow> e)"
    and setex_ok: "0 < s \<Longrightarrow> 0 \<le> t \<Longrightarrow> t + 1000 * s \<le> 2 ^ 53 \<Longrightarrow>
      \<exists>r'. redis_setex ops r t k (show_int s) v = Inr r' \<and>
           live r' t k = Some (v, Some (t + 1000 * s)) \<and>
           (\<forall>k' t'. k' \<noteq> k \<longrightarrow> t \<le> t' \<longrightarrow> live r' t' k' = live r t' k')"
    and setex_bad: "s \<le> 0 \<Longrightarrow> \<exists>e. redis_setex ops r t k (show_int s) v = Inl e"
    and decrby_ok: "live r t k = Some (show_int n, x) \<Longrightarrow> exact n \<Longrightarrow> exact m \<Longrightarrow> exact (n - m) \<Longrightarrow>
      \<exists>r'. redis_decrby ops r t k (show_int m) = Inr r' \<and>
           live r' t k = Some (show_int (n - m), x) \<and>
           (\<forall>k' t'. k' \<noteq> k \<longrightarrow> t \<le> t' \<longrightarrow> live r' t' k' = live r t' k')"
    and incrby_ok: "live r t k = Some (show_int n, x) \<Longrightarrow> exact n \<Longrightarrow> exact m \<Longrightarrow> exact (n + m) \<Longrightarrow>
      \<exists>r'. redis_incrby ops r t k (show_int m) = Inr r' \<and>
           live r' t k = Some (show_int (n + m), x) \<and>
           (\<forall>k' t'. k' \<noteq> k \<longrightarrow> t \<le> t' \<longrightarrow> live r' t' k' = live r t' k')"
    and tonumber_exact: "exact n \<Longrightarrow> lua_tonumber ops (show_int n) = Some n"
    and tostring_exact: "exact n \<Longrightarrow> lua_tostring ops n = show_int n"
    and as_u64_ok: "0 \<le> n \<Longrightarrow> n \<le> 2 ^ 53 \<Longrightarrow> as_u64 ops n = Inr (word_of_int n)"
    and as_i64_ok: "exact n \<Longrightarrow> as_i64 ops n = Inr (word_of_int n)"
    and as_u8_ok: "0 \<le> n \<Longrightarrow> n < 256 \<Longrightarrow> as_u8 ops n = Inr (word_of_int n)"

section \<open>A server in memory\<close>

text \<open>
  One behaviour that satisfies all of it: a map from keys to values with expiry, integers read and
  written in base ten.
\<close>

type_synonym mem = "string \<Rightarrow> (string \<times> int option) option"

definition mem_live :: "mem \<Rightarrow> int \<Rightarrow> string \<Rightarrow> (string \<times> int option) option" where
  "mem_live m t k =
     (case m k of Some (v, Some e) \<Rightarrow> if t < e then Some (v, Some e) else None | x \<Rightarrow> x)"

definition mem_setex :: "mem \<Rightarrow> int \<Rightarrow> string \<Rightarrow> string \<Rightarrow> string \<Rightarrow> string + mem" where
  "mem_setex m t k secs v =
     (case read_int secs of
        None \<Rightarrow> Inl ''ERR value is not an integer or out of range''
      | Some s \<Rightarrow> if s \<le> 0 then Inl ''ERR invalid expire time in setex command''
                  else Inr (m(k \<mapsto> (v, Some (t + 1000 * s)))))"

definition mem_addby :: "int \<Rightarrow> mem \<Rightarrow> int \<Rightarrow> string \<Rightarrow> string \<Rightarrow> string + mem" where
  "mem_addby sign m t k d =
     (case read_int d of
        None \<Rightarrow> Inl ''ERR value is not an integer or out of range''
      | Some i \<Rightarrow>
          (case mem_live m t k of
             None \<Rightarrow> Inr (m(k \<mapsto> (show_int (sign * i), None)))
           | Some (v, x) \<Rightarrow>
               (case read_int v of
                  None \<Rightarrow> Inl ''ERR value is not an integer or out of range''
                | Some n \<Rightarrow> Inr (m(k \<mapsto> (show_int (n + sign * i), x))))))"

definition mem_expiry :: "mem \<Rightarrow> int \<Rightarrow> string \<Rightarrow> (int \<Rightarrow> int) \<Rightarrow> int" where
  "mem_expiry m t k f =
     (case mem_live m t k of None \<Rightarrow> -2 | Some (_, None) \<Rightarrow> -1 | Some (_, Some e) \<Rightarrow> f e)"

definition mem_ops :: "mem redis_ops" where
  "mem_ops =
     \<lparr>redis_get = (\<lambda>m t k. Inr (map_option fst (mem_live m t k))),
      redis_setex = mem_setex,
      redis_decrby = mem_addby (-1),
      redis_incrby = mem_addby 1,
      redis_pttl = (\<lambda>m t k. mem_expiry m t k (\<lambda>e. e - t)),
      redis_pexpiretime = (\<lambda>m t k. mem_expiry m t k (\<lambda>e. e)),
      lua_tonumber = read_int,
      lua_tostring = show_int,
      as_u64 = (\<lambda>n. Inr (word_of_int n)),
      as_i64 = (\<lambda>n. Inr (word_of_int n)),
      as_u8 = (\<lambda>n. Inr (word_of_int n))\<rparr>"

lemmas mem_defs =
  mem_ops_def mem_setex_def mem_addby_def mem_expiry_def mem_live_def

interpretation mem: redis_server mem_ops mem_live
proof (unfold_locales, goal_cases)
  case (3 r t k v e t')
  then show ?case by (auto simp: mem_live_def split: option.splits if_splits prod.splits)
qed (auto simp: mem_defs split: option.splits if_splits prod.splits)

end
