(* ===== verification/Ip.thy ===== *)
theory Ip
  imports Prelude
begin

text \<open>
  \<open>std::net::IpAddr\<close> as far as the program uses it: its \<open>Display\<close> (it ends up in the Redis key of a
  public bucket) and its \<open>FromStr\<close> (it reads the client address of a request). Shown addresses
  are distinct for distinct addresses.
\<close>

section \<open>Addresses\<close>

datatype ip_addr =
    V4 u8 u8 u8 u8
  | V6 u16 u16 u16 u16 u16 u16 u16 u16

section \<open>Display\<close>

definition show_v4 :: "u8 list \<Rightarrow> string" where
  "show_v4 os = join (CHR ''.'') (map (\<lambda>x. show_nat (unat x)) os)"

definition show_segs :: "u16 list \<Rightarrow> string" where
  "show_segs gs = join (CHR '':'') (map (\<lambda>x. show_hex (unat x)) gs)"

text \<open>The first longest run of zero segments, as \<open>(start, length)\<close>.\<close>

fun zero_span :: "nat \<Rightarrow> nat \<times> nat \<Rightarrow> nat \<times> nat \<Rightarrow> u16 list \<Rightarrow> nat \<times> nat" where
  "zero_span i longest current [] = longest"
| "zero_span i longest current (s # ss) =
     (if s = 0 then
        (let cur = (if snd current = 0 then (i, 1) else (fst current, snd current + 1))
         in zero_span (Suc i) (if snd longest < snd cur then cur else longest) cur ss)
      else zero_span (Suc i) longest (0, 0) ss)"

definition show_v6 :: "u16 list \<Rightarrow> string" where
  "show_v6 gs =
     (if take 6 gs = [0, 0, 0, 0, 0, 0xffff] \<and> length gs = 8
      then ''::ffff:'' @ show_v4 [ucast (drop_bit 8 (gs ! 6)), ucast (gs ! 6),
                                  ucast (drop_bit 8 (gs ! 7)), ucast (gs ! 7)]
      else (let (st, len) = zero_span 0 (0, 0) (0, 0) gs
            in if 1 < len
               then show_segs (take st gs) @ ''::'' @ show_segs (drop (st + len) gs)
               else show_segs gs))"

fun show_ip :: "ip_addr \<Rightarrow> string" where
  "show_ip (V4 a b c d) = show_v4 [a, b, c, d]"
| "show_ip (V6 a b c d e f g h) = show_v6 [a, b, c, d, e, f, g, h]"

section \<open>Parsing\<close>

text \<open>
  The reader of \<open>core::net::parser\<close>: each function returns the value read and the rest of the
  input, or \<open>None\<close> with nothing consumed.
\<close>

fun read_digits :: "nat \<Rightarrow> nat \<Rightarrow> nat \<Rightarrow> nat \<Rightarrow> string \<Rightarrow> (nat \<times> nat \<times> string) option" where
  "read_digits radix limit n acc [] = Some (n, acc, [])"
| "read_digits radix limit n acc (c # cs) =
     (case char_digit radix c of
        None \<Rightarrow> Some (n, acc, c # cs)
      | Some d \<Rightarrow>
          if limit < Suc n then None
          else read_digits radix limit (Suc n) (acc * radix + d) cs)"

definition read_number :: "nat \<Rightarrow> nat \<Rightarrow> bool \<Rightarrow> nat \<Rightarrow> string \<Rightarrow> (nat \<times> string) option" where
  "read_number radix max_digits allow_zero_prefix max_value s =
     (case read_digits radix max_digits 0 0 s of
        None \<Rightarrow> None
      | Some (n, v, rest) \<Rightarrow>
          if n = 0 then None
          else if \<not> allow_zero_prefix \<and> iter_next s = Some (CHR ''0'') \<and> 1 < n then None
          else if max_value < v then None
          else Some (v, rest))"

fun read_given_char :: "char \<Rightarrow> string \<Rightarrow> string option" where
  "read_given_char c [] = None"
| "read_given_char c (x # xs) = (if x = c then Some xs else None)"

definition read_separator ::
    "char \<Rightarrow> nat \<Rightarrow> (string \<Rightarrow> ('a \<times> string) option) \<Rightarrow> string \<Rightarrow> ('a \<times> string) option" where
  "read_separator sep i inner s =
     (if 0 < i then (case read_given_char sep s of None \<Rightarrow> None | Some s' \<Rightarrow> inner s')
      else inner s)"

fun read_octets :: "nat \<Rightarrow> nat \<Rightarrow> string \<Rightarrow> (u8 list \<times> string) option" where
  "read_octets 0 i s = Some ([], s)"
| "read_octets (Suc n) i s =
     (case read_separator (CHR ''.'') i (read_number 10 3 False 255) s of
        None \<Rightarrow> None
      | Some (v, s') \<Rightarrow>
          (case read_octets n (Suc i) s' of
             None \<Rightarrow> None
           | Some (os, r) \<Rightarrow> Some (of_nat v # os, r)))"

definition read_ipv4 :: "string \<Rightarrow> (u8 list \<times> string) option" where
  "read_ipv4 s = read_octets 4 0 s"

text \<open>\<open>read_groups\<close> reads up to \<open>n\<close> groups, the next one with index \<open>i\<close>; an embedded IPv4 address
  takes the place of two groups and ends the reading (flag).\<close>

fun read_groups :: "nat \<Rightarrow> nat \<Rightarrow> string \<Rightarrow> u16 list \<times> bool \<times> string" where
  "read_groups 0 i s = ([], False, s)"
| "read_groups (Suc n) i s =
     (case (if 0 < n then read_separator (CHR '':'') i read_ipv4 s else None) of
        Some (os, s') \<Rightarrow>
          ([of_nat (unat (os ! 0) * 256 + unat (os ! 1)),
            of_nat (unat (os ! 2) * 256 + unat (os ! 3))], True, s')
      | None \<Rightarrow>
          (case read_separator (CHR '':'') i (read_number 16 4 True 65535) s of
             None \<Rightarrow> ([], False, s)
           | Some (g, s') \<Rightarrow>
               (case read_groups n (Suc i) s' of (gs, v4, r) \<Rightarrow> (of_nat g # gs, v4, r))))"

definition v6_of :: "u16 list \<Rightarrow> ip_addr" where
  "v6_of gs = V6 (gs ! 0) (gs ! 1) (gs ! 2) (gs ! 3) (gs ! 4) (gs ! 5) (gs ! 6) (gs ! 7)"

definition read_ipv6 :: "string \<Rightarrow> (ip_addr \<times> string) option" where
  "read_ipv6 s =
     (case read_groups 8 0 s of (hd_gs, v4, s1) \<Rightarrow>
        if length hd_gs = 8 then Some (v6_of hd_gs, s1)
        else if v4 then None
        else (case read_given_char (CHR '':'') s1 of
            None \<Rightarrow> None
          | Some s2 \<Rightarrow>
              (case read_given_char (CHR '':'') s2 of
                 None \<Rightarrow> None
               | Some s3 \<Rightarrow>
                   (case read_groups (8 - (length hd_gs + 1)) 0 s3 of (tl_gs, _, r) \<Rightarrow>
                      Some (v6_of (hd_gs @ replicate (8 - length hd_gs - length tl_gs) 0 @ tl_gs),
                            r)))))"

definition v4_of :: "u8 list \<Rightarrow> ip_addr" where
  "v4_of os = V4 (os ! 0) (os ! 1) (os ! 2) (os ! 3)"

text \<open>\<open>IpAddr::from_str\<close>: IPv4 first, then IPv6, and nothing may be left over.\<close>

definition parse_ip :: "string \<Rightarrow> ip_addr option" where
  "parse_ip s =
     (case (case read_ipv4 s of Some (os, r) \<Rightarrow> Some (v4_of os, r) | None \<Rightarrow> read_ipv6 s) of
        Some (ip, []) \<Rightarrow> Some ip
      | _ \<Rightarrow> None)"

text \<open>Evaluation of the reader on a literal, by \<open>simp add: parse_eval\<close>.\<close>

lemma read_octets_numeral:
  "read_octets (numeral k) i s =
     (case read_separator (CHR ''.'') i (read_number 10 3 False 255) s of
        None \<Rightarrow> None
      | Some (v, s') \<Rightarrow>
          (case read_octets (pred_numeral k) (Suc i) s' of
             None \<Rightarrow> None
           | Some (os, r) \<Rightarrow> Some (of_nat v # os, r)))"
  by (simp add: numeral_eq_Suc)

lemma read_groups_numeral:
  "read_groups (numeral k) i s =
     (case (if 0 < pred_numeral k then read_separator (CHR '':'') i read_ipv4 s else None) of
        Some (os, s') \<Rightarrow>
          ([of_nat (unat (os ! 0) * 256 + unat (os ! 1)),
            of_nat (unat (os ! 2) * 256 + unat (os ! 3))], True, s')
      | None \<Rightarrow>
          (case read_separator (CHR '':'') i (read_number 16 4 True 65535) s of
             None \<Rightarrow> ([], False, s)
           | Some (g, s') \<Rightarrow>
               (case read_groups (pred_numeral k) (Suc i) s' of
                  (gs, v4, r) \<Rightarrow> (of_nat g # gs, v4, r))))"
  by (simp add: numeral_eq_Suc)

lemmas parse_eval =
  parse_ip_def read_ipv4_def read_ipv6_def read_number_def read_separator_def char_digit_def
  v4_of_def v6_of_def read_octets_numeral read_groups_numeral nth_append

section \<open>Reading back what is shown\<close>

subsection \<open>Numerals\<close>

abbreviation digit :: "nat \<Rightarrow> char \<Rightarrow> bool" where
  "digit b c \<equiv> char_digit b c \<noteq> None"

text \<open>A reader of base \<open>b\<close> stops before the rest of the input.\<close>
definition ends_number :: "nat \<Rightarrow> string \<Rightarrow> bool" where
  "ends_number b s \<longleftrightarrow> s = [] \<or> \<not> digit b (hd s)"

lemma read_digits_all:
  "list_all (digit b) ds \<Longrightarrow> n + length ds \<le> limit \<Longrightarrow> ends_number b s \<Longrightarrow>
   read_digits b limit n acc (ds @ s) =
     Some (n + length ds,
       foldl (\<lambda>a c. a * b + (case char_digit b c of None \<Rightarrow> 0 | Some d \<Rightarrow> d)) acc ds, s)"
proof (induction ds arbitrary: n acc)
  case Nil
  then show ?case by (cases s) (auto simp: ends_number_def)
next
  case (Cons c ds)
  then show ?case by (auto split: option.splits)
qed

lemma digits_show_base: "1 < b \<Longrightarrow> b \<le> 16 \<Longrightarrow> list_all (digit b) (show_base b n)"
  using set_show_base [of b n] char_digit_digit_char [of _ b] by (fastforce simp: list_all_iff)

lemma length_show_base:
  "1 < b \<Longrightarrow> n < b ^ k \<Longrightarrow> 0 < k \<Longrightarrow> length (show_base b n) \<le> k"
proof (induction k arbitrary: n)
  case (Suc k)
  show ?case
  proof (cases "n < b")
    case True
    then show ?thesis by (subst show_base.simps) simp
  next
    case False
    then have "0 < k" using Suc.prems by (cases k) auto
    moreover have "n div b < b ^ k"
      using Suc.prems by (simp add: less_mult_imp_div_less mult.commute)
    ultimately have "length (show_base b (n div b)) \<le> k" using Suc.IH Suc.prems(1) by blast
    then show ?thesis using False Suc.prems(1) by (subst show_base.simps) simp
  qed
qed simp

lemma hd_show_base:
  "1 < b \<Longrightarrow> b \<le> 16 \<Longrightarrow> 0 < n \<Longrightarrow> hd (show_base b n) \<noteq> CHR ''0''"
proof (induction b n rule: show_base.induct)
  case (1 b n)
  show ?case
  proof (cases "n < b")
    case True
    then have "char_digit b (digit_char n) = Some n" using 1 by (simp add: char_digit_digit_char)
    then have "digit_char n \<noteq> CHR ''0''" using 1 by (auto simp: char_digit_def)
    then show ?thesis using True by (subst show_base.simps) simp
  next
    case False
    then have "0 < n div b" using 1 by (simp add: div_greater_zero_iff)
    then show ?thesis using False 1 by (subst show_base.simps) simp
  qed
qed

lemma read_number_show:
  assumes "1 < b" "b \<le> 16" "n < b ^ k" "0 < k" "n \<le> hi" "ends_number b s"
  shows "read_number b k z hi (show_base b n @ s) = Some (n, s)"
proof -
  have "read_digits b k 0 0 (show_base b n @ s) = Some (length (show_base b n), n, s)"
    using read_digits_all [OF digits_show_base [OF assms(1,2)] _ assms(6), where n = 0]
      base_val_show_base [OF assms(1,2), of n] length_show_base [OF assms(1,3,4)]
    by (simp add: base_val_def)
  moreover have "length (show_base b n) = 1" if "n = 0"
    using assms(1) that by (subst show_base.simps) simp
  moreover have "iter_next (show_base b n @ s) = Some (hd (show_base b n))"
    by (metis append_Cons iter_next_simps(2) list.collapse show_base_ne(1))
  ultimately show ?thesis
    using assms hd_show_base [of b n] by (cases "n = 0") (auto simp: read_number_def)
qed

lemma read_octet_show [simp]:
  "ends_number 10 s \<Longrightarrow>
   read_number 10 3 False 255 (show_nat (unat x) @ s) = Some (unat (x::u8), s)"
  using unsigned_less [of x, where 'a = nat] by (intro read_number_show) auto

lemma read_group_show [simp]:
  "ends_number 16 s \<Longrightarrow>
   read_number 16 4 True 65535 (show_hex (unat x) @ s) = Some (unat (x::u16), s)"
  using unsigned_less [of x, where 'a = nat] by (intro read_number_show) auto

lemma ends_number_simps [simp]:
  "ends_number b []"
  "ends_number 10 (CHR ''.'' # s)"
  "ends_number 16 (CHR '':'' # s)"
  by (simp_all add: ends_number_def char_digit_def)

lemma read_number_nodigit: "ends_number b s \<Longrightarrow> read_number b k z hi s = None"
  by (cases s) (auto simp: read_number_def ends_number_def)

subsection \<open>IPv4\<close>

lemma read_ipv4_show: "length os = 4 \<Longrightarrow> read_ipv4 (show_v4 os) = Some (os, [])"
proof -
  assume "length os = 4"
  then obtain a b c d where os: "os = [a, b, c, d]"
    by (auto simp: numeral_eq_Suc length_Suc_conv)
  have a: "read_number 10 3 False 255 (show_nat (unat d)) = Some (unat d, [])"
    using read_octet_show [of "[]" d] by simp
  show ?thesis
    unfolding os read_ipv4_def show_v4_def
    by (simp add: read_octets_numeral read_separator_def a)
qed

text \<open>An IPv4 address needs a dot.\<close>

lemma read_digits_rest:
  "read_digits b limit n acc s = Some (m, v, r) \<Longrightarrow> set r \<subseteq> set s"
  by (induction b limit n acc s rule: read_digits.induct) (auto split: option.splits if_splits)

lemma read_number_rest: "read_number b k z hi s = Some (v, r) \<Longrightarrow> set r \<subseteq> set s"
  by (auto simp: read_number_def split: option.splits if_splits dest!: read_digits_rest)

lemma read_ipv4_dot: "CHR ''.'' \<notin> set s \<Longrightarrow> read_ipv4 s = None"
proof -
  assume s: "CHR ''.'' \<notin> set s"
  have "read_given_char (CHR ''.'') r = None" if "read_number 10 3 False 255 s = Some (v, r)" for v r
    using s read_number_rest [OF that] by (cases r) auto
  then show ?thesis
    by (auto simp: read_ipv4_def read_octets_numeral read_separator_def split: option.splits)
qed

subsection \<open>IPv6\<close>

lemma digit_char_cases: "d < 16 \<Longrightarrow> digit_char d \<in> set ''0123456789abcdef''"
  unfolding digit_char_def by (rule nth_mem) simp

lemma set_show_numeral:
  assumes "1 < b" and "b \<le> 16"
  shows "set (show_base b n) \<subseteq> set ''0123456789abcdef''"
  using set_show_base [OF assms] digit_char_cases assms(2) by fastforce

lemma set_join: "set (join c ps) \<subseteq> {c} \<union> (\<Union>p\<in>set ps. set p)"
  by (induction c ps rule: join.induct) auto

lemma set_show_v4: "set (show_v4 os) \<subseteq> set ''0123456789abcdef.''"
  using set_join [of "CHR ''.''" "map (\<lambda>x. show_nat (unat x)) os"] set_show_numeral [of 10]
  by (fastforce simp: show_v4_def)

lemma set_show_segs: "set (show_segs gs) \<subseteq> set ''0123456789abcdef:''"
  using set_join [of "CHR '':''" "map (\<lambda>x. show_hex (unat x)) gs"] set_show_numeral [of 16]
  by (fastforce simp: show_segs_def)

lemma no_dot_show_hex [simp]: "CHR ''.'' \<notin> set (show_hex n)"
  using set_show_numeral [of 16 n] by auto

lemma no_dot_show_segs [simp]: "CHR ''.'' \<notin> set (show_segs gs)"
  using set_show_segs [of gs] by auto

text \<open>The zero run found by \<open>zero_span\<close> lies inside the address and consists of zeros.\<close>

definition zero_run :: "u16 list \<Rightarrow> nat \<times> nat \<Rightarrow> bool" where
  "zero_run gs sl \<longleftrightarrow> fst sl + snd sl \<le> length gs \<and> (\<forall>j < snd sl. gs ! (fst sl + j) = 0)"

lemma zero_run_0 [simp]: "zero_run gs (0, 0)"
  by (simp add: zero_run_def)

lemma zero_run_extend:
  assumes "zero_run gs (st, n)" and "st + n < length gs" and "gs ! (st + n) = 0"
  shows "zero_run gs (st, Suc n)"
  using assms by (auto simp: zero_run_def less_Suc_eq)

lemma zero_span_run:
  assumes "zero_run gs longest" and "zero_run gs cur" and "snd cur = 0 \<or> fst cur + snd cur = i"
    and "drop i gs = ss" and "i \<le> length gs"
  shows "zero_run gs (zero_span i longest cur ss)"
  using assms
proof (induction ss arbitrary: i longest cur)
  case (Cons s ss)
  from Cons.prems(4) have "i < length gs"
    by (metis drop_all linorder_le_less_linear list.distinct(1))
  then have i: "i < length gs" "gs ! i = s" "drop (Suc i) gs = ss"
    using Cons.prems(4) by (auto simp: Cons_nth_drop_Suc [symmetric])
  let ?c = "if snd cur = 0 then (i, 1) else (fst cur, snd cur + 1)"
  show ?case
  proof (cases "s = 0")
    case True
    then have "zero_run gs ?c"
      using Cons.prems(2,3) i zero_run_extend [of gs "fst cur" "snd cur"]
      by (auto simp: zero_run_def)
    moreover have "fst ?c + snd ?c = Suc i" using Cons.prems(3) by auto
    ultimately have
      "zero_run gs (zero_span (Suc i) (if snd longest < snd ?c then ?c else longest) ?c ss)"
      by (intro Cons.IH) (use Cons.prems(1) i in auto)
    then show ?thesis using True by (simp add: Let_def)
  next
    case False
    have "zero_run gs (zero_span (Suc i) longest (0, 0) ss)"
      by (rule Cons.IH) (use Cons.prems(1) i in auto)
    with False show ?thesis by simp
  qed
qed simp

text \<open>How an address that is not an IPv4-mapped one is shown, and the bytes of one that is.\<close>

definition plain_show :: "u16 list \<Rightarrow> string" where
  "plain_show gs =
     (let (st, len) = zero_span 0 (0, 0) (0, 0) gs
      in if 1 < len then show_segs (take st gs) @ ''::'' @ show_segs (drop (st + len) gs)
         else show_segs gs)"

definition mapped_v4 :: "u16 list \<Rightarrow> u8 list" where
  "mapped_v4 gs = [ucast (drop_bit 8 (gs ! 6)), ucast (gs ! 6),
                   ucast (drop_bit 8 (gs ! 7)), ucast (gs ! 7)]"

lemma show_v6_eq:
  "show_v6 gs = (if take 6 gs = [0, 0, 0, 0, 0, 0xffff] \<and> length gs = 8
                 then ''::ffff:'' @ show_v4 (mapped_v4 gs) else plain_show gs)"
  by (simp add: show_v6_def mapped_v4_def plain_show_def)

lemma zero_run_rebuild:
  assumes "zero_run gs (st, len)"
  shows "take st gs @ replicate len 0 @ drop (st + len) gs = gs"
proof -
  have "take len (drop st gs) = replicate len 0"
    using assms by (intro nth_equalityI) (auto simp: zero_run_def)
  then have "drop st gs = replicate len 0 @ drop (st + len) gs"
    by (metis append_take_drop_id drop_drop add.commute)
  then show ?thesis by (metis append_take_drop_id)
qed

text \<open>Segments as they follow others, each with its colon.\<close>

definition more_segs :: "u16 list \<Rightarrow> string" where
  "more_segs gs = concat (map (\<lambda>x. CHR '':'' # show_hex (unat x)) gs)"

lemma more_segs_simps [simp]:
  "more_segs [] = []"
  "more_segs (g # gs) = CHR '':'' # show_hex (unat g) @ more_segs gs"
  by (simp_all add: more_segs_def)

lemma show_segs_Cons: "show_segs (g # gs) = show_hex (unat g) @ more_segs gs"
  by (induction gs arbitrary: g) (simp_all add: show_segs_def)

lemma no_dot_more_segs [simp]: "CHR ''.'' \<notin> set (more_segs gs)"
  by (induction gs) auto

text \<open>The rest of the input where the reading of segments stops.\<close>

definition ends_groups :: "string \<Rightarrow> bool" where
  "ends_groups s \<longleftrightarrow> s = [] \<or> (\<exists>t. s = CHR '':'' # CHR '':'' # t \<and> CHR ''.'' \<notin> set t)"

lemma ends_groups_simps [simp]:
  "ends_groups []"
  "CHR ''.'' \<notin> set t \<Longrightarrow> ends_groups (CHR '':'' # CHR '':'' # t)"
  by (simp_all add: ends_groups_def)

lemma ends_groups_number: "ends_groups s \<Longrightarrow> ends_number 16 s"
  by (auto simp: ends_groups_def)

lemma ends_more_segs: "ends_groups s \<Longrightarrow> ends_number 16 (more_segs gs @ s)"
  by (cases gs) (auto dest: ends_groups_number)

lemma ends_groups_no_dot: "ends_groups s \<Longrightarrow> CHR ''.'' \<notin> set s"
  by (auto simp: ends_groups_def)

lemma read_groups_no_dot:
  assumes "CHR ''.'' \<notin> set s"
  shows "read_groups (Suc n) i s =
     (case read_separator (CHR '':'') i (read_number 16 4 True 65535) s of
        None \<Rightarrow> ([], False, s)
      | Some (g, s') \<Rightarrow> (case read_groups n (Suc i) s' of (gs, v4, r) \<Rightarrow> (of_nat g # gs, v4, r)))"
proof -
  have "read_separator (CHR '':'') i read_ipv4 s = None"
    using assms by (cases s) (auto simp: read_separator_def intro!: read_ipv4_dot)
  then show ?thesis by simp
qed

lemma read_groups_stop:
  assumes "ends_groups s"
  shows "read_groups n i s = ([], False, s)"
proof (cases n)
  case (Suc m)
  have "read_separator (CHR '':'') i (read_number 16 4 True 65535) s = None"
    using assms by (auto simp: ends_groups_def read_separator_def read_number_nodigit)
  then show ?thesis using Suc read_groups_no_dot [OF ends_groups_no_dot [OF assms]] by simp
qed simp

lemma read_more_segs:
  "length gs \<le> n \<Longrightarrow> 0 < i \<Longrightarrow> ends_groups s \<Longrightarrow>
   read_groups n i (more_segs gs @ s) = (gs, False, s)"
proof (induction gs arbitrary: n i)
  case (Cons g gs)
  then obtain m where n: "n = Suc m" by (cases n) auto
  have "CHR ''.'' \<notin> set (more_segs (g # gs) @ s)" using Cons.prems by (auto dest: ends_groups_no_dot)
  from read_groups_no_dot [OF this] show ?case
    using Cons by (simp add: n read_separator_def ends_more_segs del: read_groups.simps)
qed (simp add: read_groups_stop)

lemma read_segs:
  assumes "length gs \<le> n" and "ends_groups s"
  shows "read_groups n 0 (show_segs gs @ s) = (gs, False, s)"
proof (cases gs)
  case Nil
  then show ?thesis using assms by (simp add: show_segs_def read_groups_stop)
next
  case (Cons g gs')
  then obtain m where n: "n = Suc m" using assms by (cases n) auto
  have "CHR ''.'' \<notin> set (show_segs gs @ s)" using assms by (auto dest: ends_groups_no_dot)
  from read_groups_no_dot [OF this] show ?thesis
    using assms Cons
    by (simp add: n show_segs_Cons read_separator_def ends_more_segs read_more_segs
        del: read_groups.simps)
qed

lemma read_ipv6_segs: "length gs = 8 \<Longrightarrow> read_ipv6 (show_segs gs) = Some (v6_of gs, [])"
  using read_segs [of gs 8 "[]"] by (simp add: read_ipv6_def)

lemma read_ipv6_gap:
  assumes "length xs + length ys < 7"
  shows "read_ipv6 (show_segs xs @ ''::'' @ show_segs ys) =
    Some (v6_of (xs @ replicate (8 - length xs - length ys) 0 @ ys), [])"
proof -
  have "read_groups 8 0 (show_segs xs @ ''::'' @ show_segs ys) =
      (xs, False, ''::'' @ show_segs ys)"
    using assms by (intro read_segs) simp_all
  moreover have "read_groups (8 - (length xs + 1)) 0 (show_segs ys) = (ys, False, [])"
    using read_segs [of ys "8 - (length xs + 1)" "[]"] assms by simp
  ultimately show ?thesis using assms by (simp add: read_ipv6_def)
qed

lemma plain_show_cases:
  assumes "length gs = 8"
  shows "plain_show gs = show_segs gs \<or>
    (\<exists>xs ys. plain_show gs = show_segs xs @ ''::'' @ show_segs ys \<and> length xs + length ys < 7 \<and>
             xs @ replicate (8 - length xs - length ys) 0 @ ys = gs)"
proof -
  obtain st len where z: "zero_span 0 (0, 0) (0, 0) gs = (st, len)" by fastforce
  let ?xs = "take st gs" and ?ys = "drop (st + len) gs"
  have run: "zero_run gs (st, len)"
    using zero_span_run [of gs "(0, 0)" "(0, 0)" 0 gs] z by simp
  then have "8 - length ?xs - length ?ys = len" and "length ?xs + length ?ys = 8 - len"
    using assms by (simp_all add: zero_run_def)
  with zero_run_rebuild [OF run]
  have "?xs @ replicate (8 - length ?xs - length ?ys) 0 @ ?ys = gs"
    and "1 < len \<Longrightarrow> length ?xs + length ?ys < 7" by simp_all
  moreover have "plain_show gs = (if 1 < len then show_segs ?xs @ ''::'' @ show_segs ?ys
      else show_segs gs)"
    using z by (simp add: plain_show_def)
  ultimately show ?thesis by metis
qed

lemma no_dot_plain_show: "length gs = 8 \<Longrightarrow> CHR ''.'' \<notin> set (plain_show gs)"
  using plain_show_cases by fastforce

lemma read_ipv6_plain: "length gs = 8 \<Longrightarrow> read_ipv6 (plain_show gs) = Some (v6_of gs, [])"
  using plain_show_cases [of gs] read_ipv6_segs read_ipv6_gap by fastforce

lemma bytes_of_u16: "ucast (ucast (drop_bit 8 x) :: u8) * 256 + ucast (ucast x :: u8) = (x::u16)"
proof -
  have "unat x < 2 ^ 16" using unsigned_less [of x, where 'a = nat] by simp
  then have "unat x div 256 < 256" by simp
  then have "unat (ucast (drop_bit 8 x) :: u8) * 256 + unat (ucast x :: u8) = unat x"
    by (simp add: unat_drop_bit_eq unsigned_ucast_eq take_bit_eq_mod drop_bit_eq_div unat_div)
  then have "of_nat (unat (ucast (drop_bit 8 x) :: u8) * 256 + unat (ucast x :: u8)) = x" by simp
  then show ?thesis by simp
qed

lemma read_ipv6_mapped:
  assumes "length gs = 8" and "take 6 gs = [0, 0, 0, 0, 0, 0xffff]"
  shows "read_ipv6 (''::ffff:'' @ show_v4 (mapped_v4 gs)) = Some (v6_of gs, [])"
proof -
  let ?v4 = "show_v4 (mapped_v4 gs)"
  have v4: "read_ipv4 ?v4 = Some (mapped_v4 gs, [])"
    by (rule read_ipv4_show) (simp add: mapped_v4_def)
  have f: "read_ipv4 (''ffff:'' @ t) = None" "read_ipv4 (''::'' @ t) = None"
    "read_number 16 4 True 65535 (''::'' @ t) = None"
    "read_number 16 4 True 65535 (''ffff:'' @ t) = Some (65535, CHR '':'' # t)" for t
    by (simp_all add: read_ipv4_def read_octets_numeral read_separator_def read_number_def
        char_digit_def)
  have "read_groups 7 0 (''ffff:'' @ ?v4) = ([0xffff, gs ! 6, gs ! 7], True, [])"
    using f v4 by (simp add: read_groups_numeral read_separator_def mapped_v4_def bytes_of_u16)
  moreover have "read_groups 8 0 (''::ffff:'' @ ?v4) = ([], False, ''::ffff:'' @ ?v4)"
    using f by (simp add: read_groups_numeral read_separator_def)
  moreover have "v6_of (replicate 5 0 @ [0xffff, gs ! 6, gs ! 7]) = v6_of gs"
  proof (rule arg_cong [of _ _ v6_of])
    have *: "gs = take 6 gs @ [gs ! 6, gs ! 7]"
      using assms(1) by (intro nth_equalityI) (auto simp: nth_append less_Suc_eq numeral_eq_Suc)
    have "replicate 5 0 @ [0xffff, y, z] = take 6 gs @ [y, z]" for y z
      unfolding assms(2) by (simp add: numeral_eq_Suc)
    then show "replicate 5 0 @ [0xffff, gs ! 6, gs ! 7] = gs" by (rule trans) (rule * [symmetric])
  qed
  ultimately show ?thesis by (simp add: read_ipv6_def)
qed

lemma parse_show_ip [simp]: "parse_ip (show_ip ip) = Some ip"
proof (cases ip)
  case (V4 a b c d)
  then show ?thesis by (simp add: parse_ip_def read_ipv4_show v4_of_def)
next
  case (V6 a b c d e f g h)
  define gs where "gs = [a, b, c, d, e, f, g, h]"
  then have gs: "length gs = 8" "v6_of gs = ip" "show_ip ip = show_v6 gs" by (simp_all add: V6 v6_of_def)
  have "read_ipv4 (''::'' @ t) = None" for t
    by (simp add: read_ipv4_def read_octets_numeral read_separator_def read_number_def char_digit_def)
  then have "read_ipv4 (show_v6 gs) = None" "read_ipv6 (show_v6 gs) = Some (v6_of gs, [])"
    using gs(1) read_ipv6_mapped read_ipv6_plain read_ipv4_dot no_dot_plain_show
    by (auto simp: show_v6_eq)
  then show ?thesis by (simp add: parse_ip_def gs)
qed

text \<open>So shown addresses are distinct. They are plain text.\<close>

lemma show_ip_inject: "show_ip x = show_ip y \<longleftrightarrow> x = y"
  by (metis option.inject parse_show_ip)

definition address_chars :: "char set" where
  "address_chars = set ''0123456789abcdef.:''"

lemma address_chars:
  "set ''0123456789abcdef.'' \<subseteq> address_chars" "set ''0123456789abcdef:'' \<subseteq> address_chars"
  "set ''::ffff:'' \<subseteq> address_chars"
  unfolding address_chars_def by simp_all

lemma set_show_ip: "set (show_ip ip) \<subseteq> address_chars"
proof (cases ip)
  case (V4 a b c d)
  then show ?thesis using subset_trans [OF set_show_v4 address_chars(1)] by simp
next
  case (V6 a b c d e f g h)
  note v4 = subset_trans [OF set_show_v4 address_chars(1)]
  note segs = subset_trans [OF set_show_segs address_chars(2)]
  have "set '':'' \<subseteq> address_chars" using address_chars(3) by simp
  then have gap: "set (show_segs xs @ ''::'' @ show_segs ys) \<subseteq> address_chars" for xs ys
    using segs by simp
  have "set (plain_show gs) \<subseteq> address_chars" if "length gs = 8" for gs
    using plain_show_cases [OF that] gap segs by metis
  moreover have "set (''::ffff:'' @ show_v4 os) \<subseteq> address_chars" for os
    unfolding set_append by (rule Un_least [OF address_chars(3) v4])
  ultimately show ?thesis using V6 by (simp only: show_v6_eq show_ip.simps) simp
qed

end
