(* ===== verification/Bucket.thy ===== *)
theory Bucket
  imports Ip
begin

text \<open>
  Buckets (\<open>crates/core/src/bucket.rs\<close>): their identities, the Redis key of an identity
  (\<open>impl Key for bucket::Id\<close> in \<open>crates/core/src/cache.rs\<close>), and the local token counter. The two atomics
  of a bucket are fields of a record; an operation that writes them returns the updated bucket.
\<close>

section \<open>Identities\<close>

datatype bucket_id = Public ip_addr | Protected string

fun show_id :: "bucket_id \<Rightarrow> string" where
  "show_id (Public ip) = ''public:'' @ show_ip ip"
| "show_id (Protected sub) = ''protected:'' @ sub"

fun to_key :: "bucket_id \<Rightarrow> string" where
  "to_key (Public ip) = ''ip:'' @ show_ip ip"
| "to_key (Protected sub) = ''sub:'' @ sub"

lemma to_key_inject [simp]: "to_key x = to_key y \<longleftrightarrow> x = y"
  by (cases x; cases y) (auto simp: show_ip_inject)

section \<open>The local counter\<close>

record bucket =
  tokens :: u64
  expires_at :: instant
  window :: i64
  exhausted :: bool

text \<open>\<open>Bucket::new\<close>; \<open>now\<close> is what \<open>Instant::now()\<close> returns in it.\<close>
definition bucket_new :: "instant \<Rightarrow> u64 \<Rightarrow> duration \<Rightarrow> i64 \<Rightarrow> bucket" where
  "bucket_new now n ttl w =
     \<lparr>tokens = n, expires_at = now + ttl, window = w, exhausted = False\<rparr>"

definition is_empty :: "bucket \<Rightarrow> bool" where
  "is_empty b \<longleftrightarrow> tokens b = 0"

definition is_expired :: "instant \<Rightarrow> bucket \<Rightarrow> bool" where
  "is_expired now b \<longleftrightarrow> expires_at b \<le> now"

definition set_exhausted :: "bucket \<Rightarrow> bucket" where
  "set_exhausted b = b\<lparr>exhausted := True\<rparr>"

definition is_exhausted :: "bucket \<Rightarrow> bool" where
  "is_exhausted b \<longleftrightarrow> exhausted b"

text \<open>\<open>AtomicU64::try_update\<close>: store \<open>f\<close> of the value if there is one; the old value either way,
  tagged with whether the store happened (\<open>Inr\<close>) or not (\<open>Inl\<close>).\<close>
definition try_update :: "u64 \<Rightarrow> (u64 \<Rightarrow> u64 option) \<Rightarrow> (u64 + u64) \<times> u64" where
  "try_update v f = (case f v of Some v' \<Rightarrow> (Inr v, v') | None \<Rightarrow> (Inl v, v))"

text \<open>\<open>Bucket::consume\<close>: the tokens left, and zero when there was none to take.\<close>
definition bucket_consume :: "bucket \<Rightarrow> u64 \<times> bucket" where
  "bucket_consume b =
     (case try_update (tokens b) (\<lambda>v. checked_sub v 1) of
        (r, v') \<Rightarrow> ((case r of Inl _ \<Rightarrow> 0 | Inr old \<Rightarrow> old - 1), b\<lparr>tokens := v'\<rparr>))"

lemma bucket_consume_eq:
  "bucket_consume b =
     (if tokens b = 0 then (0, b) else (tokens b - 1, b\<lparr>tokens := tokens b - 1\<rparr>))"
  by (simp add: bucket_consume_def try_update_def checked_sub_one)

lemma bucket_consume_frame:
  assumes "bucket_consume b = (n, b')"
  shows "expires_at b' = expires_at b" "window b' = window b" "exhausted b' = exhausted b"
  using assms by (auto simp: bucket_consume_eq split: if_splits)

lemma bucket_new_sel [simp]:
  "tokens (bucket_new now n ttl w) = n"
  "expires_at (bucket_new now n ttl w) = now + ttl"
  "window (bucket_new now n ttl w) = w"
  "exhausted (bucket_new now n ttl w) = False"
  by (simp_all add: bucket_new_def)

lemma set_exhausted_sel [simp]:
  "tokens (set_exhausted b) = tokens b"
  "expires_at (set_exhausted b) = expires_at b"
  "window (set_exhausted b) = window b"
  "exhausted (set_exhausted b)"
  by (simp_all add: set_exhausted_def)

end
