(* ===== verification/Cache.thy ===== *)
theory Cache
  imports Redis Bucket
begin

text \<open>
  The Redis scripts and their calls (\<open>crates/core/src/cache.rs\<close>) and the script runner of the cache
  crate (\<open>crates/cache/src/action.rs\<close>, \<open>lib.rs\<close>). The two Lua programs are functions of the server state,
  the server time, \<open>KEYS\<close> and \<open>ARGV\<close>; they refine one counter per bucket, \<open>abs_lease\<close> and \<open>abs_release\<close>.
\<close>

section \<open>Scripts\<close>

text \<open>\<open>that_limit_cache::Error\<close>.\<close>
datatype cache_error =
    Redis string
  | KeyDoesNotExist string
  | NoExpiration string
  | Unexpected string
  | NotFound string

text \<open>What a script returns to the client: an integer or a table of integers.\<close>
datatype reply = Num int | Table "int list"

type_synonym 'r lua = "'r \<Rightarrow> int \<Rightarrow> string list \<Rightarrow> string list \<Rightarrow> string + reply \<times> 'r"

record 'r script =
  src :: "'r lua"
  keys :: "string list"
  args :: "string list"

definition script_new :: "'r lua \<Rightarrow> 'r script" where
  "script_new s = \<lparr>src = s, keys = [], args = []\<rparr>"

definition script_key :: "bucket_id \<Rightarrow> 'r script \<Rightarrow> 'r script" where
  "script_key b_id s = s\<lparr>keys := keys s @ [to_key b_id]\<rparr>"

text \<open>\<open>arg\<close> takes anything with \<open>Display\<close>; here its text.\<close>
definition script_arg :: "string \<Rightarrow> 'r script \<Rightarrow> 'r script" where
  "script_arg a s = s\<lparr>args := args s @ [a]\<rparr>"

text \<open>
  What happens to a call: the script runs and its reply arrives, or the connection fails before the
  script runs, or after it has run.
\<close>
datatype net = Delivered | Request_Lost string | Reply_Lost string

definition script_execute ::
    "net \<Rightarrow> 'r script \<Rightarrow> 'r \<Rightarrow> int \<Rightarrow> (cache_error + reply) \<times> 'r" where
  "script_execute n s r t =
     (case n of
        Request_Lost e \<Rightarrow> (Inl (Redis e), r)
      | Delivered \<Rightarrow>
          (case src s r t (keys s) (args s) of
             Inl e \<Rightarrow> (Inl (Redis e), r)
           | Inr (v, r') \<Rightarrow> (Inr v, r'))
      | Reply_Lost e \<Rightarrow>
          (case src s r t (keys s) (args s) of
             Inl _ \<Rightarrow> (Inl (Redis e), r)
           | Inr (_, r') \<Rightarrow> (Inl (Redis e), r')))"

section \<open>The lease script\<close>

text \<open>Lua lists count from one; reading past the end gives \<open>nil\<close>.\<close>
definition lua_index :: "'a list \<Rightarrow> nat \<Rightarrow> 'a option" where
  "lua_index xs i = (if 1 \<le> i \<and> i \<le> length xs then Some (xs ! (i - 1)) else None)"

definition lua_number_arg :: "'r redis_ops \<Rightarrow> string list \<Rightarrow> nat \<Rightarrow> int option" where
  "lua_number_arg ops xs i =
     (case lua_index xs i of None \<Rightarrow> None | Some s \<Rightarrow> lua_tonumber ops s)"

text \<open>The table \<open>{n, PTTL(key), PEXPIRETIME(key)}\<close> that ends each branch.\<close>
definition lease_table :: "'r redis_ops \<Rightarrow> 'r \<Rightarrow> int \<Rightarrow> string \<Rightarrow> int \<Rightarrow> reply" where
  "lease_table ops r t key n =
     Table [n, lua_round (redis_pttl ops r t key), lua_round (redis_pexpiretime ops r t key)]"

definition lease_script :: "'r redis_ops \<Rightarrow> 'r lua" where
  "lease_script ops r t KEYS ARGV =
     (case lua_index KEYS 1 of
        None \<Rightarrow> Inl ''Lua redis lib command arguments must be strings or integers''
      | Some key \<Rightarrow>
     (let lease_size = lua_number_arg ops ARGV 1;
          quota = lua_number_arg ops ARGV 2;
          default_ttl = lua_number_arg ops ARGV 3
      in (case redis_get ops r t key of
        Inl e \<Rightarrow> Inl e
      | Inr None \<Rightarrow>
          (case (quota, lease_size) of
             (Some q, Some l) \<Rightarrow>
               (let remaining = lua_sub q l
                in (case default_ttl of
                      None \<Rightarrow> Inl ''Lua redis lib command arguments must be strings or integers''
                    | Some ttl \<Rightarrow>
                        (case redis_setex ops r t key (lua_tostring ops ttl)
                                (lua_tostring ops remaining) of
                           Inl e \<Rightarrow> Inl e
                         | Inr r' \<Rightarrow> Inr (lease_table ops r' t key l, r'))))
           | _ \<Rightarrow> Inl ''attempt to perform arithmetic on a nil value'')
      | Inr (Some current) \<Rightarrow>
          (case lua_tonumber ops current of
             None \<Rightarrow> Inl ''attempt to compare nil with number''
           | Some toks \<Rightarrow>
               if toks \<le> 0 then Inr (lease_table ops r t key 0, r)
               else
                 (case lease_size of
                    None \<Rightarrow> Inl ''bad argument #2 to min (number expected, got nil)''
                  | Some l \<Rightarrow>
                      (let to_lease = min toks l
                       in (case redis_decrby ops r t key (lua_tostring ops to_lease) of
                             Inl e \<Rightarrow> Inl e
                           | Inr r' \<Rightarrow> Inr (lease_table ops r' t key to_lease, r'))))))))"

section \<open>The release script\<close>

definition release_script :: "'r redis_ops \<Rightarrow> 'r lua" where
  "release_script ops r t KEYS ARGV =
     (case lua_index KEYS 1 of
        None \<Rightarrow> Inl ''Lua redis lib command arguments must be strings or integers''
      | Some key \<Rightarrow>
     (let toks = lua_number_arg ops ARGV 1;
          wid = lua_number_arg ops ARGV 2
      in (if Some (lua_round (redis_pexpiretime ops r t key)) \<noteq> wid
          then Inr (Num 0, r)
          else
            (case toks of
               None \<Rightarrow> Inl ''Lua redis lib command arguments must be strings or integers''
             | Some n \<Rightarrow>
                 (case redis_incrby ops r t key (lua_tostring ops n) of
                    Inl e \<Rightarrow> Inl e
                  | Inr r' \<Rightarrow> Inr (Num 1, r'))))))"

section \<open>Calls\<close>

definition lease_invocation :: "'r redis_ops \<Rightarrow> bucket_id \<Rightarrow> u64 \<Rightarrow> u64 \<Rightarrow> duration \<Rightarrow> 'r script" where
  "lease_invocation ops b_id sz quota ttl =
     script_arg (show_nat (unat (as_secs ttl)))
       (script_arg (show_nat (unat quota))
         (script_arg (show_nat (unat sz))
           (script_key b_id (script_new (lease_script ops)))))"

text \<open>\<open>FromRedisValue\<close> for \<open>(u64, u64, i64)\<close> and for \<open>u8\<close>.\<close>
definition lease_values :: "'r redis_ops \<Rightarrow> reply \<Rightarrow> string + u64 \<times> u64 \<times> i64" where
  "lease_values ops v =
     (case v of
        Table [a, b, c] \<Rightarrow>
          (case as_u64 ops a of Inl e \<Rightarrow> Inl e | Inr x \<Rightarrow>
          (case as_u64 ops b of Inl e \<Rightarrow> Inl e | Inr y \<Rightarrow>
          (case as_i64 ops c of Inl e \<Rightarrow> Inl e | Inr z \<Rightarrow> Inr (x, y, z))))
      | _ \<Rightarrow> Inl ''Response type not convertible'')"

definition release_value :: "'r redis_ops \<Rightarrow> reply \<Rightarrow> string + u8" where
  "release_value ops v = (case v of Num n \<Rightarrow> as_u8 ops n | _ \<Rightarrow> Inl ''Response type not convertible'')"

text \<open>The call of the lease script, up to the typed reply.\<close>
definition lease_request ::
    "'r redis_ops \<Rightarrow> net \<Rightarrow> 'r \<Rightarrow> int \<Rightarrow> bucket_id \<Rightarrow> u64 \<Rightarrow> u64 \<Rightarrow> duration
     \<Rightarrow> (cache_error + u64 \<times> u64 \<times> i64) \<times> 'r" where
  "lease_request ops n r t b_id sz quota ttl =
     (case script_execute n (lease_invocation ops b_id sz quota ttl) r t of
        (Inl e, r') \<Rightarrow> (Inl e, r')
      | (Inr v, r') \<Rightarrow>
          (case lease_values ops v of
             Inl e \<Rightarrow> (Inl (Redis e), r')
           | Inr x \<Rightarrow> (Inr x, r')))"

text \<open>The time left, measured from before the call.\<close>
definition time_left :: "instant \<Rightarrow> instant \<Rightarrow> u64 \<Rightarrow> duration" where
  "time_left started answered pttl =
     saturating_sub (from_millis pttl) (duration_since answered started)"

text \<open>What \<open>lease\<close> makes of the typed reply when it arrives.\<close>
definition lease_answer ::
    "instant \<Rightarrow> instant \<Rightarrow> cache_error + u64 \<times> u64 \<times> i64 \<Rightarrow> cache_error + u64 \<times> duration \<times> i64"
  where
  "lease_answer started answered res =
     (case res of
        Inl e \<Rightarrow> Inl e
      | Inr (leased, pttl, wid) \<Rightarrow> Inr (leased, time_left started answered pttl, wid))"

definition cache_lease ::
    "'r redis_ops \<Rightarrow> net \<Rightarrow> 'r \<Rightarrow> int \<Rightarrow> instant \<Rightarrow> instant \<Rightarrow> bucket_id \<Rightarrow> u64 \<Rightarrow> u64 \<Rightarrow> duration
     \<Rightarrow> (cache_error + u64 \<times> duration \<times> i64) \<times> 'r" where
  "cache_lease ops n r t started answered b_id sz quota ttl =
     (case lease_request ops n r t b_id sz quota ttl of
        (res, r') \<Rightarrow> (lease_answer started answered res, r'))"

definition cache_release ::
    "'r redis_ops \<Rightarrow> net \<Rightarrow> 'r \<Rightarrow> int \<Rightarrow> bucket_id \<Rightarrow> u64 \<Rightarrow> i64 \<Rightarrow> (cache_error + bool) \<times> 'r" where
  "cache_release ops n r t b_id toks wid =
     (case script_execute n
             (script_arg (show_int (sint wid))
               (script_arg (show_nat (unat toks))
                 (script_key b_id (script_new (release_script ops))))) r t of
        (Inl e, r') \<Rightarrow> (Inl e, r')
      | (Inr v, r') \<Rightarrow>
          (case release_value ops v of
             Inl e \<Rightarrow> (Inl (Redis e), r')
           | Inr released \<Rightarrow> (Inr (released = 1), r')))"

section \<open>One counter per bucket\<close>

text \<open>
  What the scripts promise: the current window of a bucket is the tokens that remain in it and the
  time it ends, which is also its identity; a lease takes at most \<open>sz\<close> tokens and opens a window
  with \<open>quota\<close> tokens when there is none; a release adds tokens to the window it names or to none.
\<close>

type_synonym win = "(int \<times> int) option"

definition abs_lease :: "int \<Rightarrow> int \<Rightarrow> int \<Rightarrow> int \<Rightarrow> win \<Rightarrow> (int \<times> int \<times> int) \<times> win" where
  "abs_lease t sz quota secs w =
     (case w of
        None \<Rightarrow> ((sz, 1000 * secs, t + 1000 * secs), Some (quota - sz, t + 1000 * secs))
      | Some (n, e) \<Rightarrow>
          if n \<le> 0 then ((0, e - t, e), w)
          else ((min n sz, e - t, e), Some (n - min n sz, e)))"

definition abs_release :: "int \<Rightarrow> int \<Rightarrow> win \<Rightarrow> bool \<times> win" where
  "abs_release toks wid w =
     (case w of
        None \<Rightarrow> (False, None)
      | Some (n, e) \<Rightarrow> if e = wid then (True, Some (n + toks, e)) else (False, w))"

text \<open>The arguments for which the Lua arithmetic is exact and \<open>SETEX\<close> accepts the time to live.\<close>
definition lease_args :: "int \<Rightarrow> u64 \<Rightarrow> u64 \<Rightarrow> duration \<Rightarrow> bool" where
  "lease_args t sz quota ttl \<longleftrightarrow>
     1 \<le> unat sz \<and> unat sz \<le> unat quota \<and> unat quota \<le> 2 ^ 53 \<and>
     0 < as_secs ttl \<and> 0 \<le> t \<and> t + 1000 * uint (as_secs ttl) \<le> 2 ^ 53"

text \<open>The tokens that remain in window \<open>x\<close>.\<close>
definition rem_in :: "win \<Rightarrow> int \<Rightarrow> nat" where
  "rem_in w x = (case w of Some (n, e) \<Rightarrow> if e = x then nat n else 0 | None \<Rightarrow> 0)"

lemma rem_in_simps [simp]:
  "rem_in None x = 0"
  "rem_in (Some (n, e)) x = (if e = x then nat n else 0)"
  by (simp_all add: rem_in_def)

lemma abs_release_rem:
  assumes "abs_release n x W = (released, w)"
  shows "rem_in w y \<le> rem_in W y + (if y = x then nat n else 0)"
proof -
  have "nat (k + n) \<le> nat k + nat n" for k by arith
  then show ?thesis using assms
    by (cases W) (auto simp: abs_release_def split: prod.splits if_splits)
qed

lemma abs_release_shape:
  assumes "abs_release n x W = (released, w)"
  shows "W = None \<Longrightarrow> w = None" and "W = Some (k, e) \<Longrightarrow> \<exists>k'. w = Some (k', e)"
  using assms by (auto simp: abs_release_def split: if_splits)

locale window_service =
  fixes lease :: "'r \<Rightarrow> int \<Rightarrow> bucket_id \<Rightarrow> u64 \<Rightarrow> u64 \<Rightarrow> duration
      \<Rightarrow> (cache_error + u64 \<times> u64 \<times> i64) \<times> 'r"
    and release :: "'r \<Rightarrow> int \<Rightarrow> bucket_id \<Rightarrow> u64 \<Rightarrow> i64 \<Rightarrow> (cache_error + bool) \<times> 'r"
    and win :: "'r \<Rightarrow> int \<Rightarrow> bucket_id \<Rightarrow> win"
    and ok :: "'r \<Rightarrow> int \<Rightarrow> bool"
  assumes ok_time: "ok r t \<Longrightarrow> t \<le> t' \<Longrightarrow> ok r t'"
    and win_time: "ok r t \<Longrightarrow> t \<le> t' \<Longrightarrow> win r t b = Some (n, e) \<Longrightarrow>
      win r t' b = Some (n, e) \<or> (win r t' b = None \<and> e \<le> t')"
    and win_none: "ok r t \<Longrightarrow> t \<le> t' \<Longrightarrow> win r t b = None \<Longrightarrow> win r t' b = None"
    and win_bounds: "ok r t \<Longrightarrow> win r t b = Some (n, e) \<Longrightarrow>
      0 \<le> n \<and> n \<le> 2 ^ 53 \<and> t \<le> e \<and> e \<le> 2 ^ 53"
    and lease_abs: "ok r t \<Longrightarrow> lease_args t sz quota ttl \<Longrightarrow>
      abs_lease t (uint sz) (uint quota) (uint (as_secs ttl)) (win r t b) = ((n, p, e), w) \<Longrightarrow>
      \<exists>r'. lease r t b sz quota ttl =
             (Inr (word_of_int n, word_of_int p, word_of_int e), r') \<and>
           ok r' t \<and> win r' t = (win r t)(b := w)"
    and release_abs: "ok r t \<Longrightarrow> 0 \<le> sint x \<Longrightarrow> exact (sint x) \<Longrightarrow>
      rem_in (win r t b) (sint x) + unat toks \<le> 2 ^ 53 \<Longrightarrow>
      abs_release (uint toks) (sint x) (win r t b) = (released, w) \<Longrightarrow>
      \<exists>r'. release r t b toks x = (Inr released, r') \<and> ok r' t \<and> win r' t = (win r t)(b := w)"

begin

text \<open>
  What a client counts on: a lease moves tokens from the window to the reply, and opens a window with
  the whole quota only when there is none.
\<close>

lemma lease_accounts:
  assumes ok: "ok r t" and args: "lease_args t sz quota ttl"
    and call: "lease r t b sz quota ttl = (res, r')"
  obtains n p e m where "res = Inr (word_of_int n, word_of_int p, word_of_int e)"
    "ok r' t" "win r' t = (win r t)(b \<mapsto> (m, e))" "0 \<le> n" "n \<le> 2 ^ 53" "t \<le> e" "e \<le> 2 ^ 53"
    "\<And>x. rem_in (Some (m, e)) x + (if x = e then nat n else 0) =
         rem_in (win r t b) x + (if win r t b = None \<and> x = e then unat quota else 0)"
    "win r t b = None \<Longrightarrow> t < e \<and> e = t + 1000 * uint (as_secs ttl)"
    "\<And>k e'. win r t b = Some (k, e') \<Longrightarrow> e' = e"
proof -
  let ?s = "uint sz" and ?q = "uint quota" and ?d = "uint (as_secs ttl)"
  obtain n p e w where abs: "abs_lease t ?s ?q ?d (win r t b) = ((n, p, e), w)"
    by (metis prod_cases3 surj_pair)
  from lease_abs [OF ok args abs] call
  have res: "res = Inr (word_of_int n, word_of_int p, word_of_int e)" and ok': "ok r' t"
    and win': "win r' t = (win r t)(b := w)" by auto
  have "int (unat sz) \<le> int (unat quota)" "int (unat quota) \<le> int (2 ^ 53)" "int 1 \<le> int (unat sz)"
    and secs: "0 < as_secs ttl" "0 \<le> t" "t + 1000 * ?d \<le> 2 ^ 53"
    using args by (auto simp only: lease_args_def of_nat_le_iff)
  then have q: "?s \<le> ?q" "?q \<le> 2 ^ 53" "1 \<le> ?s" by simp_all
  have d: "1 \<le> ?d" using secs(1) uint_dec(1) [of "as_secs ttl"] by force
  show ?thesis
  proof (cases "win r t b")
    case None
    then have v: "n = ?s" "e = t + 1000 * ?d" "w = Some (?q - ?s, e)"
      using abs by (auto simp: abs_lease_def)
    have "int (nat (?q - ?s) + nat ?s) = int (unat quota)" using q by simp
    then have "nat (?q - ?s) + nat ?s = unat quota" by (simp only: of_nat_eq_iff)
    then show ?thesis using that [OF res ok' _ _ _ _ _ _ _, of "?q - ?s"] None v win' q secs d by auto
  next
    case (Some we)
    then obtain k x where x: "win r t b = Some (k, x)" by (cases we) auto
    note bnd = win_bounds [OF ok x]
    let ?n = "if k \<le> 0 then 0 else min k ?s"
    have v: "n = ?n" "e = x" "w = Some (k - ?n, x)"
      using abs x by (auto simp: abs_lease_def split: if_splits)
    have "nat (k - ?n) + nat ?n = nat k" using bnd q by auto
    then show ?thesis using that [OF res ok' _ _ _ _ _ _ _, of "k - ?n"] x v win' q bnd by auto
  qed
qed

text \<open>A release puts tokens back into the window they came from, or nowhere.\<close>

lemma release_accounts:
  assumes ok: "ok r t" and x: "0 \<le> sint x" "exact (sint x)"
    and room: "rem_in (win r t b) (sint x) + unat toks \<le> 2 ^ 53"
    and call: "release r t b toks x = (res, r')"
  obtains w where "ok r' t" "win r' t = (win r t)(b := w)"
    "\<And>y. rem_in w y \<le> rem_in (win r t b) y + (if y = sint x then unat toks else 0)"
    "win r t b = None \<Longrightarrow> w = None" "\<And>k e. win r t b = Some (k, e) \<Longrightarrow> \<exists>k'. w = Some (k', e)"
proof -
  obtain released w where abs: "abs_release (uint toks) (sint x) (win r t b) = (released, w)"
    by fastforce
  from release_abs [OF ok x room abs] call have "ok r' t" "win r' t = (win r t)(b := w)" by auto
  moreover have "rem_in w y \<le> rem_in (win r t b) y + (if y = sint x then unat toks else 0)" for y
    using abs_release_rem [OF abs, of y] by (simp only: unat_eq_nat_uint)
  ultimately show ?thesis
    using abs_release_shape(1) [OF abs] abs_release_shape(2) [OF abs] by (rule that)
qed

end

subsection \<open>The scripts keep this contract\<close>

definition window_of ::
    "('r \<Rightarrow> int \<Rightarrow> string \<Rightarrow> (string \<times> int option) option) \<Rightarrow> 'r \<Rightarrow> int \<Rightarrow> bucket_id \<Rightarrow> win" where
  "window_of live r t b =
     (case live r t (to_key b) of
        Some (v, Some e) \<Rightarrow> (case read_int v of Some n \<Rightarrow> Some (n, e) | None \<Rightarrow> None)
      | _ \<Rightarrow> None)"

text \<open>The keys of the service hold counters with an expiry, nothing else.\<close>
definition counters_ok ::
    "('r \<Rightarrow> int \<Rightarrow> string \<Rightarrow> (string \<times> int option) option) \<Rightarrow> 'r \<Rightarrow> int \<Rightarrow> bool" where
  "counters_ok live r t \<longleftrightarrow>
     0 \<le> t \<and>
     (\<forall>b. case live r t (to_key b) of
            None \<Rightarrow> True
          | Some (v, None) \<Rightarrow> False
          | Some (v, Some e) \<Rightarrow> e \<le> 2 ^ 53 \<and> (\<exists>n. v = show_int n \<and> 0 \<le> n \<and> n \<le> 2 ^ 53))"

lemma counters_okE:
  assumes "counters_ok live r t"
  obtains (gone) "live r t (to_key b) = None" "window_of live r t b = None"
    | (counting) n e where "live r t (to_key b) = Some (show_int n, Some e)"
        "window_of live r t b = Some (n, e)" "0 \<le> n" "n \<le> 2 ^ 53" "e \<le> 2 ^ 53"
  using assms unfolding counters_ok_def window_of_def
  by (elim conjE allE [where x = b]) (auto split: option.splits prod.splits)

lemma exact_uint: "unat w \<le> 2 ^ 53 \<Longrightarrow> exact (uint w)"
proof -
  assume "unat w \<le> 2 ^ 53"
  then have "int (unat w) \<le> int (2 ^ 53)" by (simp only: of_nat_le_iff)
  then show ?thesis by (simp add: exact_def)
qed

lemma show_nat_unat: "show_nat (unat w) = show_int (uint w)"
  by (subst show_int_nat) simp

context redis_server
begin

lemma number_arg:
  "exact n \<Longrightarrow> lua_index xs i = Some (show_int n) \<Longrightarrow> lua_number_arg ops xs i = Some n"
  by (simp add: lua_number_arg_def tonumber_exact)

lemma lease_invocation_eq:
  "lease_invocation ops b s q ttl =
     \<lparr>src = lease_script ops, keys = [to_key b],
      args = [show_int (uint s), show_int (uint q), show_int (uint (as_secs ttl))]\<rparr>"
  by (simp add: lease_invocation_def script_arg_def script_key_def script_new_def show_nat_unat)

lemma lease_table_live:
  "live r t k = Some (v, Some e) \<Longrightarrow> exact e \<Longrightarrow> exact (e - t) \<Longrightarrow>
   lease_table ops r t k n = Table [n, e - t, e]"
  by (simp add: lease_table_def pttl_live pexpiretime_live)

lemma lease_script_open:
  assumes args: "exact s" "exact q" "exact (q - s)" and secs: "0 < d" "0 \<le> t" "t + 1000 * d \<le> 2 ^ 53"
    and none: "live r t k = None"
  shows "\<exists>r'. lease_script ops r t [k] [show_int s, show_int q, show_int d] =
      Inr (Table [s, 1000 * d, t + 1000 * d], r') \<and>
    live r' t k = Some (show_int (q - s), Some (t + 1000 * d)) \<and>
    (\<forall>k'. k' \<noteq> k \<longrightarrow> live r' t k' = live r t k')"
proof -
  have d: "exact d" and e: "exact (t + 1000 * d)" "exact (1000 * d)"
    using secs by (auto intro!: exactI)
  obtain r' where r': "redis_setex ops r t k (show_int d) (show_int (q - s)) = Inr r'"
      "live r' t k = Some (show_int (q - s), Some (t + 1000 * d))"
      "\<forall>k' t'. k' \<noteq> k \<longrightarrow> t \<le> t' \<longrightarrow> live r' t' k' = live r t' k'"
    using setex_ok [OF secs] by blast
  have "lease_table ops r' t k s = Table [s, 1000 * d, t + 1000 * d]"
    using lease_table_live [OF r'(2)] e by simp
  then show ?thesis
    using r' d args none
    by (auto simp: lease_script_def lua_index_def number_arg get_live lua_sub_def tostring_exact Let_def)
qed

lemma lease_script_live:
  assumes args: "exact s" "0 \<le> n" "n \<le> 2 ^ 53" "0 < s" "0 \<le> t" "e \<le> 2 ^ 53"
    and live: "live r t k = Some (show_int n, Some e)"
  shows "\<exists>r'. lease_script ops r t [k] [show_int s, show_int q, show_int d] =
      Inr (Table [if n \<le> 0 then 0 else min n s, e - t, e], r') \<and>
    live r' t k = Some (show_int (if n \<le> 0 then n else n - min n s), Some e) \<and>
    (\<forall>k'. k' \<noteq> k \<longrightarrow> live r' t k' = live r t k')"
proof (cases "n \<le> 0")
  case True
  have "exact e" "exact (e - t)" using args live_le [OF live] by (auto intro!: exactI)
  then show ?thesis using True args live lease_table_live [OF live]
    by (auto simp: lease_script_def lua_index_def number_arg get_live tonumber_exact Let_def exactI)
next
  case False
  let ?m = "min n s"
  have ex: "exact e" "exact (e - t)" "exact n" "exact ?m" "exact (n - ?m)"
    using args live_le [OF live] by (auto intro!: exactI)
  obtain r' where r': "redis_decrby ops r t k (show_int ?m) = Inr r'"
      "live r' t k = Some (show_int (n - ?m), Some e)"
      "\<forall>k' t'. k' \<noteq> k \<longrightarrow> t \<le> t' \<longrightarrow> live r' t' k' = live r t' k'"
    using decrby_ok [OF live] ex by blast
  then show ?thesis using False args live lease_table_live [OF r'(2)] ex
    by (auto simp: lease_script_def lua_index_def number_arg get_live tonumber_exact tostring_exact
        Let_def)
qed

lemma lease_values_ok:
  "0 \<le> n \<Longrightarrow> n \<le> 2 ^ 53 \<Longrightarrow> 0 \<le> p \<Longrightarrow> p \<le> 2 ^ 53 \<Longrightarrow> 0 \<le> e \<Longrightarrow> e \<le> 2 ^ 53 \<Longrightarrow>
   lease_values ops (Table [n, p, e]) = Inr (word_of_int n, word_of_int p, word_of_int e)"
  by (simp add: lease_values_def as_u64_ok as_i64_ok exactI)

lemma counters_upd:
  assumes "counters_ok live r t" and "live r' t (to_key b) = Some (show_int n, Some e)"
    and "0 \<le> n" "n \<le> 2 ^ 53" "e \<le> 2 ^ 53"
    and "\<forall>k'. k' \<noteq> to_key b \<longrightarrow> live r' t k' = live r t k'"
  shows "counters_ok live r' t \<and> window_of live r' t = (window_of live r t)(b \<mapsto> (n, e))"
proof
  have same: "live r' t (to_key c) = live r t (to_key c)" if "c \<noteq> b" for c
    using assms(6) that by simp
  show "counters_ok live r' t"
    unfolding counters_ok_def
  proof (intro conjI allI)
    show "0 \<le> t" using assms(1) by (simp add: counters_ok_def)
  next
    fix c
    show "case live r' t (to_key c) of None \<Rightarrow> True | Some (v, None) \<Rightarrow> False
      | Some (v, Some e) \<Rightarrow> e \<le> 2 ^ 53 \<and> (\<exists>n. v = show_int n \<and> 0 \<le> n \<and> n \<le> 2 ^ 53)"
      using assms same [of c] by (cases "c = b") (auto simp: counters_ok_def)
  qed
  show "window_of live r' t = (window_of live r t)(b \<mapsto> (n, e))"
    using assms(2) same by (auto simp: window_of_def fun_eq_iff)
qed

lemma lease_request_reply:
  assumes "lease_script ops r t [to_key b]
      [show_int (uint s), show_int (uint q), show_int (uint (as_secs ttl))] = Inr (Table [n, p, e], r')"
    and "0 \<le> n" "n \<le> 2 ^ 53" "0 \<le> p" "p \<le> 2 ^ 53" "0 \<le> e" "e \<le> 2 ^ 53"
  shows "lease_request ops Delivered r t b s q ttl =
    (Inr (word_of_int n, word_of_int p, word_of_int e), r')"
  using assms by (simp add: lease_request_def script_execute_def lease_invocation_eq lease_values_ok)

lemma lease_request_abs:
  assumes ok: "counters_ok live r t" and args: "lease_args t s q ttl"
    and abs: "abs_lease t (uint s) (uint q) (uint (as_secs ttl)) (window_of live r t b) = ((n, p, e), w)"
  shows "\<exists>r'. lease_request ops Delivered r t b s q ttl =
           (Inr (word_of_int n, word_of_int p, word_of_int e), r') \<and>
         counters_ok live r' t \<and> window_of live r' t = (window_of live r t)(b := w)"
proof -
  let ?d = "uint (as_secs ttl)"
  have us: "1 \<le> uint s" "uint s \<le> uint q" "uint q \<le> 2 ^ 53"
    and secs: "0 < ?d" "0 \<le> t" "t + 1000 * ?d \<le> 2 ^ 53"
    using args by (auto simp: lease_args_def word_le_nat_alt [symmetric] word_le_def
        word_less_def nat_le_iff unat_gt_0 simp flip: nat_uint_eq)
  have ex: "exact (uint s)" "exact (uint q)" "exact (uint q - uint s)"
    using us by (auto intro!: exactI)
  from ok show ?thesis
  proof (cases rule: counters_okE [where b = b])
    case gone
    then have "n = uint s" "p = 1000 * ?d" "e = t + 1000 * ?d" "w = Some (uint q - uint s, e)"
      using abs by (auto simp: abs_lease_def)
    moreover from lease_script_open [OF ex secs gone(1)] obtain r' where
      "lease_script ops r t [to_key b] [show_int (uint s), show_int (uint q), show_int ?d] =
        Inr (Table [uint s, 1000 * ?d, t + 1000 * ?d], r')"
      "live r' t (to_key b) = Some (show_int (uint q - uint s), Some (t + 1000 * ?d))"
      "\<forall>k'. k' \<noteq> to_key b \<longrightarrow> live r' t k' = live r t k'" by blast
    ultimately show ?thesis
      using us secs counters_upd [OF ok, of r' b "uint q - uint s" "t + 1000 * ?d"]
      by (simp add: lease_request_def script_execute_def lease_invocation_eq lease_values_ok)
  next
    case (counting m x)
    let ?n = "if m \<le> 0 then 0 else min m (uint s)" and ?m = "if m \<le> 0 then m else m - min m (uint s)"
    have res: "n = ?n" "p = x - t" "e = x" "w = Some (?m, x)"
      using abs counting(2) by (auto simp: abs_lease_def split: if_splits)
    have "0 < uint s" using us(1) by simp
    from lease_script_live [OF ex(1) counting(3,4) this secs(2) counting(5,1)] obtain r' where
      r': "lease_script ops r t [to_key b] [show_int (uint s), show_int (uint q), show_int ?d] =
        Inr (Table [?n, x - t, x], r')"
      "live r' t (to_key b) = Some (show_int ?m, Some x)"
      "\<forall>k'. k' \<noteq> to_key b \<longrightarrow> live r' t k' = live r t k'" by blast
    have "0 \<le> ?m" "?m \<le> 2 ^ 53" using counting(3,4) us by auto
    with counters_upd [OF ok r'(2) _ _ counting(5) r'(3)] have
      "counters_ok live r' t \<and> window_of live r' t = (window_of live r t)(b := w)"
      by (simp add: res)
    moreover have "lease_request ops Delivered r t b s q ttl =
        (Inr (word_of_int n, word_of_int p, word_of_int e), r')"
      unfolding res using r'(1)
      by (rule lease_request_reply) (use counting us secs(2) live_le [OF counting(1)] in auto)
    ultimately show ?thesis by blast
  qed
qed

lemma release_request_abs:
  assumes ok: "counters_ok live r t" and x: "0 \<le> sint x" "exact (sint x)"
    and room: "rem_in (window_of live r t b) (sint x) + unat toks \<le> 2 ^ 53"
    and abs: "abs_release (uint toks) (sint x) (window_of live r t b) = (released, w)"
  shows "\<exists>r'. cache_release ops Delivered r t b toks x = (Inr released, r') \<and>
         counters_ok live r' t \<and> window_of live r' t = (window_of live r t)(b := w)"
proof -
  have toks: "exact (uint toks)" using room by (intro exact_uint) simp
  have args: "lua_number_arg ops [show_nat (unat toks), show_int (sint x)] 1 = Some (uint toks)"
    "lua_number_arg ops [show_nat (unat toks), show_int (sint x)] 2 = Some (sint x)"
    using toks x by (simp_all add: number_arg lua_index_def show_nat_unat)
  note defs = cache_release_def script_execute_def script_arg_def script_key_def script_new_def
    release_script_def release_value_def
  from ok show ?thesis
  proof (cases rule: counters_okE [where b = b])
    case gone
    then have "released = False" "w = window_of live r t b"
      using abs by (auto simp: abs_release_def)
    moreover have "lua_round (redis_pexpiretime ops r t (to_key b)) = -2"
      using gone by (simp add: pexpiretime_live exact_def)
    ultimately show ?thesis
      using args x ok by (auto simp: defs lua_index_def Let_def as_u8_ok)
  next
    case (counting n e)
    have "0 \<le> e"
      using live_le [OF counting(1)] ok by (simp add: counters_ok_def)
    then have "exact e" using counting(5) by (rule exactI)
    then have exp: "lua_round (redis_pexpiretime ops r t (to_key b)) = e"
      using counting(1) by (simp add: pexpiretime_live)
    show ?thesis
    proof (cases "e = sint x")
      case False
      then have "released = False" "w = window_of live r t b"
        using abs counting(2) by (auto simp: abs_release_def)
      then show ?thesis
        using args ok exp False by (auto simp: defs lua_index_def Let_def as_u8_ok)
    next
      case True
      then have res: "released = True" "w = Some (n + uint toks, e)"
        using abs counting(2) by (auto simp: abs_release_def)
      have "nat n + unat toks \<le> 2 ^ 53"
        using room counting(2) True by simp
      then have "int (nat n + unat toks) \<le> int (2 ^ 53)" by (simp only: of_nat_le_iff)
      then have n: "0 \<le> n + uint toks" "n + uint toks \<le> 2 ^ 53"
        using counting(3) by simp_all
      have ex: "exact n" "exact (n + uint toks)"
        using n counting(3,4) by (auto intro: exactI)
      obtain r' where r': "redis_incrby ops r t (to_key b) (show_int (uint toks)) = Inr r'"
        "live r' t (to_key b) = Some (show_int (n + uint toks), Some e)"
        "\<forall>k' t'. k' \<noteq> to_key b \<longrightarrow> t \<le> t' \<longrightarrow> live r' t' k' = live r t' k'"
        using incrby_ok [OF counting(1) ex(1) toks ex(2)] by blast
      then show ?thesis
        using args exp True res n counting(5) toks counters_upd [OF ok, of r' b "n + uint toks" e]
        by (auto simp: defs lua_index_def Let_def as_u8_ok tostring_exact)
    qed
  qed
qed

end

text \<open>So the Redis interface with these scripts is a window service.\<close>

sublocale redis_server \<subseteq> svc: window_service
  "lease_request ops Delivered" "cache_release ops Delivered" "window_of live" "counters_ok live"
proof (unfold_locales, goal_cases)
  case (1 r t t')
  show ?case
    unfolding counters_ok_def
  proof (intro conjI allI)
    show "0 \<le> t'" using 1 by (simp add: counters_ok_def)
  next
    fix b
    from 1(1) show "case live r t' (to_key b) of None \<Rightarrow> True | Some (v, None) \<Rightarrow> False
      | Some (v, Some e) \<Rightarrow> e \<le> 2 ^ 53 \<and> (\<exists>n. v = show_int n \<and> 0 \<le> n \<and> n \<le> 2 ^ 53)"
      using live_none [OF _ 1(2)] live_expiring [OF _ 1(2)]
      by (cases rule: counters_okE [where b = b]) fastforce+
  qed
next
  case (2 r t t' b n e)
  from 2(1) show ?case
    using live_expiring [OF _ 2(2), of r "to_key b"] 2(3)
    by (cases rule: counters_okE [where b = b]) (auto simp: window_of_def)
next
  case (3 r t t' b)
  from 3(1) show ?case
    using live_none [OF _ 3(2), of r "to_key b"] 3(3)
    by (cases rule: counters_okE [where b = b]) (auto simp: window_of_def)
next
  case (4 r t b n e)
  from 4(1) show ?case
    using live_le 4(2) by (cases rule: counters_okE [where b = b]) auto
next
  case 5
  then show ?case by (rule lease_request_abs)
next
  case 6
  then show ?case by (rule release_request_abs)
qed

section \<open>Properties\<close>

text \<open>
  C10. The lease script and its call refine one counter per bucket: the reply is what
  \<open>abs_lease\<close> answers (tokens, time left measured from before the call, window id),
  the window of the bucket changes as \<open>abs_lease\<close> says, and no other bucket's window
  changes.
\<close>

theorem lease_refines:
  assumes "redis_server ops live" and "counters_ok live r t" and "lease_args t sz q ttl"
    and "abs_lease t (uint sz) (uint q) (uint (as_secs ttl)) (window_of live r t b) = ((n, left, e), w)"
  shows "\<exists>r'. cache_lease ops Delivered r t started answered b sz q ttl =
      (Inr (word_of_int n, time_left started answered (word_of_int left), word_of_int e), r') \<and>
    counters_ok live r' t \<and> window_of live r' t = (window_of live r t)(b := w)"
  using redis_server.lease_request_abs [OF assms] by (auto simp: cache_lease_def lease_answer_def)

lemma empty_mem: "counters_ok mem_live (\<lambda>_. None) 5" "window_of mem_live (\<lambda>_. None) 5 b = None"
  by (simp_all add: counters_ok_def mem_live_def window_of_def)

theorem lease_refines_witness:
  "\<exists>r'. cache_lease mem_ops Delivered (\<lambda>_. None) 5 100 300 (Protected ''valera'') 10 100 (from_secs 60) =
     (Inr (10, time_left 100 300 60000, 60005), r') \<and>
   window_of mem_live r' 5 (Protected ''valera'') = Some (90, 60005)"
  using lease_refines [OF mem.redis_server_axioms empty_mem(1), of 10 100 "from_secs 60" "Protected ''valera''"
      10 60000 60005 "Some (90, 60005)" 100 300]
  by (auto simp: empty_mem(2) abs_lease_def lease_args_def)

text \<open>
  C11. The release script and its call refine \<open>abs_release\<close>: tokens go back to the
  window with the id they were leased under and to no other; an ended window is not recreated and
  a newer one is not topped up.
\<close>

theorem release_refines:
  assumes "redis_server ops live" and "counters_ok live r t" and "0 \<le> sint w" and "exact (sint w)"
    and "rem_in (window_of live r t b) (sint w) + unat n \<le> 2 ^ 53"
    and "abs_release (uint n) (sint w) (window_of live r t b) = (released, v)"
  shows "\<exists>r'. cache_release ops Delivered r t b n w = (Inr released, r') \<and>
    counters_ok live r' t \<and> window_of live r' t = (window_of live r t)(b := v)"
  by (rule redis_server.release_request_abs [OF assms])

theorem release_refines_witness:
  "\<exists>r'. cache_release mem_ops Delivered (\<lambda>_. None) 5 (Protected ''valera'') 10 60005 = (Inr False, r') \<and>
   window_of mem_live r' 5 (Protected ''valera'') = None"
  using release_refines [OF mem.redis_server_axioms empty_mem(1), of 60005 "Protected ''valera''" 10 False None]
  by (auto simp: empty_mem(2) abs_release_def exact_def)

end
