(* ===== verification/Config.thy ===== *)
theory Config
  imports Bucket
begin

text \<open>
  Configuration (\<open>crates/core/src/config.rs\<close>): the policies, their validation when the file is read,
  the defaults and the test helpers. File access and the JSON reader are parameters of \<open>get\<close>: the
  reader yields the raw configuration, in which the policies are still unchecked.
\<close>

section \<open>Data\<close>

datatype criteria = Sub | Ip

record policy =
  criteria :: criteria
  quota :: u64
  lease_size :: u64
  reset_in :: duration

text \<open>\<open>UncheckedPolicy\<close>, with \<open>reset_in\<close> read as whole seconds (\<open>DurationSeconds<u64>\<close>).\<close>
record unchecked_policy =
  u_criteria :: criteria
  u_quota :: u64
  u_lease_size :: u64
  u_reset_in :: duration

record cleanup =
  enabled :: bool
  interval :: duration

record config =
  domains :: "string list"
  cleanup :: cleanup
  protected_policy :: policy
  public_policy :: policy

record unchecked_config =
  u_domains :: "string list"
  u_cleanup :: cleanup
  u_protected :: unchecked_policy
  u_public :: unchecked_policy

datatype config_error = Io string | Json string

section \<open>Operations\<close>

definition lease_size_message :: string where
  "lease_size_message = ''lease_size must be in 1..=quota''"

text \<open>\<open>TryFrom<UncheckedPolicy> for Policy\<close>.\<close>
definition policy_try_from :: "unchecked_policy \<Rightarrow> string + policy" where
  "policy_try_from p =
     (if u_lease_size p = 0 \<or> u_quota p < u_lease_size p
      then Inl lease_size_message
      else Inr \<lparr>criteria = u_criteria p, quota = u_quota p, lease_size = u_lease_size p,
                reset_in = u_reset_in p\<rparr>)"

text \<open>
  Deserialising a \<open>Config\<close> converts the two policies with \<open>try_from\<close>; a failed conversion is an error
  of the JSON reader with the same message.
\<close>
definition config_from_raw :: "unchecked_config \<Rightarrow> string + config" where
  "config_from_raw c =
     (case policy_try_from (u_protected c) of
        Inl e \<Rightarrow> Inl e
      | Inr prot \<Rightarrow>
          (case policy_try_from (u_public c) of
             Inl e \<Rightarrow> Inl e
           | Inr pub \<Rightarrow> Inr \<lparr>domains = u_domains c, cleanup = u_cleanup c,
                             protected_policy = prot, public_policy = pub\<rparr>))"

text \<open>\<open>get\<close>: \<open>read\<close> is \<open>fs::read\<close>, \<open>parse\<close> the JSON reader down to the raw configuration.\<close>
definition get_config ::
    "(string \<Rightarrow> string + 'bytes) \<Rightarrow> ('bytes \<Rightarrow> string + unchecked_config) \<Rightarrow> string
     \<Rightarrow> config_error + config" where
  "get_config read parse path =
     (case read path of
        Inl e \<Rightarrow> Inl (Io e)
      | Inr content \<Rightarrow>
          (case parse content of
             Inl e \<Rightarrow> Inl (Json e)
           | Inr raw \<Rightarrow>
               (case config_from_raw raw of Inl e \<Rightarrow> Inl (Json e) | Inr c \<Rightarrow> Inr c)))"

definition default_config :: config where
  "default_config =
     \<lparr>domains = [],
      cleanup = \<lparr>enabled = False, interval = 0\<rparr>,
      protected_policy = \<lparr>criteria = Sub, quota = 10000, lease_size = 2000,
                          reset_in = from_secs 60\<rparr>,
      public_policy = \<lparr>criteria = Ip, quota = 500, lease_size = 100, reset_in = from_secs 3600\<rparr>\<rparr>"

text \<open>The policy that governs a bucket, as selected in \<open>Store::lease\<close> and in the test accessors.\<close>
fun policy_for :: "config \<Rightarrow> bucket_id \<Rightarrow> policy" where
  "policy_for c (Public _) = public_policy c"
| "policy_for c (Protected _) = protected_policy c"

definition config_quota :: "config \<Rightarrow> bucket_id \<Rightarrow> u64" where
  "config_quota c b_id =
     (case b_id of Public _ \<Rightarrow> quota (public_policy c) | Protected _ \<Rightarrow> quota (protected_policy c))"

definition config_reset_in :: "config \<Rightarrow> bucket_id \<Rightarrow> duration" where
  "config_reset_in c b_id =
     (case b_id of
        Public _ \<Rightarrow> reset_in (public_policy c)
      | Protected _ \<Rightarrow> reset_in (protected_policy c))"

definition with_cleanup :: "config \<Rightarrow> cleanup \<Rightarrow> config" where
  "with_cleanup c cl = c\<lparr>cleanup := cl\<rparr>"

definition with_protected_reset_in :: "config \<Rightarrow> duration \<Rightarrow> config" where
  "with_protected_reset_in c d = c\<lparr>protected_policy := (protected_policy c)\<lparr>reset_in := d\<rparr>\<rparr>"

definition with_domain :: "config \<Rightarrow> string \<Rightarrow> config" where
  "with_domain c d = c\<lparr>domains := [d]\<rparr>"

definition with_protected_quota :: "config \<Rightarrow> u64 \<Rightarrow> config" where
  "with_protected_quota c q = c\<lparr>protected_policy := (protected_policy c)\<lparr>quota := q\<rparr>\<rparr>"

definition with_protected_lease_size :: "config \<Rightarrow> u64 \<Rightarrow> config" where
  "with_protected_lease_size c n =
     c\<lparr>protected_policy := (protected_policy c)\<lparr>lease_size := n\<rparr>\<rparr>"

section \<open>Validation\<close>

definition valid_policy :: "policy \<Rightarrow> bool" where
  "valid_policy p \<longleftrightarrow> 1 \<le> lease_size p \<and> lease_size p \<le> quota p"

definition valid_config :: "config \<Rightarrow> bool" where
  "valid_config c \<longleftrightarrow> valid_policy (protected_policy c) \<and> valid_policy (public_policy c)"

lemma policy_try_from_iff:
  "policy_try_from u = Inr p \<longleftrightarrow>
     valid_policy p \<and> criteria p = u_criteria u \<and> quota p = u_quota u \<and>
     lease_size p = u_lease_size u \<and> reset_in p = u_reset_in u"
  by (cases p) (auto simp: policy_try_from_def valid_policy_def one_le_word_iff not_less)

lemma policy_try_from_error:
  "policy_try_from u = Inl e \<longleftrightarrow>
     \<not> (1 \<le> u_lease_size u \<and> u_lease_size u \<le> u_quota u) \<and> e = lease_size_message"
  by (auto simp: policy_try_from_def one_le_word_iff not_less)

lemma valid_config_policy: "valid_config c \<Longrightarrow> valid_policy (policy_for c b)"
  by (cases b) (auto simp: valid_config_def)

lemma valid_default_config: "valid_config default_config"
  by (simp add: valid_config_def valid_policy_def default_config_def)

lemma config_accessors:
  "config_quota c b = quota (policy_for c b)"
  "config_reset_in c b = reset_in (policy_for c b)"
  by (cases b; simp add: config_quota_def config_reset_in_def)+

lemma get_config_valid: "get_config read parse path = Inr c \<Longrightarrow> valid_config c"
  by (auto simp: get_config_def config_from_raw_def valid_config_def policy_try_from_iff
      split: sum.splits)

text \<open>The checked policy with the fields of a raw one.\<close>

definition policy_of :: "unchecked_policy \<Rightarrow> policy" where
  "policy_of u = \<lparr>criteria = u_criteria u, quota = u_quota u, lease_size = u_lease_size u,
     reset_in = u_reset_in u\<rparr>"

definition raw_policy :: "u64 \<Rightarrow> u64 \<Rightarrow> unchecked_policy" where
  "raw_policy q l = \<lparr>u_criteria = Sub, u_quota = q, u_lease_size = l, u_reset_in = from_secs 60\<rparr>"

definition raw_config :: "u64 \<Rightarrow> unchecked_config" where
  "raw_config l = \<lparr>u_domains = [''that-limit''], u_cleanup = \<lparr>enabled = True, interval = from_secs 60\<rparr>,
     u_protected = raw_policy 10000 2000, u_public = raw_policy 500 l\<rparr>"

section \<open>Properties\<close>

text \<open>
  C34. A configuration that can be read is accepted, unchanged, exactly when each policy has a
  lease size from one to the quota, and rejected with that message otherwise.
\<close>

theorem config_accepted:
  assumes "read path = Inr content" and "parse content = Inr raw"
  shows "get_config read parse path =
    (if valid_policy (policy_of (u_protected raw)) \<and> valid_policy (policy_of (u_public raw))
     then Inr \<lparr>domains = u_domains raw, cleanup = u_cleanup raw,
                protected_policy = policy_of (u_protected raw), public_policy = policy_of (u_public raw)\<rparr>
     else Inl (Json ''lease_size must be in 1..=quota''))"
  using assms
  by (auto simp: get_config_def config_from_raw_def policy_try_from_def valid_policy_def policy_of_def
      one_le_word_iff not_less lease_size_message_def)

theorem config_accepted_witness:
  "get_config Inr (\<lambda>_. Inr (raw_config 501)) ''static/config.json'' =
   Inl (Json ''lease_size must be in 1..=quota'')"
  using config_accepted [of Inr "''static/config.json''" "''static/config.json''" "\<lambda>_. Inr (raw_config 501)"
      "raw_config 501"]
  by (simp add: valid_policy_def policy_of_def raw_config_def raw_policy_def word_le_nat_alt)

end
