(* ===== verification/Store.thy ===== *)
theory Store
  imports Cache Config
begin

text \<open>
  The store of one instance (\<open>crates/core/src/store.rs\<close>), as operations on its state: the two
  concurrent maps \<open>buckets\<close> and \<open>refills\<close> and the configuration. Each operation below is one section
  the code runs under a guard of a map, or one atomic access; \<open>ensure_refilled\<close> and \<open>consume\<close> compose
  them for a request that runs alone. Every reading of the clock is an argument.
\<close>

section \<open>State\<close>

text \<open>\<open>Error\<close> of the store.\<close>
datatype store_error = Exhausted bucket_id duration | Cache cache_error

text \<open>An \<open>Arc<Notify>\<close> is its number.\<close>
type_synonym notify = nat

record store =
  buckets :: "bucket_id \<Rightarrow> bucket option"
  refills :: "bucket_id \<Rightarrow> notify option"
  cfg :: config

definition store_new :: "config \<Rightarrow> store" where
  "store_new c = \<lparr>buckets = Map.empty, refills = Map.empty, cfg = c\<rparr>"

section \<open>Operations\<close>

definition should_handle :: "store \<Rightarrow> string \<Rightarrow> bool" where
  "should_handle s domain \<longleftrightarrow> domain \<in> set (domains (cfg s))"

definition check :: "instant \<Rightarrow> store \<Rightarrow> bucket_id \<Rightarrow> store_error + bool" where
  "check now s b_id =
     (case buckets s b_id of
        Some b \<Rightarrow>
          if is_exhausted b then Inl (Exhausted b_id (duration_since (expires_at b) now))
          else if is_empty b then Inr False
          else if is_expired now b then Inr False
          else Inr True
      | None \<Rightarrow> Inr False)"

text \<open>
  The entry of \<open>refills\<close>: the notify to wait on (\<open>Inl\<close>) when a refill is under way, else the fresh
  notify \<open>n\<close> is inserted and this request does the refill (\<open>Inr\<close>).
\<close>
definition begin_refill :: "store \<Rightarrow> bucket_id \<Rightarrow> notify \<Rightarrow> (notify + unit) \<times> store" where
  "begin_refill s b_id n =
     (case refills s b_id of
        Some m \<Rightarrow> (Inl m, s)
      | None \<Rightarrow> (Inr (), s\<lparr>refills := (refills s)(b_id \<mapsto> n)\<rparr>))"

text \<open>\<open>refills.remove\<close>: the notify to wake, if the entry is still there.\<close>
definition end_refill :: "store \<Rightarrow> bucket_id \<Rightarrow> notify option \<times> store" where
  "end_refill s b_id = (refills s b_id, s\<lparr>refills := (refills s)(b_id := None)\<rparr>)"

text \<open>The part of \<open>lease\<close> after the reply of Redis.\<close>
definition apply_lease ::
    "instant \<Rightarrow> store \<Rightarrow> bucket_id \<Rightarrow> cache_error + u64 \<times> duration \<times> i64
     \<Rightarrow> (store_error + unit) \<times> store" where
  "apply_lease now s b_id res =
     (case res of
        Inl e \<Rightarrow> (Inl (Cache e), s)
      | Inr (leased, ttl, win_id) \<Rightarrow>
          if leased = 0 then
            (case buckets s b_id of
               Some b \<Rightarrow>
                 (Inl (Exhausted b_id (duration_since (expires_at b) now)),
                  s\<lparr>buckets := (buckets s)(b_id \<mapsto> set_exhausted b)\<rparr>)
             | None \<Rightarrow> (Inl (Exhausted b_id ttl), s))
          else
            (Inr (), s\<lparr>buckets := (buckets s)(b_id \<mapsto> bucket_new now leased ttl win_id)\<rparr>))"

text \<open>The readings of the clocks during one request, in the order the code takes them.\<close>
record times =
  t_check :: instant
  t_started :: instant
  t_server :: int
  t_elapsed :: instant
  t_reply :: instant
  t_spend :: instant

definition lease ::
    "'r redis_ops \<Rightarrow> net \<Rightarrow> times \<Rightarrow> store \<Rightarrow> 'r \<Rightarrow> bucket_id \<Rightarrow> (store_error + unit) \<times> store \<times> 'r"
  where
  "lease ops n tm s r b_id =
     (let criteria = policy_for (cfg s) b_id
      in (case cache_lease ops n r (t_server tm) (t_started tm) (t_elapsed tm) b_id
                 (lease_size criteria) (quota criteria) (reset_in criteria) of
            (res, r') \<Rightarrow>
              (case apply_lease (t_reply tm) s b_id res of (out, s') \<Rightarrow> (out, s', r'))))"

text \<open>
  \<open>ensure_refilled\<close> of a request that runs alone. With a refill already under way it waits for a
  notification that only another request can send: \<open>None\<close>.
\<close>
definition ensure_refilled ::
    "'r redis_ops \<Rightarrow> net \<Rightarrow> times \<Rightarrow> notify \<Rightarrow> store \<Rightarrow> 'r \<Rightarrow> bucket_id
     \<Rightarrow> ((store_error + unit) \<times> store \<times> 'r) option" where
  "ensure_refilled ops n tm nid s r b_id =
     (case check (t_check tm) s b_id of
        Inl e \<Rightarrow> Some (Inl e, s, r)
      | Inr True \<Rightarrow> Some (Inr (), s, r)
      | Inr False \<Rightarrow>
          (case begin_refill s b_id nid of
             (Inl _, _) \<Rightarrow> None
           | (Inr _, s1) \<Rightarrow>
               (case lease ops n tm s1 r b_id of (res, s2, r2) \<Rightarrow>
                  Some (res, snd (end_refill s2 b_id), r2))))"

text \<open>What follows in \<open>consume\<close>: the bucket is seen expired (\<open>Inl\<close>), or a token is taken.\<close>
definition spend :: "instant \<Rightarrow> store \<Rightarrow> bucket_id \<Rightarrow> (unit + u64) \<times> store" where
  "spend now s b_id =
     (case buckets s b_id of
        Some b \<Rightarrow>
          if is_expired now b then (Inl (), s)
          else (case bucket_consume b of
                  (left, b') \<Rightarrow> (Inr left, s\<lparr>buckets := (buckets s)(b_id \<mapsto> b')\<rparr>))
      | None \<Rightarrow> (Inr 0, s))"

definition remove_bucket :: "store \<Rightarrow> bucket_id \<Rightarrow> store" where
  "remove_bucket s b_id = s\<lparr>buckets := (buckets s)(b_id := None)\<rparr>"

definition consume ::
    "'r redis_ops \<Rightarrow> net \<Rightarrow> times \<Rightarrow> notify \<Rightarrow> store \<Rightarrow> 'r \<Rightarrow> bucket_id
     \<Rightarrow> ((store_error + u64) \<times> store \<times> 'r) option" where
  "consume ops n tm nid s r b_id =
     (case ensure_refilled ops n tm nid s r b_id of
        None \<Rightarrow> None
      | Some (Inl e, s', r') \<Rightarrow> Some (Inl e, s', r')
      | Some (Inr _, s', r') \<Rightarrow>
          (case spend (t_spend tm) s' b_id of
             (Inl _, s'') \<Rightarrow> Some (Inr 0, remove_bucket s'' b_id, r')
           | (Inr left, s'') \<Rightarrow> Some (Inr left, s'', r')))"

text \<open>Test helper \<open>Store::add\<close>.\<close>
definition store_add :: "instant \<Rightarrow> store \<Rightarrow> bucket_id \<Rightarrow> u64 \<Rightarrow> duration \<Rightarrow> store" where
  "store_add now s b_id n ttl = s\<lparr>buckets := (buckets s)(b_id \<mapsto> bucket_new now n ttl 0)\<rparr>"

text \<open>Requests for one bucket, one after the other.\<close>

fun serve ::
    "'r redis_ops \<Rightarrow> bucket_id \<Rightarrow> (net \<times> times) list \<Rightarrow> store \<Rightarrow> 'r
     \<Rightarrow> ((store_error + u64) list \<times> store \<times> 'r) option" where
  "serve ops b_id [] s r = Some ([], s, r)"
| "serve ops b_id ((n, tm) # rest) s r =
     (case consume ops n tm 0 s r b_id of
        None \<Rightarrow> None
      | Some (out, s', r') \<Rightarrow>
          (case serve ops b_id rest s' r' of
             None \<Rightarrow> None
           | Some (outs, s'', r'') \<Rightarrow> Some (out # outs, s'', r'')))"

text \<open>How a request ends: it is admitted, refused for want of tokens, or fails.\<close>
datatype outcome = Admitted | Refused | Failed

fun outcome_of :: "store_error + u64 \<Rightarrow> outcome" where
  "outcome_of (Inr left) = Admitted"
| "outcome_of (Inl (Exhausted b wait)) = Refused"
| "outcome_of (Inl (Cache e)) = Failed"

section \<open>Sections and branches\<close>

lemmas store_defs =
  check_def begin_refill_def end_refill_def apply_lease_def spend_def remove_bucket_def
  is_exhausted_def is_empty_def is_expired_def

lemma check_true_iff:
  "check now s b = Inr True \<longleftrightarrow>
     (\<exists>x. buckets s b = Some x \<and> \<not> exhausted x \<and> tokens x \<noteq> 0 \<and> now < expires_at x)"
  by (auto simp: store_defs split: option.splits)

lemma check_false_iff:
  "check now s b = Inr False \<longleftrightarrow>
     (\<forall>x. buckets s b = Some x \<longrightarrow> \<not> exhausted x \<and> (tokens x = 0 \<or> expires_at x \<le> now))"
  by (auto simp: store_defs split: option.splits)

lemma check_exhausted:
  "buckets s b = Some x \<Longrightarrow> exhausted x \<Longrightarrow>
   check now s b = Inl (Exhausted b (expires_at x - now))"
  by (simp add: store_defs duration_since_def)

lemma apply_lease_refills [simp]: "refills (snd (apply_lease now s b res)) = refills s"
  by (auto simp: apply_lease_def split: sum.splits option.splits prod.splits)

lemma apply_lease_cfg [simp]: "cfg (snd (apply_lease now s b res)) = cfg s"
  by (auto simp: apply_lease_def split: sum.splits option.splits prod.splits)

lemma apply_lease_locked:
  "apply_lease now (s\<lparr>refills := f\<rparr>) b res =
     (case apply_lease now s b res of (out, s1) \<Rightarrow> (out, s1\<lparr>refills := f\<rparr>))"
  by (auto simp: apply_lease_def split: sum.splits option.splits prod.splits)

lemma begin_refill_free: "refills s b = None \<Longrightarrow>
   begin_refill s b n = (Inr (), s\<lparr>refills := (refills s)(b \<mapsto> n)\<rparr>)"
  by (simp add: begin_refill_def)

text \<open>A request that needs no lease.\<close>

lemma consume_hot:
  assumes "buckets s b = Some x" "\<not> exhausted x" "tokens x \<noteq> 0"
    and "t_check tm < expires_at x" "t_spend tm < expires_at x"
  shows "consume ops n tm nid s r b =
    Some (Inr (tokens x - 1),
      s\<lparr>buckets := (buckets s)(b \<mapsto> x\<lparr>tokens := tokens x - 1\<rparr>)\<rparr>, r)"
proof -
  have "check (t_check tm) s b = Inr True"
    using assms by (simp add: check_true_iff)
  then show ?thesis using assms
    by (simp add: consume_def ensure_refilled_def spend_def is_expired_def bucket_consume_eq)
qed

text \<open>A request on an exhausted bucket.\<close>

lemma consume_exhausted:
  assumes "buckets s b = Some x" "exhausted x"
  shows "consume ops n tm nid s r b = Some (Inl (Exhausted b (expires_at x - t_check tm)), s, r)"
  using assms by (simp add: consume_def ensure_refilled_def check_exhausted)

text \<open>A request that leases: the store after it, by what Redis answered.\<close>

lemma ensure_refilled_lease:
  assumes "check (t_check tm) s b = Inr False" and "refills s b = None"
    and "policy_for (cfg s) b = pol"
    and "cache_lease ops n r (t_server tm) (t_started tm) (t_elapsed tm) b
           (lease_size pol) (quota pol) (reset_in pol) = (res, r')"
  shows "ensure_refilled ops n tm nid s r b =
    (case apply_lease (t_reply tm) s b res of (out, s1) \<Rightarrow> Some (out, s1, r'))"
proof -
  have upd: "(refills s)(b := None) = refills s" using assms(2) by auto
  have ap: "apply_lease (t_reply tm) (s\<lparr>refills := (refills s)(b \<mapsto> nid)\<rparr>) b res =
      (case apply_lease (t_reply tm) s b res of
         (out, s1) \<Rightarrow> (out, s1\<lparr>refills := (refills s)(b \<mapsto> nid)\<rparr>))"
    by (rule apply_lease_locked)
  obtain out s1 where o: "apply_lease (t_reply tm) s b res = (out, s1)" by fastforce
  have r1: "refills s1 = refills s" using apply_lease_refills [of "t_reply tm" s b res] o by simp
  have "s1\<lparr>refills := (refills s)(b \<mapsto> nid)\<rparr>\<lparr>refills := ((refills s)(b \<mapsto> nid))(b := None)\<rparr> = s1"
    using r1 upd by (cases s1) simp
  then show ?thesis
    using assms ap o
    by (simp add: ensure_refilled_def begin_refill_free lease_def end_refill_def Let_def)
qed

lemma consume_lease:
  assumes "check (t_check tm) s b = Inr False" and "refills s b = None"
    and "policy_for (cfg s) b = pol"
    and "cache_lease ops n r (t_server tm) (t_started tm) (t_elapsed tm) b
           (lease_size pol) (quota pol) (reset_in pol) = (res, r')"
  shows "consume ops n tm nid s r b =
    (case apply_lease (t_reply tm) s b res of
       (Inl e, s1) \<Rightarrow> Some (Inl e, s1, r')
     | (Inr _, s1) \<Rightarrow>
         (case spend (t_spend tm) s1 b of
            (Inl _, s2) \<Rightarrow> Some (Inr 0, remove_bucket s2 b, r')
          | (Inr left, s2) \<Rightarrow> Some (Inr left, s2, r')))"
  unfolding consume_def ensure_refilled_lease [OF assms]
  by (auto split: sum.splits prod.splits)

text \<open>A failed call leaves the store as it was, the refill entry included.\<close>

lemma consume_redis_error:
  assumes "check (t_check tm) s b = Inr False" and "refills s b = None"
    and "policy_for (cfg s) b = pol"
    and "cache_lease ops n r (t_server tm) (t_started tm) (t_elapsed tm) b
           (lease_size pol) (quota pol) (reset_in pol) = (Inl e, r')"
  shows "consume ops n tm nid s r b = Some (Inl (Cache e), s, r')"
  using consume_lease [OF assms] by (simp add: apply_lease_def)

text \<open>A request that runs alone returns, and leaves \<open>refills\<close> as it was.\<close>

text \<open>A request waits only for a refill that is under way.\<close>
lemma consume_waits:
  "consume ops n tm nid s r b = None \<longleftrightarrow> check (t_check tm) s b = Inr False \<and> refills s b \<noteq> None"
  by (auto simp: consume_def ensure_refilled_def begin_refill_def
      split: sum.splits bool.splits option.splits prod.splits)

lemma consume_returns:
  assumes "refills s b = None"
  shows "\<exists>out s' r'. consume ops n tm nid s r b = Some (out, s', r') \<and> refills s' = refills s"
proof (cases "check (t_check tm) s b")
  case (Inl e)
  then show ?thesis by (simp add: consume_def ensure_refilled_def)
next
  case (Inr ready)
  have spend: "refills (snd (spend t s' b)) = refills s'" "refills (remove_bucket s' b) = refills s'"
    for t s' by (auto simp: store_defs split: option.splits prod.splits)
  show ?thesis
  proof (cases ready)
    case True
    then show ?thesis using Inr spend(1) [of "t_spend tm" s] spend(2)
      by (auto simp: consume_def ensure_refilled_def split: sum.splits prod.splits)
  next
    case False
    obtain res r' where c: "cache_lease ops n r (t_server tm) (t_started tm) (t_elapsed tm) b
        (lease_size (policy_for (cfg s) b)) (quota (policy_for (cfg s) b))
        (reset_in (policy_for (cfg s) b)) = (res, r')" by fastforce
    obtain out s1 where o: "apply_lease (t_reply tm) s b res = (out, s1)" by fastforce
    then have "refills s1 = refills s"
      using apply_lease_refills [of "t_reply tm" s b res] by simp
    then show ?thesis
      using consume_lease [OF _ assms refl c, of nid] Inr False o spend(1) [of "t_spend tm" s1] spend(2)
      by (auto split: sum.splits prod.splits)
  qed
qed

section \<open>One bucket through a whole window\<close>

text \<open>
  The readings of the clocks while the window that ends at \<open>e\<close> lasts: server times do not go back,
  no local reading reaches \<open>D\<close>, and \<open>D\<close> is a local time before the end of the window however a request
  measures it (from the moment it started its call).
\<close>

fun window_run :: "int \<Rightarrow> instant \<Rightarrow> int \<Rightarrow> times list \<Rightarrow> bool" where
  "window_run e D t [] \<longleftrightarrow> True"
| "window_run e D t (tm # tms) \<longleftrightarrow>
     t \<le> t_server tm \<and> t_server tm < e \<and> t_check tm < D \<and> t_spend tm < D \<and>
     t_started tm \<le> t_elapsed tm \<and> t_elapsed tm \<le> t_reply tm \<and>
     D \<le> t_started tm + nat (e - t_server tm) * 10 ^ 6 \<and> window_run e D (t_server tm) tms"

text \<open>
  What an instance has leased once \<open>a\<close> tokens are spent, when it leases \<open>L\<close> of \<open>Q\<close> tokens each time it
  runs out.
\<close>
definition leased_for :: "nat \<Rightarrow> nat \<Rightarrow> nat \<Rightarrow> nat" where
  "leased_for L Q a = min Q ((a + L - 1) div L * L)"

text \<open>\<open>a\<close> of the \<open>Q\<close> tokens are spent, and the window holds what is not leased yet.\<close>
definition serving ::
    "('r \<Rightarrow> int \<Rightarrow> string \<Rightarrow> (string \<times> int option) option) \<Rightarrow> bucket_id \<Rightarrow> nat \<Rightarrow> int \<Rightarrow> instant
     \<Rightarrow> config \<Rightarrow> int \<Rightarrow> nat \<Rightarrow> store \<Rightarrow> 'r \<Rightarrow> bool" where
  "serving live b Q e D c t a s r \<longleftrightarrow>
     counters_ok live r t \<and> refills s b = None \<and> cfg s = c \<and> a \<le> Q \<and>
     (let n = leased_for (unat (lease_size (policy_for c b))) Q a
      in window_of live r t b = Some (int (Q - n), e) \<and>
         (\<exists>x. buckets s b = Some x \<and> D \<le> expires_at x \<and> unat (tokens x) = n - a \<and>
              (exhausted x \<longrightarrow> a = Q)))"

text \<open>The answer to the request that takes the token after the first \<open>i\<close> of \<open>Q\<close>: what is left locally.\<close>
definition answer_at :: "policy \<Rightarrow> nat \<Rightarrow> nat \<Rightarrow> store_error + u64" where
  "answer_at pol Q i = Inr (of_nat (leased_for (unat (lease_size pol)) Q (Suc i) - Suc i))"

lemma leased_for_bounds: "1 \<le> L \<Longrightarrow> a \<le> Q \<Longrightarrow> a \<le> leased_for L Q a \<and> leased_for L Q a \<le> Q"
proof -
  assume "1 \<le> L" "a \<le> Q"
  have "a + L - 1 = (a + L - 1) div L * L + (a + L - 1) mod L" by simp
  moreover have "(a + L - 1) mod L < L" using \<open>1 \<le> L\<close> by simp
  ultimately have "a \<le> (a + L - 1) div L * L" by linarith
  then show ?thesis using \<open>a \<le> Q\<close> by (simp add: leased_for_def)
qed

lemma leased_for_hot:
  assumes "1 \<le> L" and "a < leased_for L Q a"
  shows "leased_for L Q (Suc a) = leased_for L Q a"
proof -
  define k where "k = (a + L - 1) div L"
  have "a < k * L" using assms(2) by (simp add: leased_for_def k_def)
  moreover have "k * L \<le> a + L - 1" by (simp add: k_def)
  ultimately have "(a + L) div L = k" by (intro div_nat_eqI) (simp_all add: mult.commute)
  then show ?thesis using assms(1) by (simp add: leased_for_def k_def)
qed

lemma leased_for_left: "leased_for L Q a - a \<le> L"
proof -
  have "leased_for L Q a \<le> (a + L - 1) div L * L" by (simp add: leased_for_def)
  also have "\<dots> \<le> a + L - 1" by (rule div_times_less_eq_dividend)
  finally show ?thesis by linarith
qed

lemma leased_for_fresh:
  assumes "1 \<le> L" and "leased_for L Q a \<le> a" and "a < Q"
  shows "leased_for L Q (Suc a) = min Q (a + L)"
proof -
  have m: "(a + L - 1) div L * L \<le> a" using assms(2,3) by (simp add: leased_for_def)
  have "a + L - 1 = (a + L - 1) div L * L + (a + L - 1) mod L" by simp
  moreover have "(a + L - 1) mod L < L" using assms(1) by simp
  ultimately have "(a + L - 1) div L * L = a" using m by linarith
  then obtain k where "a = k * L" by metis
  then show ?thesis using assms(1) by (simp add: leased_for_def)
qed

lemma unat_inverse: "unat (w :: u64) = n \<Longrightarrow> w = of_nat n"
  by auto

lemma unat_of_nat_le: "k \<le> unat (w :: u64) \<Longrightarrow> unat (of_nat k :: u64) = k"
proof -
  assume "k \<le> unat w"
  also have "unat w < 2 ^ LENGTH(64)" by (rule unsigned_less)
  finally show ?thesis by (simp add: unat_of_nat)
qed

lemma unat_word_of_int: "0 \<le> n \<Longrightarrow> n \<le> 2 ^ 53 \<Longrightarrow> unat (word_of_int n :: u64) = nat n"
proof -
  assume n: "0 \<le> n" "n \<le> 2 ^ 53"
  then have "nat n < 2 ^ 64" by simp
  moreover have "word_of_int n = (of_nat (nat n) :: u64)" using n(1) by simp
  ultimately show ?thesis by (simp only: unat_of_nat) simp
qed

lemma lease_args_size:
  assumes "lease_args t s q ttl"
  shows "1 \<le> uint s \<and> uint s \<le> 2 ^ 53"
proof -
  have "1 \<le> unat s" "unat s \<le> 2 ^ 53" using assms by (auto simp: lease_args_def)
  then have "int 1 \<le> int (unat s)" "int (unat s) \<le> int (2 ^ 53)" by (simp_all only: of_nat_le_iff)
  then show ?thesis by simp
qed

lemma time_left_reaches:
  assumes "D \<le> st + nat p * 10 ^ 6" "st \<le> el" "el \<le> re" "0 \<le> p" "p \<le> 2 ^ 53"
  shows "D \<le> re + time_left st el (word_of_int p)"
  using assms
  by (simp add: time_left_def from_millis_def duration_since_def saturating_sub_def unat_word_of_int)

context redis_server
begin

lemma cache_lease_abs:
  assumes "counters_ok live r t" and "lease_args t s q ttl"
    and "abs_lease t (uint s) (uint q) (uint (as_secs ttl)) (window_of live r t b) = ((n, p, e), w)"
  shows "\<exists>r'. cache_lease ops Delivered r t st an b s q ttl =
           (Inr (word_of_int n, time_left st an (word_of_int p), word_of_int e), r') \<and>
         counters_ok live r' t \<and> window_of live r' t = (window_of live r t)(b := w)"
  using lease_request_abs [OF assms] by (auto simp: cache_lease_def lease_answer_def)

lemma window_stays:
  assumes "counters_ok live r t" "window_of live r t b = Some (n, e)" "t \<le> t'" "t' < e"
  shows "window_of live r t' b = Some (n, e)"
  using svc.win_time [OF assms(1,3,2)] assms(4) by auto

text \<open>A refill that gets \<open>k\<close> tokens of the window, and takes one.\<close>

lemma refill_grants:
  assumes ok: "counters_ok live r (t_server tm)" and chk: "check (t_check tm) s b = Inr False"
    and free: "refills s b = None" and pol: "policy_for (cfg s) b = pol"
    and args: "lease_args (t_server tm) (lease_size pol) (quota pol) (reset_in pol)"
    and abs: "abs_lease (t_server tm) (uint (lease_size pol)) (uint (quota pol)) (uint (as_secs (reset_in pol)))
      (window_of live r (t_server tm) b) = ((int k, e - t_server tm, e), v)"
    and k: "1 \<le> k" "k \<le> unat (lease_size pol)" and e: "t_server tm \<le> e" "e \<le> 2 ^ 53"
    and tm: "window_run e D t (tm # tms)"
  shows "\<exists>x r'. consume ops Delivered tm 0 s r b =
      Some (Inr (of_nat k - 1), s\<lparr>buckets := (buckets s)(b \<mapsto> x)\<rparr>, r') \<and>
    counters_ok live r' (t_server tm) \<and>
    window_of live r' (t_server tm) = (window_of live r (t_server tm))(b := v) \<and>
    D \<le> expires_at x \<and> unat (tokens x) = k - 1 \<and> \<not> exhausted x \<and> unat (of_nat k - 1 :: u64) = k - 1"
proof -
  let ?t = "t_server tm" and ?w = "of_nat k :: u64"
  from cache_lease_abs [OF ok args abs, where st = "t_started tm" and an = "t_elapsed tm"]
  obtain r' where r':
    "cache_lease ops Delivered r ?t (t_started tm) (t_elapsed tm) b (lease_size pol) (quota pol)
       (reset_in pol) = (Inr (?w, time_left (t_started tm) (t_elapsed tm) (word_of_int (e - ?t)), word_of_int e), r')"
    "counters_ok live r' ?t" "window_of live r' ?t = (window_of live r ?t)(b := v)" by auto
  let ?b = "bucket_new (t_reply tm) ?w (time_left (t_started tm) (t_elapsed tm) (word_of_int (e - ?t))) (word_of_int e)"
  have um: "unat ?w = k" using k(2) by (rule unat_of_nat_le)
  then have w0: "?w \<noteq> 0" using k(1) by auto
  have D: "D \<le> expires_at ?b"
    unfolding bucket_new_sel
    by (rule time_left_reaches) (use tm e ok in \<open>auto simp: counters_ok_def\<close>)
  have "consume ops Delivered tm 0 s r b = Some (Inr (?w - 1),
      s\<lparr>buckets := (buckets s)(b \<mapsto> ?b\<lparr>tokens := ?w - 1\<rparr>)\<rparr>, r')"
    using consume_lease [OF chk free pol r'(1)] w0 D tm
    by (simp add: apply_lease_def spend_def is_expired_def bucket_consume_eq)
  then show ?thesis using r'(2,3) D unat_dec [OF w0] um by (intro exI [of _ "?b\<lparr>tokens := ?w - 1\<rparr>"]) simp
qed

text \<open>A request in the window that finds the local bucket empty.\<close>

lemma serve_refill:
  assumes inv: "serving live b Q e D c t a s r" and x: "buckets s b = Some x" "tokens x = 0"
      "\<not> exhausted x"
    and tm: "window_run e D t (tm # tms)" and pol: "policy_for c b = pol"
    and args: "lease_args (t_server tm) (lease_size pol) (quota pol) (reset_in pol)"
  shows "\<exists>out s' r'. consume ops Delivered tm 0 s r b = Some (out, s', r') \<and>
    (if a < Q then out = answer_at pol Q a \<and> serving live b Q e D c (t_server tm) (Suc a) s' r'
     else outcome_of out = Refused \<and> serving live b Q e D c (t_server tm) a s' r')"
proof -
  let ?t = "t_server tm" and ?l = "uint (lease_size pol)" and ?L = "unat (lease_size pol)"
  have L: "1 \<le> ?L" using args by (simp add: lease_args_def)
  have aQ: "a \<le> Q" using inv by (simp add: serving_def)
  have all: "leased_for ?L Q a = a"
    using leased_for_bounds [OF L aQ] inv x pol by (auto simp: serving_def Let_def)
  from inv x all pol have n: "window_of live r t b = Some (int (Q - a), e)" "D \<le> expires_at x"
    and ok: "counters_ok live r t" and free: "refills s b = None" and cfg: "cfg s = c"
    by (auto simp: serving_def)
  have ok': "counters_ok live r ?t" using svc.ok_time [OF ok] tm by simp
  have win: "window_of live r ?t b = Some (int (Q - a), e)" using window_stays [OF ok n(1)] tm by simp
  note bnd = svc.win_bounds [OF ok' win]
  have chk: "check (t_check tm) s b = Inr False" using x by (simp add: check_false_iff)
  show ?thesis
  proof (cases "a < Q")
    case False
    then have "abs_lease ?t ?l (uint (quota pol)) (uint (as_secs (reset_in pol))) (window_of live r ?t b)
        = ((0, e - ?t, e), Some (int (Q - a), e))" by (simp add: abs_lease_def win)
    from cache_lease_abs [OF ok' args this, where st = "t_started tm" and an = "t_elapsed tm"] obtain d r' where r':
      "cache_lease ops Delivered r ?t (t_started tm) (t_elapsed tm) b (lease_size pol) (quota pol)
         (reset_in pol) = (Inr (0, d, word_of_int e), r')"
      "counters_ok live r' ?t" "window_of live r' ?t = (window_of live r ?t)(b \<mapsto> (int (Q - a), e))" by auto
    have "consume ops Delivered tm 0 s r b = Some (Inl (Exhausted b (expires_at x - t_reply tm)),
        s\<lparr>buckets := (buckets s)(b \<mapsto> set_exhausted x)\<rparr>, r')"
      using consume_lease [OF chk free _ r'(1)] pol cfg x(1) by (simp add: apply_lease_def duration_since_def)
    then show ?thesis using False aQ all n x r' free cfg pol by (auto simp: serving_def)
  next
    case True
    define k where "k = min (Q - a) ?L"
    have k: "1 \<le> k" "k \<le> ?L" "a + k \<le> Q" using True L by (auto simp: k_def)
    have "min (int Q - int a) ?l = int k" using True by (simp add: k_def of_nat_min of_nat_diff)
    with True have "abs_lease ?t ?l (uint (quota pol)) (uint (as_secs (reset_in pol))) (window_of live r ?t b) =
        ((int k, e - ?t, e), Some (int (Q - a) - int k, e))"
      by (simp add: abs_lease_def win)
    from refill_grants [OF ok' chk free _ args this k(1,2) _ _ tm] obtain x' r' where
      run: "consume ops Delivered tm 0 s r b = Some (Inr (of_nat k - 1), s\<lparr>buckets := (buckets s)(b \<mapsto> x')\<rparr>, r')"
      and r': "counters_ok live r' ?t" "window_of live r' ?t b = Some (int (Q - a) - int k, e)"
        "D \<le> expires_at x'" "unat (tokens x') = k - 1" "\<not> exhausted x'" "unat (of_nat k - 1 :: u64) = k - 1"
      using cfg pol bnd by auto
    have next_all: "leased_for ?L Q (Suc a) = a + k"
      using leased_for_fresh [of ?L Q a] L all True by (simp add: k_def)
    have left: "int (Q - a) - int k = int (Q - (a + k))" using k(3) by (simp add: of_nat_diff)
    have "serving live b Q e D c ?t (Suc a) (s\<lparr>buckets := (buckets s)(b \<mapsto> x')\<rparr>) r'"
      unfolding serving_def Let_def pol next_all using r'(1-5) True free cfg left by simp
    moreover have "Inr (of_nat k - 1) = answer_at pol Q a"
      unfolding answer_at_def next_all by (simp only: unat_inverse [OF r'(6)]) simp
    ultimately show ?thesis using run True by auto
  qed
qed

text \<open>Any request in the window.\<close>

lemma serve_step:
  assumes inv: "serving live b Q e D c t a s r"
    and tm: "window_run e D t (tm # tms)" and pol: "policy_for c b = pol"
    and args: "lease_args (t_server tm) (lease_size pol) (quota pol) (reset_in pol)"
  shows "\<exists>out s' r'. consume ops Delivered tm 0 s r b = Some (out, s', r') \<and>
    (if a < Q then out = answer_at pol Q a \<and> serving live b Q e D c (t_server tm) (Suc a) s' r'
     else outcome_of out = Refused \<and> serving live b Q e D c (t_server tm) a s' r')"
proof -
  let ?t = "t_server tm" and ?N = "leased_for (unat (lease_size pol)) Q"
  have L: "1 \<le> unat (lease_size pol)" using args by (simp add: lease_args_def)
  from inv obtain x where x: "buckets s b = Some x" "D \<le> expires_at x" "unat (tokens x) = ?N a - a"
      "exhausted x \<longrightarrow> a = Q" and n: "window_of live r t b = Some (int (Q - ?N a), e)" and aQ: "a \<le> Q"
    and ok: "counters_ok live r t" and free: "refills s b = None" and cfg: "cfg s = c"
    unfolding serving_def Let_def pol by blast
  have ok': "counters_ok live r ?t" using svc.ok_time [OF ok] tm by simp
  have win: "window_of live r ?t b = Some (int (Q - ?N a), e)" using window_stays [OF ok n] tm by simp
  consider "exhausted x" | "\<not> exhausted x" "tokens x = 0" | "\<not> exhausted x" "tokens x \<noteq> 0" by blast
  then show ?thesis
  proof cases
    case 1
    then show ?thesis using x ok' win free cfg pol by (auto simp: consume_exhausted serving_def)
  next
    case 2
    then show ?thesis using serve_refill [OF inv x(1) _ _ tm pol args] by blast
  next
    case 3
    have "0 < unat (tokens x)" using 3(2) by (simp add: unat_gt_0)
    then have a: "a < ?N a" using x(3) by simp
    have less: "a < Q" using leased_for_bounds [OF L aQ] a by linarith
    have same: "?N (Suc a) = ?N a" by (rule leased_for_hot [OF L a])
    have left: "unat (tokens x - 1) = ?N a - Suc a" using unat_dec [OF 3(2)] x(3) by simp
    have "t_check tm < expires_at x" "t_spend tm < expires_at x" using tm x(2) by auto
    then have "consume ops Delivered tm 0 s r b = Some (Inr (tokens x - 1),
        s\<lparr>buckets := (buckets s)(b \<mapsto> x\<lparr>tokens := tokens x - 1\<rparr>)\<rparr>, r)"
      by (rule consume_hot [OF x(1) 3])
    then show ?thesis using x 3(1) ok' win free cfg pol less same left unat_inverse [OF left]
      by (simp add: serving_def answer_at_def)
  qed
qed

lemma leased_for_first:
  assumes "lease_args t s q ttl"
  shows "leased_for (unat s) (unat q) 1 = unat s"
proof -
  have "1 \<le> unat s" "unat s \<le> unat q" using assms by (auto simp: lease_args_def word_le_nat_alt)
  then show ?thesis using leased_for_fresh [of "unat s" "unat q" 0] by (simp add: leased_for_def)
qed

text \<open>The first request of a bucket opens the window.\<close>

lemma serve_open:
  assumes ok: "counters_ok live r (t_server tm)" and none: "window_of live r (t_server tm) b = None"
    and free: "buckets s b = None" "refills s b = None" and pol: "policy_for (cfg s) b = pol"
    and args: "lease_args (t_server tm) (lease_size pol) (quota pol) (reset_in pol)"
    and e: "e = t_server tm + 1000 * uint (as_secs (reset_in pol))"
    and tm: "window_run e D (t_server tm) (tm # tms)"
  shows "\<exists>s' r'. consume ops Delivered tm 0 s r b = Some (Inr (lease_size pol - 1), s', r') \<and>
    serving live b (unat (quota pol)) e D (cfg s) (t_server tm) 1 s' r'"
proof -
  let ?t = "t_server tm" and ?L = "unat (lease_size pol)" and ?Q = "unat (quota pol)"
  have size: "?L \<le> ?Q" "1 \<le> ?L" using args by (auto simp: lease_args_def word_le_nat_alt)
  have abs: "abs_lease ?t (uint (lease_size pol)) (uint (quota pol)) (uint (as_secs (reset_in pol)))
      (window_of live r ?t b) = ((int ?L, e - ?t, e), Some (uint (quota pol) - uint (lease_size pol), e))"
    using none e by (simp add: abs_lease_def)
  have chk: "check (t_check tm) s b = Inr False" using free by (simp add: check_false_iff)
  obtain x' r' where
    run: "consume ops Delivered tm 0 s r b = Some (Inr (of_nat ?L - 1), s\<lparr>buckets := (buckets s)(b \<mapsto> x')\<rparr>, r')"
    and r': "counters_ok live r' ?t" "window_of live r' ?t b = Some (uint (quota pol) - uint (lease_size pol), e)"
      "D \<le> expires_at x'" "unat (tokens x') = ?L - 1" "\<not> exhausted x'"
    using refill_grants [OF ok chk free(2) pol args abs size(2) order_refl _ _ tm] e args
    by (auto simp: lease_args_def)
  have "uint (quota pol) - uint (lease_size pol) = int (?Q - leased_for ?L ?Q 1)"
    unfolding leased_for_first [OF args] using size by (simp add: of_nat_diff)
  then have "serving live b ?Q e D (cfg s) ?t 1 (s\<lparr>buckets := (buckets s)(b \<mapsto> x')\<rparr>) r'"
    using r' free size pol leased_for_first [OF args] by (auto simp: serving_def)
  then show ?thesis using run by simp
qed

lemma lease_args_time:
  "lease_args t s q ttl \<Longrightarrow> 0 \<le> t' \<Longrightarrow> t' + 1000 * uint (as_secs ttl) \<le> 2 ^ 53 \<Longrightarrow> lease_args t' s q ttl"
  by (simp add: lease_args_def)

text \<open>Answers to the requests that come when \<open>a\<close> of \<open>Q\<close> tokens are spent.\<close>

lemma serve_window:
  assumes "serving live b Q e D c t a s r" and "policy_for c b = pol" and "a \<le> Q"
    and "lease_args 0 (lease_size pol) (quota pol) (reset_in pol)"
    and "e + 1000 * uint (as_secs (reset_in pol)) \<le> 2 ^ 53" and "window_run e D t tms"
  shows "\<exists>rest s' r'. serve ops b (map (Pair Delivered) tms) s r =
      Some (map (answer_at pol Q) [a..<min (a + length tms) Q] @ rest, s', r') \<and>
    map outcome_of rest = replicate (a + length tms - Q) Refused"
  using assms
proof (induction tms arbitrary: t a s r)
  case (Cons tm tms)
  let ?t = "t_server tm"
  have t: "0 \<le> ?t" "?t + 1000 * uint (as_secs (reset_in pol)) \<le> 2 ^ 53"
    using Cons.prems(1,5,6) by (auto simp: serving_def counters_ok_def)
  have args: "lease_args ?t (lease_size pol) (quota pol) (reset_in pol)"
    by (rule lease_args_time [OF Cons.prems(4) t])
  have rest: "window_run e D ?t tms" using Cons.prems(6) by simp
  from serve_step [OF Cons.prems(1,6,2) args] obtain out s1 r1 where
    o: "consume ops Delivered tm 0 s r b = Some (out, s1, r1)"
    and step: "if a < Q then out = answer_at pol Q a \<and> serving live b Q e D c ?t (Suc a) s1 r1
      else outcome_of out = Refused \<and> serving live b Q e D c ?t a s1 r1"
    by (auto simp: answer_at_def split: if_splits)
  show ?case
  proof (cases "a < Q")
    case True
    with step Cons.IH [OF _ Cons.prems(2) _ Cons.prems(4,5) rest, of "Suc a" s1 r1]
    obtain refused s' r' where "serve ops b (map (Pair Delivered) tms) s1 r1 =
        Some (map (answer_at pol Q) [Suc a..<min (Suc a + length tms) Q] @ refused, s', r')"
      "map outcome_of refused = replicate (Suc a + length tms - Q) Refused" by auto
    moreover have "[a..<min (a + length (tm # tms)) Q] = a # [Suc a..<min (Suc a + length tms) Q]"
      using True by (simp add: upt_conv_Cons)
    ultimately show ?thesis using o step True by auto
  next
    case False
    with step Cons.IH [OF _ Cons.prems(2) _ Cons.prems(4,5) rest, of a s1 r1] Cons.prems(3)
    obtain refused s' r' where "serve ops b (map (Pair Delivered) tms) s1 r1 = Some (refused, s', r')"
      "map outcome_of refused = replicate (length tms) Refused" by auto
    then show ?thesis using o step False Cons.prems(3) by auto
  qed
qed simp

text \<open>All requests of a window.\<close>

lemma serve_quota:
  assumes "counters_ok live r (t_server tm)" and "window_of live r (t_server tm) b = None"
    and "buckets s b = None" and "refills s b = None" and "policy_for (cfg s) b = pol"
    and "lease_args 0 (lease_size pol) (quota pol) (reset_in pol)"
    and "e = t_server tm + 1000 * uint (as_secs (reset_in pol))"
    and "e + 1000 * uint (as_secs (reset_in pol)) \<le> 2 ^ 53"
    and "window_run e D (t_server tm) (tm # tms)"
  shows "\<exists>refused s' r'. serve ops b (map (Pair Delivered) (tm # tms)) s r =
      Some (map (answer_at pol (unat (quota pol))) [0..<min (Suc (length tms)) (unat (quota pol))] @ refused,
        s', r') \<and>
    map outcome_of refused = replicate (Suc (length tms) - unat (quota pol)) Refused"
proof -
  have "0 \<le> t_server tm" using assms(1) by (simp add: counters_ok_def)
  moreover have "t_server tm + 1000 * uint (as_secs (reset_in pol)) \<le> 2 ^ 53"
    using assms(7,8) uint_ge_0 [of "as_secs (reset_in pol)"] by linarith
  ultimately have args: "lease_args (t_server tm) (lease_size pol) (quota pol) (reset_in pol)"
    by (rule lease_args_time [OF assms(6)])
  then obtain q where q: "unat (quota pol) = Suc q"
    by (cases "unat (quota pol)") (auto simp: lease_args_def)
  obtain s1 r1 where o: "consume ops Delivered tm 0 s r b = Some (Inr (lease_size pol - 1), s1, r1)"
    and inv: "serving live b (Suc q) e D (cfg s) (t_server tm) 1 s1 r1"
    using serve_open [OF assms(1-5) args assms(7,9)] unfolding q by blast
  have "lease_size pol \<noteq> 0" using args by (auto simp: lease_args_def)
  then have first: "Inr (lease_size pol - 1) = answer_at pol (Suc q) 0"
    using leased_for_first [OF args] q unat_inverse [OF unat_dec] by (simp add: answer_at_def)
  have "window_run e D (t_server tm) tms" using assms(9) by simp
  from serve_window [OF inv assms(5) _ assms(6,8) this] obtain refused s' r' where
    "serve ops b (map (Pair Delivered) tms) s1 r1 =
      Some (map (answer_at pol (Suc q)) [1..<min (Suc (length tms)) (Suc q)] @ refused, s', r')"
    "map outcome_of refused = replicate (Suc (length tms) - Suc q) Refused" by auto
  moreover have "[0..<min (Suc (length tms)) (Suc q)] = 0 # [1..<min (Suc (length tms)) (Suc q)]"
    by (simp add: upt_conv_Cons del: min_Suc_Suc)
  ultimately show ?thesis using o first unfolding q by (simp del: min_Suc_Suc)
qed

end

text \<open>With windows of zero seconds, \<open>SETEX\<close> refuses to open one.\<close>

lemma zero_window_request:
  assumes "redis_server ops live" and "buckets s b = None" and "refills s b = None"
    and "policy_for (cfg s) b = pol" and "valid_policy pol" and "unat (quota pol) \<le> 2 ^ 53"
    and "as_secs (reset_in pol) = 0" and "live r (t_server tm) (to_key b) = None"
  shows "\<exists>e. consume ops n tm nid s r b = Some (Inl (Cache (Redis e)), s, r)"
proof -
  let ?t = "t_server tm"
  let ?args = "[show_nat (unat (lease_size pol)), show_nat (unat (quota pol)), show_nat 0]"
  have q: "exact (uint (lease_size pol))" "exact (uint (quota pol))"
    using assms(5,6) by (auto simp: valid_policy_def word_le_nat_alt intro!: exact_uint)
  note tonumber = redis_server.tonumber_exact [OF assms(1)]
  note tostring = redis_server.tostring_exact [OF assms(1)]
  have nums: "lua_number_arg ops ?args 1 = Some (uint (lease_size pol))"
    "lua_number_arg ops ?args 2 = Some (uint (quota pol))" "lua_number_arg ops ?args 3 = Some 0"
    using q tonumber [of 0] by (simp_all add: lua_number_arg_def lua_index_def show_int_nat tonumber exact_def)
  obtain e where e: "redis_setex ops r ?t (to_key b) (show_int 0)
      (lua_tostring ops (lua_sub (uint (quota pol)) (uint (lease_size pol)))) = Inl e"
    using redis_server.setex_bad [OF assms(1), of 0] by blast
  have "redis_get ops r ?t (to_key b) = Inr None"
    using redis_server.get_live [OF assms(1)] assms(8) by simp
  then have "lease_script ops r ?t [to_key b] ?args = Inl e"
    using nums e tostring [of 0] by (simp add: lease_script_def lua_index_def Let_def exact_def)
  then obtain e' where "cache_lease ops n r ?t (t_started tm) (t_elapsed tm) b (lease_size pol) (quota pol)
      (reset_in pol) = (Inl (Redis e'), r)"
    using assms(7)
    by (cases n) (auto simp: cache_lease_def lease_request_def lease_invocation_def script_execute_def
        script_new_def script_key_def script_arg_def lease_answer_def)
  moreover have "check (t_check tm) s b = Inr False" using assms(2) by (simp add: check_def)
  ultimately show ?thesis using consume_redis_error [OF _ assms(3,4), of tm ops n r "Redis e'" r nid] by simp
qed

section \<open>Properties\<close>

text \<open>
  C2. One instance that alone serves one bucket admits exactly the quota in a window, and answers
  exactly so: of any number of requests, one after the other, the first \<open>quota\<close> are
  admitted, the i-th with what is then left of the batches leased so far
  (\<open>leased_for\<close>, batches of \<open>lease_size\<close>, the last one cut to what
  remains), and every later one is refused, for every Redis with the documented behaviour and
  every \<open>lease_size\<close> (it need not divide the quota).
\<close>

theorem quota_exact:
  assumes "redis_server ops live"
    and "counters_ok live r (t_server tm)" and "window_of live r (t_server tm) b = None"
    and "buckets s b = None" and "refills s b = None" and "policy_for (cfg s) b = pol"
    and "lease_args 0 (lease_size pol) (quota pol) (reset_in pol)"
    and "e = t_server tm + 1000 * uint (as_secs (reset_in pol))"
    and "e + 1000 * uint (as_secs (reset_in pol)) \<le> 2 ^ 53"
    and "window_run e D (t_server tm) (tm # tms)"
  shows "\<exists>refused s' r'. serve ops b (map (Pair Delivered) (tm # tms)) s r =
      Some (map (answer_at pol (unat (quota pol))) [0..<min (Suc (length tms)) (unat (quota pol))] @ refused,
        s', r') \<and>
    map outcome_of refused = replicate (Suc (length tms) - unat (quota pol)) Refused"
  by (rule redis_server.serve_quota [OF assms])

text \<open>A policy of three tokens, leased two at a time, and five requests.\<close>

definition small_config :: config where
  "small_config =
     \<lparr>domains = [''test-app''], cleanup = \<lparr>enabled = True, interval = from_secs 60\<rparr>,
      protected_policy = \<lparr>criteria = Sub, quota = 3, lease_size = 2, reset_in = from_secs 60\<rparr>,
      public_policy = \<lparr>criteria = Ip, quota = 3, lease_size = 2, reset_in = from_secs 60\<rparr>\<rparr>"

definition sample_times :: "nat \<Rightarrow> times" where
  "sample_times i =
     \<lparr>t_check = 10 * i, t_started = 10 * i, t_server = int i, t_elapsed = 10 * i + 5,
      t_reply = 10 * i + 6, t_spend = 10 * i + 7\<rparr>"

theorem quota_exact_witness:
  "\<exists>refused s' r'. serve mem_ops (Protected ''valera'')
       (map (Pair Delivered) [sample_times 1, sample_times 2, sample_times 3, sample_times 4, sample_times 5])
       (store_new small_config) (\<lambda>_. None) = Some ([Inr 1, Inr 0, Inr 0] @ refused, s', r') \<and>
     map outcome_of refused = [Refused, Refused]"
proof -
  let ?p = "protected_policy small_config"
  have pol: "quota ?p = 3" "lease_size ?p = 2" "reset_in ?p = from_secs 60"
    by (simp_all add: small_config_def)
  have start: "counters_ok mem_live (\<lambda>_. None) (t_server (sample_times 1))"
    "window_of mem_live (\<lambda>_. None) (t_server (sample_times 1)) (Protected ''valera'') = None"
    by (simp_all add: counters_ok_def mem_live_def window_of_def sample_times_def)
  have store: "buckets (store_new small_config) (Protected ''valera'') = None"
    "refills (store_new small_config) (Protected ''valera'') = None"
    "policy_for (cfg (store_new small_config)) (Protected ''valera'') = ?p"
    by (simp_all add: store_new_def)
  have args: "lease_args 0 (lease_size ?p) (quota ?p) (reset_in ?p)"
    by (simp add: lease_args_def pol)
  have e: "60001 = t_server (sample_times 1) + 1000 * uint (as_secs (reset_in ?p))"
    by (simp add: pol sample_times_def)
  have e2: "60001 + 1000 * uint (as_secs (reset_in ?p)) \<le> 2 ^ 53"
    by (simp add: pol)
  have "window_run 60001 100 (t_server (sample_times 1)) (sample_times 1 #
      [sample_times 2, sample_times 3, sample_times 4, sample_times 5])"
    by (simp add: sample_times_def)
  note concl = quota_exact [OF mem.redis_server_axioms start store args e e2 this]
  have three: "unat (quota ?p) = 3" by (simp add: pol)
  have sizes: "min (Suc (length [sample_times 2, sample_times 3, sample_times 4, sample_times 5])) 3 = 3"
    "Suc (length [sample_times 2, sample_times 3, sample_times 4, sample_times 5]) - 3 = 2"
    "replicate 2 Refused = [Refused, Refused]" by (simp_all add: numeral_2_eq_2)
  have answers: "map (answer_at ?p 3) [0..<3] = [Inr 1, Inr 0, Inr 0]"
    by (simp add: answer_at_def leased_for_def pol upt_rec)
  show ?thesis using concl unfolding three sizes answers .
qed

text \<open>
  C37. A policy with a \<open>reset_in\<close> below one second, of which the configuration
  accepts zero, serves nobody: of any number of requests for a bucket, one after the other,
  whatever becomes of their calls, every one fails with a Redis error, because the lease script's
  SETEX is refused, and the store and Redis stay as they were.
\<close>

theorem zero_window_never_leases:
  assumes "redis_server ops live" and "buckets s b = None" and "refills s b = None"
    and "policy_for (cfg s) b = pol" and "valid_policy pol" and "unat (quota pol) \<le> 2 ^ 53"
    and "as_secs (reset_in pol) = 0"
    and "\<forall>(n, tm)\<in>set reqs. live r (t_server tm) (to_key b) = None"
  shows "\<exists>outs. serve ops b reqs s r = Some (outs, s, r) \<and> map outcome_of outs = replicate (length reqs) Failed"
  using assms(8)
proof (induction reqs)
  case (Cons x reqs)
  obtain n tm where x: "x = (n, tm)" by fastforce
  then obtain e where "consume ops n tm 0 s r b = Some (Inl (Cache (Redis e)), s, r)"
    using zero_window_request [OF assms(1-7)] Cons.prems by fastforce
  then show ?case using Cons x by fastforce
qed simp

definition zero_config :: config where
  "zero_config = small_config\<lparr>protected_policy := (protected_policy small_config)\<lparr>reset_in := 0\<rparr>\<rparr>"

theorem zero_window_never_leases_witness:
  "\<exists>outs. serve mem_ops (Protected ''u'') [(Delivered, sample_times 1), (Reply_Lost ''timeout'', sample_times 2)]
     (store_new zero_config) (\<lambda>_. None) = Some (outs, store_new zero_config, \<lambda>_. None) \<and>
     map outcome_of outs = [Failed, Failed]"
proof -
  let ?reqs = "[(Delivered, sample_times 1), (Reply_Lost ''timeout'', sample_times 2)]"
  have "\<exists>outs. serve mem_ops (Protected ''u'') ?reqs (store_new zero_config) (\<lambda>_. None) =
      Some (outs, store_new zero_config, \<lambda>_. None) \<and> map outcome_of outs = replicate (length ?reqs) Failed"
    by (rule zero_window_never_leases [OF mem.redis_server_axioms, of _ _ "protected_policy zero_config"])
      (simp_all add: mem_live_def store_new_def zero_config_def small_config_def valid_policy_def as_secs_def)
  moreover have "replicate (length ?reqs) Failed = [Failed, Failed]" by (simp add: eval_nat_numeral)
  ultimately show ?thesis by (simp only:)
qed

end
