(* ===== verification/System.thy ===== *)
theory System
  imports Store
begin

text \<open>
  The deployed system: several instances, the requests they serve concurrently, their background
  cleanup tasks, and one Redis. A request is a task whose program counter walks through
  \<open>Store::consume\<close>, \<open>ensure_refilled\<close> and \<open>lease\<close>, stopping wherever another task can come in between:
  after each section under a guard of a map, at each atomic access of its own, and at each \<open>await\<close>.
  A cleanup task (\<open>Store::new\<close>) likewise. An event lets one of them take its next step, lets time
  pass, cancels a request at an \<open>await\<close>, or crashes an instance; \<open>fire\<close> is the transition function.
\<close>

section \<open>State\<close>

text \<open>
  \<open>Subscribing n\<close>: holds a clone of notify \<open>n\<close>, \<open>notified()\<close> not called yet; \<open>Waiting n k\<close>: awaits the
  \<open>Notified\<close> future made when \<open>notify_waiters\<close> had been called \<open>k\<close> times; \<open>Leasing t\<close>: call started at
  \<open>t\<close>, script not run yet; \<open>Replied t res\<close>: script run or call failed, reply not taken yet;
  \<open>Unlocking\<close>: before \<open>refills.remove\<close>; \<open>Notifying\<close>: before \<open>notify_waiters\<close>; \<open>Removing\<close>: bucket seen
  expired, before \<open>buckets.remove\<close>.
\<close>

datatype pc =
    Checking
  | Entering
  | Subscribing notify
  | Waiting notify nat
  | Calling
  | Leasing instant
  | Replied instant "cache_error + u64 \<times> u64 \<times> i64"
  | Unlocking "store_error + unit"
  | Notifying "notify option" "store_error + unit"
  | Spending
  | Removing
  | Finished "store_error + u64"
  | Cancelled

text \<open>A request for a bucket at an instance.\<close>
datatype task = Task nat bucket_id pc

type_synonym lot = "bucket_id \<times> u64 \<times> i64"

text \<open>
  The cleanup task of an instance: waiting in \<open>select!\<close>, in a tick (collecting expired keys, then
  removing them), in a shutdown (collecting what to return, then returning it), or through.
\<close>
datatype cleaner =
    Idle
  | Marking "bucket_id list"
  | Sweeping "bucket_id list"
  | Collecting "lot list"
  | Returning "lot list"
  | Complete

text \<open>
  What does not change: how many instances and request slots there are, the configuration all
  instances share, how far the monotonic clock of each instance and the clock of Redis are ahead of
  the time of the model (nanoseconds), and until when the model runs.
\<close>
record env =
  n_insts :: nat
  n_tasks :: nat
  conf :: config
  skew :: "nat \<Rightarrow> nat"
  server_skew :: nat
  horizon :: nat

text \<open>
  \<open>visited i b\<close>: the shutdown of instance \<open>i\<close> has come past bucket \<open>b\<close> in its iteration. The last two
  fields only record: tokens taken from local buckets, by bucket and window, and requests admitted.
\<close>
record 'r sys =
  clock :: nat
  redis :: 'r
  stores :: "nat \<Rightarrow> store"
  calls :: "notify \<Rightarrow> nat"
  fresh :: notify
  tasks :: "nat \<Rightarrow> task option"
  cleaners :: "nat \<Rightarrow> cleaner"
  visited :: "nat \<Rightarrow> bucket_id \<Rightarrow> bool"
  spent :: "bucket_id \<Rightarrow> int \<Rightarrow> nat"
  admitted :: "bucket_id \<Rightarrow> nat"

definition server_time :: "env \<Rightarrow> 'r sys \<Rightarrow> int" where
  "server_time E s = int ((clock s + server_skew E) div 10 ^ 6)"

definition local_time :: "env \<Rightarrow> 'r sys \<Rightarrow> nat \<Rightarrow> instant" where
  "local_time E s i = clock s + skew E i"

definition boot :: "env \<Rightarrow> nat \<Rightarrow> 'r \<Rightarrow> 'r sys" where
  "boot E t r =
     \<lparr>clock = t, redis = r, stores = (\<lambda>_. store_new (conf E)), calls = (\<lambda>_. 0), fresh = 0,
      tasks = Map.empty, cleaners = (\<lambda>_. Idle), visited = (\<lambda>_ _. False),
      spent = (\<lambda>_ _. 0), admitted = (\<lambda>_. 0)\<rparr>"

section \<open>Steps of a request\<close>

definition goto :: "nat \<Rightarrow> nat \<Rightarrow> bucket_id \<Rightarrow> pc \<Rightarrow> 'r sys \<Rightarrow> 'r sys" where
  "goto p i b k s = s\<lparr>tasks := (tasks s)(p \<mapsto> Task i b k)\<rparr>"

definition set_store :: "nat \<Rightarrow> store \<Rightarrow> 'r sys \<Rightarrow> 'r sys" where
  "set_store i st s = s\<lparr>stores := (stores s)(i := st)\<rparr>"

definition set_cleaner :: "nat \<Rightarrow> cleaner \<Rightarrow> 'r sys \<Rightarrow> 'r sys" where
  "set_cleaner i c s = s\<lparr>cleaners := (cleaners s)(i := c)\<rparr>"

definition admit :: "bucket_id \<Rightarrow> 'r sys \<Rightarrow> 'r sys" where
  "admit b s = s\<lparr>admitted := (admitted s)(b := Suc (admitted s b))\<rparr>"

text \<open>Record the token that \<open>spend\<close> takes from the bucket of the store, if it takes one.\<close>
definition note_spent :: "instant \<Rightarrow> store \<Rightarrow> bucket_id \<Rightarrow> 'r sys \<Rightarrow> 'r sys" where
  "note_spent now st b s =
     (case buckets st b of
        Some x \<Rightarrow>
          if is_expired now x \<or> is_empty x then s
          else s\<lparr>spent := (spent s)(b := (spent s b)(sint (window x) := Suc (spent s b (sint (window x)))))\<rparr>
      | None \<Rightarrow> s)"

definition step_check :: "env \<Rightarrow> nat \<Rightarrow> nat \<Rightarrow> bucket_id \<Rightarrow> 'r sys \<Rightarrow> 'r sys" where
  "step_check E p i b s =
     (case check (local_time E s i) (stores s i) b of
        Inl e \<Rightarrow> goto p i b (Finished (Inl e)) s
      | Inr True \<Rightarrow> goto p i b Spending s
      | Inr False \<Rightarrow> goto p i b Entering s)"

definition step_enter :: "nat \<Rightarrow> nat \<Rightarrow> bucket_id \<Rightarrow> 'r sys \<Rightarrow> 'r sys" where
  "step_enter p i b s =
     (case begin_refill (stores s i) b (fresh s) of
        (Inl m, _) \<Rightarrow> goto p i b (Subscribing m) s
      | (Inr _, st) \<Rightarrow> goto p i b Calling (set_store i st (s\<lparr>fresh := Suc (fresh s)\<rparr>)))"

definition step_serve :: "env \<Rightarrow> 'r redis_ops \<Rightarrow> net \<Rightarrow> nat \<Rightarrow> nat \<Rightarrow> bucket_id \<Rightarrow> instant
    \<Rightarrow> 'r sys \<Rightarrow> 'r sys" where
  "step_serve E ops n p i b started s =
     (let criteria = policy_for (cfg (stores s i)) b
      in (case lease_request ops n (redis s) (server_time E s) b (lease_size criteria)
                 (quota criteria) (reset_in criteria) of
            (res, r') \<Rightarrow> goto p i b (Replied started res) (s\<lparr>redis := r'\<rparr>)))"

text \<open>The clock is read when the reply arrives and again, \<open>gap\<close> later, when the bucket is made.\<close>
definition step_reply :: "env \<Rightarrow> nat \<Rightarrow> nat \<Rightarrow> nat \<Rightarrow> bucket_id \<Rightarrow> instant
    \<Rightarrow> cache_error + u64 \<times> u64 \<times> i64 \<Rightarrow> 'r sys \<Rightarrow> 'r sys" where
  "step_reply E gap p i b started res s =
     (let answer = lease_answer started (local_time E s i) res;
          s' = s\<lparr>clock := clock s + gap\<rparr>
      in (case apply_lease (local_time E s' i) (stores s i) b answer of
            (out, st) \<Rightarrow> goto p i b (Unlocking out) (set_store i st s')))"

definition step_unlock :: "nat \<Rightarrow> nat \<Rightarrow> bucket_id \<Rightarrow> store_error + unit \<Rightarrow> 'r sys \<Rightarrow> 'r sys" where
  "step_unlock p i b out s =
     (case end_refill (stores s i) b of
        (n, st) \<Rightarrow> goto p i b (Notifying n out) (set_store i st s))"

definition notify_waiters :: "notify option \<Rightarrow> 'r sys \<Rightarrow> 'r sys" where
  "notify_waiters n s =
     (case n of None \<Rightarrow> s | Some m \<Rightarrow> s\<lparr>calls := (calls s)(m := Suc (calls s m))\<rparr>)"

definition step_notify :: "nat \<Rightarrow> nat \<Rightarrow> bucket_id \<Rightarrow> notify option \<Rightarrow> store_error + unit
    \<Rightarrow> 'r sys \<Rightarrow> 'r sys" where
  "step_notify p i b n out s =
     goto p i b (case out of Inl e \<Rightarrow> Finished (Inl e) | Inr _ \<Rightarrow> Spending) (notify_waiters n s)"

definition step_spend :: "env \<Rightarrow> nat \<Rightarrow> nat \<Rightarrow> bucket_id \<Rightarrow> 'r sys \<Rightarrow> 'r sys" where
  "step_spend E p i b s =
     (case spend (local_time E s i) (stores s i) b of
        (Inl _, _) \<Rightarrow> goto p i b Removing s
      | (Inr left, st) \<Rightarrow>
          goto p i b (Finished (Inr left))
            (admit b (note_spent (local_time E s i) (stores s i) b (set_store i st s))))"

definition step_remove :: "nat \<Rightarrow> nat \<Rightarrow> bucket_id \<Rightarrow> 'r sys \<Rightarrow> 'r sys" where
  "step_remove p i b s =
     goto p i b (Finished (Inr 0)) (admit b (set_store i (remove_bucket (stores s i) b) s))"

section \<open>Steps of a cleanup task\<close>

text \<open>One entry of the iteration on shutdown: collected when it holds tokens and has not expired.\<close>
definition step_visit :: "env \<Rightarrow> nat \<Rightarrow> bucket_id \<Rightarrow> bucket \<Rightarrow> lot list \<Rightarrow> 'r sys \<Rightarrow> 'r sys" where
  "step_visit E i b x l s =
     set_cleaner i
       (Collecting (if is_empty x \<or> is_expired (local_time E s i) x then l
                    else l @ [(b, tokens x, window x)]))
       (s\<lparr>visited := (visited s)(i := (visited s i)(b := True))\<rparr>)"

definition step_return :: "env \<Rightarrow> 'r redis_ops \<Rightarrow> net \<Rightarrow> nat \<Rightarrow> nat \<Rightarrow> lot list \<Rightarrow> 'r sys \<Rightarrow> 'r sys" where
  "step_return E ops n i k l s =
     (case l ! k of
        (b, left, w) \<Rightarrow>
          set_cleaner i (Returning (take k l @ drop (Suc k) l))
            (s\<lparr>redis := snd (cache_release ops n (redis s) (server_time E s) b left w)\<rparr>))"

text \<open>The instance loses its memory and its requests, and starts again.\<close>
definition step_crash :: "env \<Rightarrow> nat \<Rightarrow> 'r sys \<Rightarrow> 'r sys" where
  "step_crash E i s =
     s\<lparr>stores := (stores s)(i := store_new (conf E)),
       tasks := (\<lambda>p. case tasks s p of
                       Some (Task j b k) \<Rightarrow> if j = i then None else Some (Task j b k)
                     | None \<Rightarrow> None),
       cleaners := (cleaners s)(i := Idle),
       visited := (visited s)(i := (\<lambda>_. False))\<rparr>"

section \<open>Transitions\<close>

datatype event =
    Tick nat
  | Arrive nat nat bucket_id
  | Check nat
  | Enter nat
  | Subscribe nat
  | Wake nat
  | Call nat
  | Serve nat net
  | Reply nat nat
  | Unlock nat
  | Notify nat
  | Spend nat
  | Remove nat
  | Cancel nat
  | Sweep_start nat
  | Mark nat bucket_id
  | Mark_done nat
  | Sweep nat bucket_id
  | Sweep_done nat
  | Stop nat
  | Visit nat bucket_id
  | Visit_done nat
  | Return nat nat net
  | Return_done nat
  | Crash nat

text \<open>Only an instance with cleanup enabled has a cleanup task.\<close>
definition has_cleaner :: "env \<Rightarrow> nat \<Rightarrow> bool" where
  "has_cleaner E i \<longleftrightarrow> i < n_insts E \<and> enabled (cleanup (conf E))"

fun fire :: "env \<Rightarrow> 'r redis_ops \<Rightarrow> event \<Rightarrow> 'r sys \<Rightarrow> 'r sys option" where
  "fire E ops (Tick d) s =
     (if clock s + d \<le> horizon E then Some (s\<lparr>clock := clock s + d\<rparr>) else None)"
| "fire E ops (Arrive p i b) s =
     (if p < n_tasks E \<and> i < n_insts E \<and> tasks s p = None
      then Some (goto p i b Checking s) else None)"
| "fire E ops (Check p) s =
     (case tasks s p of Some (Task i b Checking) \<Rightarrow> Some (step_check E p i b s) | _ \<Rightarrow> None)"
| "fire E ops (Enter p) s =
     (case tasks s p of Some (Task i b Entering) \<Rightarrow> Some (step_enter p i b s) | _ \<Rightarrow> None)"
| "fire E ops (Subscribe p) s =
     (case tasks s p of
        Some (Task i b (Subscribing n)) \<Rightarrow> Some (goto p i b (Waiting n (calls s n)) s)
      | _ \<Rightarrow> None)"
| "fire E ops (Wake p) s =
     (case tasks s p of
        Some (Task i b (Waiting n k)) \<Rightarrow>
          if calls s n \<noteq> k then Some (goto p i b Checking s) else None
      | _ \<Rightarrow> None)"
| "fire E ops (Call p) s =
     (case tasks s p of
        Some (Task i b Calling) \<Rightarrow> Some (goto p i b (Leasing (local_time E s i)) s)
      | _ \<Rightarrow> None)"
| "fire E ops (Serve p n) s =
     (case tasks s p of
        Some (Task i b (Leasing t)) \<Rightarrow> Some (step_serve E ops n p i b t s)
      | _ \<Rightarrow> None)"
| "fire E ops (Reply p gap) s =
     (case tasks s p of
        Some (Task i b (Replied t res)) \<Rightarrow>
          if clock s + gap \<le> horizon E then Some (step_reply E gap p i b t res s) else None
      | _ \<Rightarrow> None)"
| "fire E ops (Unlock p) s =
     (case tasks s p of
        Some (Task i b (Unlocking out)) \<Rightarrow> Some (step_unlock p i b out s)
      | _ \<Rightarrow> None)"
| "fire E ops (Notify p) s =
     (case tasks s p of
        Some (Task i b (Notifying n out)) \<Rightarrow> Some (step_notify p i b n out s)
      | _ \<Rightarrow> None)"
| "fire E ops (Spend p) s =
     (case tasks s p of Some (Task i b Spending) \<Rightarrow> Some (step_spend E p i b s) | _ \<Rightarrow> None)"
| "fire E ops (Remove p) s =
     (case tasks s p of Some (Task i b Removing) \<Rightarrow> Some (step_remove p i b s) | _ \<Rightarrow> None)"
| "fire E ops (Cancel p) s =
     (case tasks s p of
        Some (Task i b (Waiting n k)) \<Rightarrow> Some (goto p i b Cancelled s)
      | Some (Task i b (Leasing t)) \<Rightarrow> Some (goto p i b Cancelled s)
      | Some (Task i b (Replied t res)) \<Rightarrow> Some (goto p i b Cancelled s)
      | _ \<Rightarrow> None)"
| "fire E ops (Sweep_start i) s =
     (if has_cleaner E i \<and> cleaners s i = Idle then Some (set_cleaner i (Marking []) s) else None)"
| "fire E ops (Mark i b) s =
     (case (cleaners s i, buckets (stores s i) b) of
        (Marking l, Some x) \<Rightarrow>
          if is_expired (local_time E s i) x then Some (set_cleaner i (Marking (b # l)) s) else None
      | _ \<Rightarrow> None)"
| "fire E ops (Mark_done i) s =
     (case cleaners s i of Marking l \<Rightarrow> Some (set_cleaner i (Sweeping l) s) | _ \<Rightarrow> None)"
| "fire E ops (Sweep i b) s =
     (case cleaners s i of
        Sweeping l \<Rightarrow>
          if b \<in> set l
          then Some (set_cleaner i (Sweeping (remove1 b l))
                      (set_store i (remove_bucket (stores s i) b) s))
          else None
      | _ \<Rightarrow> None)"
| "fire E ops (Sweep_done i) s =
     (if cleaners s i = Sweeping [] then Some (set_cleaner i Idle s) else None)"
| "fire E ops (Stop i) s =
     (if has_cleaner E i \<and> cleaners s i = Idle then Some (set_cleaner i (Collecting []) s) else None)"
| "fire E ops (Visit i b) s =
     (case (cleaners s i, buckets (stores s i) b) of
        (Collecting l, Some x) \<Rightarrow>
          if visited s i b then None else Some (step_visit E i b x l s)
      | _ \<Rightarrow> None)"
| "fire E ops (Visit_done i) s =
     (case cleaners s i of Collecting l \<Rightarrow> Some (set_cleaner i (Returning l) s) | _ \<Rightarrow> None)"
| "fire E ops (Return i k n) s =
     (case cleaners s i of
        Returning l \<Rightarrow> if k < length l then Some (step_return E ops n i k l s) else None
      | _ \<Rightarrow> None)"
| "fire E ops (Return_done i) s =
     (if cleaners s i = Returning [] then Some (set_cleaner i Complete s) else None)"
| "fire E ops (Crash i) s = (if i < n_insts E then Some (step_crash E i s) else None)"

section \<open>When an event can happen\<close>

lemma fire_request_iff:
  "fire E ops (Tick d) s = Some t \<longleftrightarrow> clock s + d \<le> horizon E \<and> t = s\<lparr>clock := clock s + d\<rparr>"
  "fire E ops (Arrive p i b) s = Some t \<longleftrightarrow>
     p < n_tasks E \<and> i < n_insts E \<and> tasks s p = None \<and> t = goto p i b Checking s"
  "fire E ops (Check p) s = Some t \<longleftrightarrow>
     (\<exists>i b. tasks s p = Some (Task i b Checking) \<and> t = step_check E p i b s)"
  "fire E ops (Enter p) s = Some t \<longleftrightarrow>
     (\<exists>i b. tasks s p = Some (Task i b Entering) \<and> t = step_enter p i b s)"
  "fire E ops (Subscribe p) s = Some t \<longleftrightarrow>
     (\<exists>i b n. tasks s p = Some (Task i b (Subscribing n)) \<and> t = goto p i b (Waiting n (calls s n)) s)"
  "fire E ops (Wake p) s = Some t \<longleftrightarrow>
     (\<exists>i b n k. tasks s p = Some (Task i b (Waiting n k)) \<and> calls s n \<noteq> k \<and> t = goto p i b Checking s)"
  "fire E ops (Call p) s = Some t \<longleftrightarrow>
     (\<exists>i b. tasks s p = Some (Task i b Calling) \<and> t = goto p i b (Leasing (local_time E s i)) s)"
  "fire E ops (Serve p n) s = Some t \<longleftrightarrow>
     (\<exists>i b u. tasks s p = Some (Task i b (Leasing u)) \<and> t = step_serve E ops n p i b u s)"
  "fire E ops (Reply p gap) s = Some t \<longleftrightarrow>
     (\<exists>i b u res. tasks s p = Some (Task i b (Replied u res)) \<and> clock s + gap \<le> horizon E \<and>
        t = step_reply E gap p i b u res s)"
  "fire E ops (Unlock p) s = Some t \<longleftrightarrow>
     (\<exists>i b out. tasks s p = Some (Task i b (Unlocking out)) \<and> t = step_unlock p i b out s)"
  "fire E ops (Notify p) s = Some t \<longleftrightarrow>
     (\<exists>i b n out. tasks s p = Some (Task i b (Notifying n out)) \<and> t = step_notify p i b n out s)"
  "fire E ops (Spend p) s = Some t \<longleftrightarrow>
     (\<exists>i b. tasks s p = Some (Task i b Spending) \<and> t = step_spend E p i b s)"
  "fire E ops (Remove p) s = Some t \<longleftrightarrow>
     (\<exists>i b. tasks s p = Some (Task i b Removing) \<and> t = step_remove p i b s)"
  by (auto split: option.splits task.splits pc.splits)

text \<open>Where a request can be dropped: where it awaits.\<close>
fun awaiting :: "pc \<Rightarrow> bool" where
  "awaiting (Waiting n k) \<longleftrightarrow> True"
| "awaiting (Leasing u) \<longleftrightarrow> True"
| "awaiting (Replied u res) \<longleftrightarrow> True"
| "awaiting _ \<longleftrightarrow> False"

lemma fire_cancel_iff:
  "fire E ops (Cancel p) s = Some t \<longleftrightarrow>
     (\<exists>i b k. tasks s p = Some (Task i b k) \<and> awaiting k \<and> t = goto p i b Cancelled s)"
  by (auto split: option.splits task.splits pc.splits)

lemma fire_cleaner_iff:
  "fire E ops (Sweep_start i) s = Some t \<longleftrightarrow>
     has_cleaner E i \<and> cleaners s i = Idle \<and> t = set_cleaner i (Marking []) s"
  "fire E ops (Mark i b) s = Some t \<longleftrightarrow>
     (\<exists>l x. cleaners s i = Marking l \<and> buckets (stores s i) b = Some x \<and>
        is_expired (local_time E s i) x \<and> t = set_cleaner i (Marking (b # l)) s)"
  "fire E ops (Mark_done i) s = Some t \<longleftrightarrow>
     (\<exists>l. cleaners s i = Marking l \<and> t = set_cleaner i (Sweeping l) s)"
  "fire E ops (Sweep i b) s = Some t \<longleftrightarrow>
     (\<exists>l. cleaners s i = Sweeping l \<and> b \<in> set l \<and>
        t = set_cleaner i (Sweeping (remove1 b l)) (set_store i (remove_bucket (stores s i) b) s))"
  "fire E ops (Sweep_done i) s = Some t \<longleftrightarrow> cleaners s i = Sweeping [] \<and> t = set_cleaner i Idle s"
  "fire E ops (Stop i) s = Some t \<longleftrightarrow>
     has_cleaner E i \<and> cleaners s i = Idle \<and> t = set_cleaner i (Collecting []) s"
  "fire E ops (Visit i b) s = Some t \<longleftrightarrow>
     (\<exists>l x. cleaners s i = Collecting l \<and> buckets (stores s i) b = Some x \<and> \<not> visited s i b \<and>
        t = step_visit E i b x l s)"
  "fire E ops (Visit_done i) s = Some t \<longleftrightarrow>
     (\<exists>l. cleaners s i = Collecting l \<and> t = set_cleaner i (Returning l) s)"
  "fire E ops (Return i k n) s = Some t \<longleftrightarrow>
     (\<exists>l. cleaners s i = Returning l \<and> k < length l \<and> t = step_return E ops n i k l s)"
  "fire E ops (Return_done i) s = Some t \<longleftrightarrow> cleaners s i = Returning [] \<and> t = set_cleaner i Complete s"
  "fire E ops (Crash i) s = Some t \<longleftrightarrow> i < n_insts E \<and> t = step_crash E i s"
  by (auto split: option.splits cleaner.splits if_splits)

lemmas fire_iff = fire_request_iff fire_cancel_iff fire_cleaner_iff

declare fire.simps [simp del]

section \<open>Running it\<close>

text \<open>Two instances with three tokens per window, leased two at a time, and a request that takes one.\<close>

definition sample_env :: env where
  "sample_env = \<lparr>n_insts = 2, n_tasks = 4, conf = small_config, skew = (\<lambda>i. 7 * i), server_skew = 0,
     horizon = 10 ^ 15\<rparr>"

definition sample_run :: "event list" where
  "sample_run = [Arrive 0 0 (Protected ''u''), Check 0, Enter 0, Call 0, Serve 0 Delivered, Reply 0 5,
     Unlock 0, Notify 0, Spend 0]"

text \<open>What evaluates a run.\<close>

lemmas fire_eval =
  fire.simps step_check_def step_enter_def step_serve_def step_reply_def step_unlock_def
  step_notify_def step_spend_def step_remove_def step_visit_def step_return_def
  goto_def set_store_def set_cleaner_def admit_def note_spent_def notify_waiters_def
  store_defs boot_def store_new_def local_time_def server_time_def Let_def
  lease_request_def lease_invocation_def script_new_def script_key_def script_arg_def
  script_execute_def lease_script_def lease_values_def lease_table_def lua_index_def
  lua_number_arg_def lease_answer_def time_left_def saturating_sub_def duration_since_def
  lua_sub_def exact_def show_int_nat mem_defs from_millis_def bucket_consume_eq has_cleaner_def
  cache_release_def release_script_def release_value_def

end
