(* ===== verification/Expiry.thy ===== *)
theory Expiry
  imports System
begin

text \<open>
  How long a local bucket lives compared with the Redis window it was leased from. Four moments of one
  lease matter, in nanoseconds of a common clock: the call starts, the script runs, the reply is
  read (\<open>started.elapsed()\<close>), the bucket is made (\<open>Instant::now()\<close> in \<open>Bucket::new\<close>).
\<close>

section \<open>One lease\<close>

text \<open>
  The local clock is \<open>ahead\<close> of the common one, the clock of Redis \<open>off\<close>; Redis counts milliseconds, and
  \<open>e\<close> is the millisecond in which the window ends.
\<close>

definition leased_bucket ::
    "nat \<Rightarrow> nat \<Rightarrow> nat \<Rightarrow> nat \<Rightarrow> u64 \<Rightarrow> u64 \<Rightarrow> i64 \<Rightarrow> bucket" where
  "leased_bucket ahead called replied made n pttl w =
     bucket_new (made + ahead) n (time_left (called + ahead) (replied + ahead) pttl) w"

lemma leased_bucket_expiry:
  "called \<le> replied \<Longrightarrow> expires_at (leased_bucket ahead called replied made n pttl w) =
     made + ahead + (unat pttl * 10 ^ 6 - (replied - called))"
  by (simp add: leased_bucket_def time_left_def from_millis_def saturating_sub_def duration_since_def)

text \<open>The step of the system makes just such a bucket.\<close>

lemma step_reply_bucket:
  assumes "leased \<noteq> 0"
  shows "buckets (stores (step_reply E gap p i b (called + skew E i) (Inr (leased, pttl, w)) s) i) b =
    Some (leased_bucket (skew E i) called (clock s) (clock s + gap) leased pttl w)"
  using assms
  by (simp add: step_reply_def Let_def lease_answer_def apply_lease_def goto_def set_store_def
      local_time_def leased_bucket_def)

section \<open>Properties\<close>

text \<open>
  C22. How long a local bucket lives, to the nanosecond: it has expired when it is made, or it
  expires at the end of its Redis window plus how far the clock of Redis was into its millisecond
  when the script ran, plus the time from reading the reply to making the bucket, less the time
  the call took to reach Redis. So it outlives its window exactly when the first two exceed the
  third, by less than a millisecond if the bucket is made at once.
\<close>

theorem bucket_lifetime:
  assumes "called \<le> served" and "served \<le> replied" and "replied \<le> made"
    and "int (unat pttl) = e - int ((served + off) div 10 ^ 6)"
    and "over = int (made - replied) + int ((served + off) mod 10 ^ 6) - int (served - called)"
  shows "expires_at (leased_bucket ahead called replied made n pttl w) = made + ahead \<or>
    int (expires_at (leased_bucket ahead called replied made n pttl w)) - int ahead + int off = e * 10 ^ 6 + over"
proof -
  let ?x = "leased_bucket ahead called replied made n pttl w"
  let ?left = "unat pttl * 10 ^ 6"
  have x: "expires_at ?x = made + ahead + (?left - (replied - called))"
    using assms by (simp add: leased_bucket_expiry)
  show ?thesis
  proof (cases "?left \<le> replied - called")
    case True
    then show ?thesis using x by simp
  next
    case False
    define q r where qr: "q = (served + off) div 10 ^ 6" "r = (served + off) mod 10 ^ 6"
    have so: "served + off = 1000000 * q + r" by (simp add: qr)
    have left: "int ?left = 1000000 * e - 1000000 * int q"
      using assms(4) by (simp only: of_nat_mult qr) (simp add: right_diff_distrib)
    have q: "int served + int off = 1000000 * int q + int r"
      using arg_cong [OF so, of int] by (simp only: of_nat_add of_nat_mult of_nat_numeral)
    have "int (expires_at ?x) = int made + int ahead + int ?left - int (replied - called)"
      using x False by simp
    moreover have "over = int made - int replied + int r - (int served - int called)"
      "int (replied - called) = int replied - int called"
      using assms(1-3,5) by (simp_all add: qr)
    ultimately show ?thesis using left q by simp
  qed
qed

text \<open>
  A window of a minute, opened at the last nanosecond of a millisecond, with a bucket made at once: the bucket
  expires a nanosecond less than a millisecond after the window.
\<close>

theorem bucket_lifetime_witness:
  "int (expires_at (leased_bucket 7 999999 999999 999999 5 60000 60000)) - 7 = 60000 * 10 ^ 6 + 999999"
  using bucket_lifetime [of 999999 999999 999999 999999 60000 60000 0 999999 7 5 60000]
  by (simp add: leased_bucket_expiry)

text \<open>
  That happens in the system: the window has ended, Redis has no key, and a request still passes the check and is
  about to spend a token of the ended window.
\<close>

definition outlive_run :: "event list" where
  "outlive_run = [Arrive 0 0 (Protected ''u''), Check 0, Enter 0, Call 0, Serve 0 Delivered, Reply 0 0,
     Unlock 0, Notify 0, Tick 59999000001, Arrive 1 0 (Protected ''u''), Check 1]"

lemma bucket_outlives_window:
  "\<exists>s. run (fire sample_env mem_ops) outlive_run (boot sample_env 999999 (\<lambda>_. None)) = Some s \<and>
     server_time sample_env s = 60000 \<and>
     window_of mem_live (redis s) (server_time sample_env s) (Protected ''u'') = None \<and>
     tasks s 1 = Some (Task 0 (Protected ''u'') Spending) \<and>
     (\<exists>x. buckets (stores s 0) (Protected ''u'') = Some x \<and> window x = 60000 \<and>
        \<not> is_expired (local_time sample_env s 0) x)"
  by (simp add: outlive_run_def fire_eval sample_env_def small_config_def window_of_def)

end
