(* ===== verification/Safety.thy ===== *)
theory Safety
  imports System
begin

text \<open>
  Where the tokens of a window are, and why no more of them are spent than the window had: each token is
  still in Redis, in a local bucket, in a reply on its way to one, on its way back to Redis, spent, or
  lost. The invariant holds in every run in which an instance that shuts down does not spend
  from a bucket whose tokens it has collected to give back; the program does not rule that out.
\<close>

section \<open>Counting tokens\<close>

definition in_bucket :: "bucket option \<Rightarrow> int \<Rightarrow> nat" where
  "in_bucket o' w = (case o' of Some x \<Rightarrow> if sint (window x) = w then unat (tokens x) else 0 | None \<Rightarrow> 0)"

text \<open>
  Tokens in a local bucket, unless the shutdown of its instance has come past it. The shutdown leaves
  such tokens in the bucket, but gives as many back to Redis: to count them here as well would be
  to count them twice. They are counted with the lots on their way back, and then in Redis.
\<close>
definition held :: "(bucket_id \<Rightarrow> bool) \<Rightarrow> store \<Rightarrow> bucket_id \<Rightarrow> int \<Rightarrow> nat" where
  "held vis st b w = (if vis b then 0 else in_bucket (buckets st b) w)"

fun in_reply :: "pc \<Rightarrow> int \<Rightarrow> nat" where
  "in_reply (Replied t (Inr (n, p, x))) w = (if sint x = w then unat n else 0)"
| "in_reply _ w = 0"

definition in_task :: "task option \<Rightarrow> bucket_id \<Rightarrow> int \<Rightarrow> nat" where
  "in_task o' b w = (case o' of Some (Task i c k) \<Rightarrow> if c = b then in_reply k w else 0 | None \<Rightarrow> 0)"

fun lots :: "cleaner \<Rightarrow> lot list" where
  "lots (Collecting l) = l"
| "lots (Returning l) = l"
| "lots _ = []"

definition in_lots :: "lot list \<Rightarrow> bucket_id \<Rightarrow> int \<Rightarrow> nat" where
  "in_lots l b w = sum_list (map (\<lambda>(c, n, x). if c = b \<and> sint x = w then unat n else 0) l)"

definition used :: "env \<Rightarrow> 'r sys \<Rightarrow> bucket_id \<Rightarrow> int \<Rightarrow> nat" where
  "used E s b w =
     (\<Sum>i<n_insts E. held (visited s i) (stores s i) b w) +
     (\<Sum>p<n_tasks E. in_task (tasks s p) b w) +
     (\<Sum>i<n_insts E. in_lots (lots (cleaners s i)) b w) + spent s b w"

text \<open>The sum over the instances, as a sum over those whose shutdown has not come past the bucket.\<close>
lemma held_sum:
  "(\<Sum>i<n. held (visited s i) (stores s i) b w) =
   (\<Sum>i \<in> {i. i < n \<and> \<not> visited s i b}. in_bucket (buckets (stores s i) b) w)"
proof -
  have "(\<Sum>i<n. held (visited s i) (stores s i) b w) =
      (\<Sum>i<n. if \<not> visited s i b then in_bucket (buckets (stores s i) b) w else 0)"
    by (intro sum.cong) (auto simp: held_def)
  also have "\<dots> = (\<Sum>i \<in> {i \<in> {..<n}. \<not> visited s i b}. in_bucket (buckets (stores s i) b) w)"
    by (rule sum.inter_filter [symmetric]) simp
  finally show ?thesis by simp
qed

lemma used_eq:
  "used E s b w =
     (\<Sum>i \<in> {i. i < n_insts E \<and> \<not> visited s i b}. in_bucket (buckets (stores s i) b) w) +
     (\<Sum>p<n_tasks E. in_task (tasks s p) b w) +
     (\<Sum>i<n_insts E. in_lots (lots (cleaners s i)) b w) + spent s b w"
  by (simp add: used_def held_sum)

lemma in_bucket_simps [simp]:
  "in_bucket None w = 0"
  "in_bucket (Some x) w = (if sint (window x) = w then unat (tokens x) else 0)"
  by (simp_all add: in_bucket_def)

lemma in_task_simps [simp]:
  "in_task None b w = 0"
  "in_task (Some (Task i c k)) b w = (if c = b then in_reply k w else 0)"
  by (simp_all add: in_task_def)

lemma in_lots_simps [simp]:
  "in_lots [] b w = 0"
  "in_lots ((c, n, x) # l) b w = (if c = b \<and> sint x = w then unat n else 0) + in_lots l b w"
  "in_lots (l @ l') b w = in_lots l b w + in_lots l' b w"
  by (simp_all add: in_lots_def)

lemma in_lots_remove:
  assumes "k < length l" and "l ! k = (c, n, x)"
  shows "in_lots (take k l @ drop (Suc k) l) b w + (if c = b \<and> sint x = w then unat n else 0) =
    in_lots l b w"
proof -
  have "in_lots l b w = in_lots (take k l @ l ! k # drop (Suc k) l) b w"
    using id_take_nth_drop [OF assms(1)] by simp
  then show ?thesis by (simp add: assms(2))
qed

text \<open>How the count follows the updates of which the steps are made.\<close>

lemma used_goto:
  "p < n_tasks E \<Longrightarrow>
   used E (goto p i c k s) b w + in_task (tasks s p) b w = used E s b w + (if c = b then in_reply k w else 0)"
  using sum_fun_upd [where f = "\<lambda>_ t. in_task t b w" and g = "tasks s" and i = p and n = "n_tasks E"
      and v = "Some (Task i c k)"]
  by (simp add: used_def goto_def)

lemma used_set_store:
  "i < n_insts E \<Longrightarrow>
   used E (set_store i st s) b w + held (visited s i) (stores s i) b w =
   used E s b w + held (visited s i) st b w"
  using sum_fun_upd [where f = "\<lambda>j st. held (visited s j) st b w" and g = "stores s" and i = i
      and n = "n_insts E" and v = st]
  by (simp add: used_def set_store_def)

lemma used_set_cleaner:
  "i < n_insts E \<Longrightarrow>
   used E (set_cleaner i c s) b w + in_lots (lots (cleaners s i)) b w =
   used E s b w + in_lots (lots c) b w"
  using sum_fun_upd [where f = "\<lambda>_ c. in_lots (lots c) b w" and g = "cleaners s" and i = i
      and n = "n_insts E" and v = c]
  by (simp add: used_def set_cleaner_def)

lemma used_visited:
  "i < n_insts E \<Longrightarrow>
   used E (s\<lparr>visited := (visited s)(i := v)\<rparr>) b w + held (visited s i) (stores s i) b w =
   used E s b w + held v (stores s i) b w"
  using sum_fun_upd [where f = "\<lambda>j v. held v (stores s j) b w" and g = "visited s" and i = i
      and n = "n_insts E" and v = v]
  by (simp add: used_def)

lemma used_spent: "used E (s\<lparr>spent := f\<rparr>) b w + spent s b w = used E s b w + f b w"
  by (simp add: used_def)

lemma used_frame [simp]:
  "used E (s\<lparr>clock := t\<rparr>) b w = used E s b w"
  "used E (s\<lparr>redis := r\<rparr>) b w = used E s b w"
  "used E (s\<lparr>calls := cs\<rparr>) b w = used E s b w"
  "used E (s\<lparr>fresh := n\<rparr>) b w = used E s b w"
  "used E (s\<lparr>admitted := a\<rparr>) b w = used E s b w"
  "used E (admit c s) b w = used E s b w"
  "used E (notify_waiters m s) b w = used E s b w"
  by (simp_all add: used_def admit_def notify_waiters_def split: option.split)

text \<open>The other fields under the same updates.\<close>

lemma update_sel [simp]:
  "tasks (goto p i b k s) = (tasks s)(p \<mapsto> Task i b k)"
  "clock (goto p i b k s) = clock s" "redis (goto p i b k s) = redis s"
  "stores (goto p i b k s) = stores s" "cleaners (goto p i b k s) = cleaners s"
  "visited (goto p i b k s) = visited s" "spent (goto p i b k s) = spent s"
  "calls (goto p i b k s) = calls s" "fresh (goto p i b k s) = fresh s"
  "admitted (goto p i b k s) = admitted s"
  "stores (set_store i st s) = (stores s)(i := st)"
  "clock (set_store i st s) = clock s" "redis (set_store i st s) = redis s"
  "tasks (set_store i st s) = tasks s" "cleaners (set_store i st s) = cleaners s"
  "visited (set_store i st s) = visited s" "spent (set_store i st s) = spent s"
  "calls (set_store i st s) = calls s" "fresh (set_store i st s) = fresh s"
  "admitted (set_store i st s) = admitted s"
  "cleaners (set_cleaner i c s) = (cleaners s)(i := c)"
  "clock (set_cleaner i c s) = clock s" "redis (set_cleaner i c s) = redis s"
  "stores (set_cleaner i c s) = stores s" "tasks (set_cleaner i c s) = tasks s"
  "visited (set_cleaner i c s) = visited s" "spent (set_cleaner i c s) = spent s"
  "calls (set_cleaner i c s) = calls s" "fresh (set_cleaner i c s) = fresh s"
  "admitted (set_cleaner i c s) = admitted s"
  by (simp_all add: goto_def set_store_def set_cleaner_def)

lemma ghost_sel [simp]:
  "clock (admit b s) = clock s" "redis (admit b s) = redis s" "stores (admit b s) = stores s"
  "tasks (admit b s) = tasks s" "cleaners (admit b s) = cleaners s" "visited (admit b s) = visited s"
  "spent (admit b s) = spent s" "calls (admit b s) = calls s" "fresh (admit b s) = fresh s"
  "clock (note_spent t st b s) = clock s" "redis (note_spent t st b s) = redis s"
  "stores (note_spent t st b s) = stores s" "tasks (note_spent t st b s) = tasks s"
  "cleaners (note_spent t st b s) = cleaners s" "visited (note_spent t st b s) = visited s"
  "calls (note_spent t st b s) = calls s" "fresh (note_spent t st b s) = fresh s"
  "clock (notify_waiters m s) = clock s" "redis (notify_waiters m s) = redis s"
  "stores (notify_waiters m s) = stores s" "tasks (notify_waiters m s) = tasks s"
  "cleaners (notify_waiters m s) = cleaners s" "visited (notify_waiters m s) = visited s"
  "spent (notify_waiters m s) = spent s" "fresh (notify_waiters m s) = fresh s"
  by (simp_all add: admit_def note_spent_def notify_waiters_def split: option.split)

section \<open>Structure\<close>

definition lots_ok :: "cleaner \<Rightarrow> bool" where
  "lots_ok c \<longleftrightarrow> (\<forall>b n x. (b, n, x) \<in> set (lots c) \<longrightarrow> n \<noteq> 0)"

lemma lots_ok_simps [simp]:
  "lots_ok Idle" "lots_ok (Marking l)" "lots_ok (Sweeping l)" "lots_ok Complete"
  "lots_ok (Collecting [])" "lots_ok (Returning q) \<longleftrightarrow> lots_ok (Collecting q)"
  "lots_ok (Collecting (q @ [(b, n, x)])) \<longleftrightarrow> lots_ok (Collecting q) \<and> n \<noteq> 0"
  by (auto simp: lots_ok_def)

lemma lots_ok_remove: "lots_ok (Collecting l) \<Longrightarrow> lots_ok (Collecting (take k l @ drop (Suc k) l))"
  by (auto simp: lots_ok_def dest!: in_set_takeD in_set_dropD)

definition well_formed :: "env \<Rightarrow> 'r sys \<Rightarrow> bool" where
  "well_formed E s \<longleftrightarrow>
     clock s \<le> horizon E \<and>
     (\<forall>p i b k. tasks s p = Some (Task i b k) \<longrightarrow> p < n_tasks E \<and> i < n_insts E) \<and>
     (\<forall>i. cleaners s i \<noteq> Idle \<longrightarrow> i < n_insts E) \<and>
     (\<forall>i. lots_ok (cleaners s i)) \<and> (\<forall>i. cfg (stores s i) = conf E)"

lemma well_formed_task:
  "well_formed E s \<Longrightarrow> tasks s p = Some (Task i b k) \<Longrightarrow> p < n_tasks E \<and> i < n_insts E"
  by (auto simp: well_formed_def)

lemma well_formed_cleaner:
  "well_formed E s \<Longrightarrow> cleaners s i = c \<Longrightarrow> c \<noteq> Idle \<Longrightarrow> i < n_insts E"
  by (auto simp: well_formed_def)

lemma well_formed_lots: "well_formed E s \<Longrightarrow> cleaners s i = c \<Longrightarrow> lots_ok c"
  by (auto simp: well_formed_def)

lemma well_formed_cfg: "well_formed E s \<Longrightarrow> cfg (stores s i) = conf E"
  by (simp add: well_formed_def)

lemma well_formed_update:
  "well_formed E s \<Longrightarrow> p < n_tasks E \<Longrightarrow> i < n_insts E \<Longrightarrow> well_formed E (goto p i b k s)"
  "well_formed E s \<Longrightarrow> cfg st = conf E \<Longrightarrow> well_formed E (set_store i st s)"
  "well_formed E s \<Longrightarrow> i < n_insts E \<Longrightarrow> lots_ok c \<Longrightarrow> well_formed E (set_cleaner i c s)"
  by (auto simp: well_formed_def goto_def set_store_def set_cleaner_def)

lemma well_formed_frame [simp]:
  "well_formed E (s\<lparr>redis := r\<rparr>) = well_formed E s"
  "well_formed E (s\<lparr>calls := cs\<rparr>) = well_formed E s"
  "well_formed E (s\<lparr>fresh := n\<rparr>) = well_formed E s"
  "well_formed E (s\<lparr>admitted := a\<rparr>) = well_formed E s"
  "well_formed E (s\<lparr>spent := f\<rparr>) = well_formed E s"
  "well_formed E (s\<lparr>visited := v\<rparr>) = well_formed E s"
  "well_formed E (admit b s) = well_formed E s"
  "well_formed E (note_spent t st b s) = well_formed E s"
  "well_formed E (notify_waiters m s) = well_formed E s"
  by (simp_all add: well_formed_def admit_def note_spent_def notify_waiters_def split: option.split)

lemma well_formed_clock: "well_formed E s \<Longrightarrow> t \<le> horizon E \<Longrightarrow> well_formed E (s\<lparr>clock := t\<rparr>)"
  by (simp add: well_formed_def)

lemma cfg_simps [simp]:
  "cfg (snd (begin_refill st b n)) = cfg st"
  "cfg (snd (end_refill st b)) = cfg st"
  "cfg (snd (spend t st b)) = cfg st"
  "cfg (remove_bucket st b) = cfg st"
  by (auto simp: store_defs split: option.splits prod.splits)

lemma well_formed_boot: "t \<le> horizon E \<Longrightarrow> well_formed E (boot E t r)"
  by (simp add: well_formed_def boot_def store_new_def)

lemma well_formed_crash: "well_formed E s \<Longrightarrow> well_formed E (step_crash E i s)"
  by (auto simp: well_formed_def step_crash_def store_new_def split: option.splits task.splits if_splits)

lemma well_formed_request:
  assumes s: "well_formed E s" and p: "p < n_tasks E" "i < n_insts E"
  shows "well_formed E (step_check E p i b s)" "well_formed E (step_enter p i b s)"
    "well_formed E (step_serve E ops n p i b u s)" "well_formed E (step_unlock p i b out s)"
    "well_formed E (step_notify p i b m out s)" "well_formed E (step_spend E p i b s)"
    "well_formed E (step_remove p i b s)"
    "clock s + gap \<le> horizon E \<Longrightarrow> well_formed E (step_reply E gap p i b u res s)"
proof -
  note cfg = well_formed_cfg [OF s]
  have sections: "end_refill (stores s i) b = (x, st) \<Longrightarrow> cfg st = conf E"
    "apply_lease now (stores s i) b a = (y, st) \<Longrightarrow> cfg st = conf E"
    "spend now (stores s i) b = (z, st) \<Longrightarrow> cfg st = conf E"
    "begin_refill (stores s i) b w = (v, st) \<Longrightarrow> cfg st = conf E"
    for x y z v w st now a
    using cfg [of i] apply_lease_cfg [of now "stores s i" b a] cfg_simps [where st = "stores s i"]
    by (metis snd_conv)+
  show "well_formed E (step_check E p i b s)" "well_formed E (step_serve E ops n p i b u s)"
    using s p
    by (auto simp: step_check_def step_serve_def Let_def intro!: well_formed_update
        split: sum.split bool.split prod.split)
  show "well_formed E (step_enter p i b s)" "well_formed E (step_unlock p i b out s)"
    using s p sections
    by (auto simp: step_enter_def step_unlock_def intro!: well_formed_update split: sum.split prod.split)
  show "well_formed E (step_notify p i b m out s)" "well_formed E (step_remove p i b s)"
    using s p cfg by (auto simp: step_notify_def step_remove_def intro!: well_formed_update)
  show "well_formed E (step_spend E p i b s)"
    using s p sections by (auto simp: step_spend_def intro!: well_formed_update split: sum.split prod.split)
  show "well_formed E (step_reply E gap p i b u res s)" if "clock s + gap \<le> horizon E"
    using s p sections that
    by (auto simp: step_reply_def Let_def intro!: well_formed_update well_formed_clock split: prod.split)
qed

lemma well_formed_cleanup:
  assumes s: "well_formed E s" and i: "i < n_insts E" and l: "lots_ok (Collecting l)"
  shows "well_formed E (step_visit E i b x l s)" "well_formed E (step_return E ops n i k l s)"
    "well_formed E (set_cleaner i (Returning l) s)"
  using assms well_formed_cfg [OF s]
  by (auto simp: step_visit_def step_return_def is_empty_def
      intro!: well_formed_update lots_ok_remove split: prod.split)

lemma well_formed_sweep:
  "well_formed E s \<Longrightarrow> i < n_insts E \<Longrightarrow>
   well_formed E (set_cleaner i (Sweeping q) (set_store i (remove_bucket (stores s i) b) s))"
  using well_formed_cfg [of E s i] by (auto intro!: well_formed_update)

lemma well_formed_step:
  assumes s: "well_formed E s" and e: "fire E ops e s = Some t"
  shows "well_formed E t"
proof -
  note task = well_formed_task [OF s]
  note cleaner = well_formed_cleaner [OF s] well_formed_lots [OF s]
  have lots: "cleaners s i = c \<Longrightarrow> c \<noteq> Idle \<Longrightarrow> i < n_insts E \<and> lots_ok c" for i c
    using cleaner by auto
  note steps = well_formed_request [OF s] well_formed_cleanup [OF s] well_formed_update [OF s]
    well_formed_sweep [OF s]
    well_formed_clock [OF s] well_formed_crash [OF s]
  show ?thesis
    using e by (cases e) (auto simp: fire_iff has_cleaner_def intro!: steps dest: task dest!: lots)
qed

section \<open>Accounts\<close>

text \<open>No token taken from Redis belongs to a later window than this.\<close>
definition latest ::
    "('r \<Rightarrow> int \<Rightarrow> string \<Rightarrow> (string \<times> int option) option) \<Rightarrow> 'r \<Rightarrow> int \<Rightarrow> bucket_id \<Rightarrow> int" where
  "latest live r t b = (case window_of live r t b of Some (n, e) \<Rightarrow> e | None \<Rightarrow> t)"

definition limit :: "env \<Rightarrow> bucket_id \<Rightarrow> nat" where
  "limit E b = unat (quota (policy_for (conf E) b))"

definition balanced ::
    "env \<Rightarrow> ('r \<Rightarrow> int \<Rightarrow> string \<Rightarrow> (string \<times> int option) option) \<Rightarrow> 'r sys \<Rightarrow> bool" where
  "balanced E live s \<longleftrightarrow>
     counters_ok live (redis s) (server_time E s) \<and>
     (\<forall>b w. rem_in (window_of live (redis s) (server_time E s) b) w + used E s b w \<le> limit E b) \<and>
     (\<forall>b w. used E s b w \<noteq> 0 \<longrightarrow> 0 \<le> w \<and> w \<le> latest live (redis s) (server_time E s) b)"

text \<open>The configurations and times for which the arithmetic of the scripts is exact.\<close>
definition env_ok :: "env \<Rightarrow> bool" where
  "env_ok E \<longleftrightarrow> valid_config (conf E) \<and>
     (\<forall>p \<in> {protected_policy (conf E), public_policy (conf E)}.
        unat (quota p) \<le> 2 ^ 53 \<and> 0 < as_secs (reset_in p) \<and>
        int ((horizon E + server_skew E) div 10 ^ 6) + 1000 * uint (as_secs (reset_in p)) \<le> 2 ^ 53)"

lemma server_time_frame [simp]:
  "server_time E (goto p i b k s) = server_time E s"
  "server_time E (set_store i st s) = server_time E s"
  "server_time E (set_cleaner i c s) = server_time E s"
  "server_time E (admit b s) = server_time E s"
  "server_time E (note_spent u st b s) = server_time E s"
  "server_time E (notify_waiters m s) = server_time E s"
  "server_time E (s\<lparr>redis := r\<rparr>) = server_time E s"
  "server_time E (s\<lparr>visited := v\<rparr>) = server_time E s"
  "server_time E (s\<lparr>fresh := n\<rparr>) = server_time E s"
  by (simp_all add: server_time_def)

lemma server_time_mono: "clock s \<le> clock t \<Longrightarrow> server_time E s \<le> server_time E t"
  by (simp add: server_time_def div_le_mono)

lemma env_ok_lease_args:
  assumes "env_ok E" "well_formed E s"
  shows "lease_args (server_time E s) (lease_size (policy_for (conf E) b))
    (quota (policy_for (conf E) b)) (reset_in (policy_for (conf E) b))"
proof -
  let ?p = "policy_for (conf E) b"
  have p: "?p \<in> {protected_policy (conf E), public_policy (conf E)}" by (cases b) auto
  have "valid_policy ?p" using assms(1) by (auto simp: env_ok_def intro: valid_config_policy)
  moreover have "int ((horizon E + server_skew E) div 10 ^ 6) + 1000 * uint (as_secs (reset_in ?p)) \<le> 2 ^ 53"
    "unat (quota ?p) \<le> 2 ^ 53" "0 < as_secs (reset_in ?p)"
    using assms(1) p by (auto simp: env_ok_def)
  moreover have "(clock s + server_skew E) div 10 ^ 6 \<le> (horizon E + server_skew E) div 10 ^ 6"
    using assms(2) by (simp add: well_formed_def div_le_mono)
  ultimately show ?thesis
    by (auto simp: lease_args_def valid_policy_def server_time_def word_le_nat_alt)
qed

lemma limit_le: "env_ok E \<Longrightarrow> limit E b \<le> 2 ^ 53"
  by (cases b) (auto simp: limit_def env_ok_def)

text \<open>Steps that take tokens out of circulation, or none.\<close>

lemma balanced_le:
  assumes "balanced E live s" and "clock t = clock s" and "redis t = redis s"
    and "\<And>b w. used E t b w \<le> used E s b w"
  shows "balanced E live t"
proof -
  have [simp]: "server_time E t = server_time E s" using assms(2) by (simp add: server_time_def)
  have "used E s b w \<noteq> 0" if "used E t b w \<noteq> 0" for b w using that assms(4) [of b w] by linarith
  moreover have "a + used E t b w \<le> n" if "a + used E s b w \<le> n" for a b w n
    using that assms(4) [of b w] by linarith
  ultimately show ?thesis using assms(1) unfolding balanced_def assms(3) by simp blast
qed

text \<open>The call a request makes for a lease, with its policy.\<close>
abbreviation lease_call :: "env \<Rightarrow> 'r redis_ops \<Rightarrow> net \<Rightarrow> 'r sys \<Rightarrow> bucket_id \<Rightarrow> (cache_error + u64 \<times> u64 \<times> i64) \<times> 'r" where
  "lease_call E ops n s b \<equiv> lease_request ops n (redis s) (server_time E s) b
     (lease_size (policy_for (conf E) b)) (quota (policy_for (conf E) b)) (reset_in (policy_for (conf E) b))"

context redis_server
begin

lemma balanced_clock:
  assumes "balanced E live s" and "clock s \<le> c"
  shows "balanced E live (s\<lparr>clock := c\<rparr>)"
proof -
  let ?t = "server_time E s" and ?t' = "server_time E (s\<lparr>clock := c\<rparr>)"
  have t: "?t \<le> ?t'" using assms(2) by (simp add: server_time_mono)
  have ok: "counters_ok live (redis s) ?t" using assms(1) by (simp add: balanced_def)
  have step: "rem_in (window_of live (redis s) ?t' b) w \<le> rem_in (window_of live (redis s) ?t b) w \<and>
      latest live (redis s) ?t b \<le> latest live (redis s) ?t' b" for b w
  proof (cases "window_of live (redis s) ?t b")
    case None
    then show ?thesis using svc.win_none [OF ok t None] t by (simp add: latest_def)
  next
    case (Some ne)
    then obtain n e where "window_of live (redis s) ?t b = Some (n, e)" by (cases ne) auto
    then show ?thesis using svc.win_time [OF ok t] by (fastforce simp: latest_def)
  qed
  have "a \<le> latest live (redis s) ?t' b" if "a \<le> latest live (redis s) ?t b" for a b
    using that step [of b a] by linarith
  moreover have "rem_in (window_of live (redis s) ?t' b) w + n \<le> limit E b"
    if "rem_in (window_of live (redis s) ?t b) w + n \<le> limit E b" for b w n
    using that step [of b w] by linarith
  ultimately show ?thesis
    using assms(1) svc.ok_time [OF ok t] by (simp add: balanced_def)
qed

text \<open>A lease moves tokens from Redis to the reply.\<close>

lemma lease_effect:
  assumes bal: "balanced E live s" and E: "env_ok E" and wf: "well_formed E s"
    and task: "tasks s p = Some (Task i b (Leasing u))"
    and call: "lease_call E ops Delivered s b = (res, r')"
    and got: "isl res' \<or> res' = res"
  obtains m e where "counters_ok live r' (server_time E s)"
    "window_of live r' (server_time E s) = (window_of live (redis s) (server_time E s))(b \<mapsto> (m, e))"
    "server_time E s \<le> e"
    "\<And>w. rem_in (Some (m, e)) w + used E (goto p i b (Replied u res') (s\<lparr>redis := r'\<rparr>)) b w \<le>
       rem_in (window_of live (redis s) (server_time E s) b) w + used E s b w +
       (if window_of live (redis s) (server_time E s) b = None \<and> w = e then limit E b else 0)"
    "\<And>c w. used E (goto p i b (Replied u res') (s\<lparr>redis := r'\<rparr>)) c w \<noteq> 0 \<Longrightarrow>
       used E s c w \<noteq> 0 \<or> c = b \<and> w = e"
    "\<And>c w. c \<noteq> b \<Longrightarrow> used E (goto p i b (Replied u res') (s\<lparr>redis := r'\<rparr>)) c w = used E s c w"
    "window_of live (redis s) (server_time E s) b = None \<Longrightarrow> server_time E s < e \<and>
       e = server_time E s + 1000 * uint (as_secs (reset_in (policy_for (conf E) b)))"
    "\<And>k e'. window_of live (redis s) (server_time E s) b = Some (k, e') \<Longrightarrow> e' = e"
proof -
  let ?t = "server_time E s" and ?s = "goto p i b (Replied u res') (s\<lparr>redis := r'\<rparr>)"
  let ?W = "window_of live (redis s) ?t"
  have ok: "counters_ok live (redis s) ?t" using bal by (auto simp: balanced_def)
  obtain n pt e m where
    res: "res = Inr (word_of_int n, word_of_int pt, word_of_int e)" and ok': "counters_ok live r' ?t"
    and win: "window_of live r' ?t = ?W(b \<mapsto> (m, e))"
    and n: "0 \<le> n" "n \<le> 2 ^ 53" "?t \<le> e" "e \<le> 2 ^ 53"
    and rem: "\<And>x. rem_in (Some (m, e)) x + (if x = e then nat n else 0) =
         rem_in (?W b) x + (if ?W b = None \<and> x = e then unat (quota (policy_for (conf E) b)) else 0)"
    and new: "?W b = None \<Longrightarrow> ?t < e \<and> e = ?t + 1000 * uint (as_secs (reset_in (policy_for (conf E) b)))"
      "\<And>k e'. ?W b = Some (k, e') \<Longrightarrow> e' = e"
    by (rule svc.lease_accounts [OF ok env_ok_lease_args [OF E wf] call]) (rule that)
  have t0: "0 \<le> ?t" by (simp add: server_time_def)
  have e: "sint (word_of_int e :: i64) = e" using n t0 by (intro sint_of_int_small) auto
  have p: "p < n_tasks E" using well_formed_task [OF wf task] by simp
  have reply: "in_reply (Replied u res') w \<le> (if w = e then nat n else 0)" for w
    using got res e n by (cases res') (auto simp: unat_word_of_int)
  have used: "used E ?s c w = used E s c w + (if b = c then in_reply (Replied u res') w else 0)" for c w
    using used_goto [OF p, of i b "Replied u res'" "s\<lparr>redis := r'\<rparr>" c w] task by (cases "b = c") simp_all
  have "rem_in (Some (m, e)) w + used E ?s b w \<le>
      rem_in (?W b) w + used E s b w + (if ?W b = None \<and> w = e then limit E b else 0)" for w
    using reply [of w] rem [of w, folded limit_def] used [of b w] unfolding simp_thms if_True by linarith
  moreover have "used E s c w \<noteq> 0 \<or> c = b \<and> w = e" if "used E ?s c w \<noteq> 0" for c w
    using that used [of c w] reply [of w] by (auto split: if_splits)
  moreover have "used E ?s c w = used E s c w" if "c \<noteq> b" for c w using that used [of c w] by simp
  ultimately show ?thesis using that [OF ok' win n(3)] new by blast
qed

lemma balanced_lease:
  assumes bal: "balanced E live s" and E: "env_ok E" and wf: "well_formed E s"
    and task: "tasks s p = Some (Task i b (Leasing u))"
    and call: "lease_call E ops Delivered s b = (res, r')"
    and got: "isl res' \<or> res' = res"
  shows "balanced E live (goto p i b (Replied u res') (s\<lparr>redis := r'\<rparr>))"
proof -
  let ?t = "server_time E s" and ?s = "goto p i b (Replied u res') (s\<lparr>redis := r'\<rparr>)"
  let ?W = "window_of live (redis s) ?t"
  have lim: "\<And>b w. rem_in (?W b) w + used E s b w \<le> limit E b"
    and past: "\<And>b w. used E s b w \<noteq> 0 \<Longrightarrow> 0 \<le> w \<and> w \<le> latest live (redis s) ?t b"
    using bal by (auto simp: balanced_def)
  obtain m e where ok': "counters_ok live r' ?t" and win: "window_of live r' ?t = ?W(b \<mapsto> (m, e))"
    and te: "?t \<le> e"
    and rem: "\<And>w. rem_in (Some (m, e)) w + used E ?s b w \<le>
       rem_in (?W b) w + used E s b w + (if ?W b = None \<and> w = e then limit E b else 0)"
    and occ: "\<And>c w. used E ?s c w \<noteq> 0 \<Longrightarrow> used E s c w \<noteq> 0 \<or> c = b \<and> w = e"
    and other: "\<And>c w. c \<noteq> b \<Longrightarrow> used E ?s c w = used E s c w"
    and new: "?W b = None \<Longrightarrow> ?t < e \<and> e = ?t + 1000 * uint (as_secs (reset_in (policy_for (conf E) b)))"
      "\<And>k e'. ?W b = Some (k, e') \<Longrightarrow> e' = e"
    by (rule lease_effect [OF assms]) (rule that)
  have later: "latest live (redis s) ?t b \<le> e" using new by (cases "?W b") (auto simp: latest_def)
  have fresh: "used E s b e = 0" if "?W b = None"
    using past [of b e] new(1) [OF that] that by (auto simp: latest_def)
  have "rem_in (window_of live r' ?t c) w + used E ?s c w \<le> limit E c" for c w
  proof (cases "c = b")
    case True
    have "rem_in (?W b) w + used E s b w + (if ?W b = None \<and> w = e then limit E b else 0) \<le> limit E b"
      using lim [of b w] fresh by auto
    then show ?thesis using rem [of w] True win by simp
  next
    case False
    then show ?thesis using lim other win by simp
  qed
  moreover have "0 \<le> w \<and> w \<le> latest live r' ?t c" if "used E ?s c w \<noteq> 0" for c w
  proof (cases "c = b")
    case True
    have "latest live r' ?t b = e" using win by (simp add: latest_def)
    moreover have "0 \<le> e" using te by (simp add: server_time_def)
    ultimately show ?thesis using occ [OF that] past [of b w] later True by auto
  next
    case False
    then show ?thesis using that past [of c w] other win by (simp add: latest_def)
  qed
  ultimately show ?thesis using ok' by (simp add: balanced_def)
qed

end

section \<open>Steps that keep or drop tokens\<close>

lemma used_goto_eq:
  assumes "p < n_tasks E" and "\<And>w. in_reply k w = 0"
  shows "used E (goto p i c k s) b w + in_task (tasks s p) b w = used E s b w"
  using used_goto [OF assms(1), of i c k s b w] assms(2) by (simp split: if_splits)

lemma used_set_store_eq:
  assumes "i < n_insts E" and "in_bucket (buckets st b) w = in_bucket (buckets (stores s i) b) w"
  shows "used E (set_store i st s) b w = used E s b w"
  using used_set_store [OF assms(1), of st s b w] assms(2) by (simp add: held_def split: if_splits)

lemma used_goto_le:
  assumes "p < n_tasks E" and "\<And>w. in_reply k w = 0"
  shows "used E (goto p i c k s) b w \<le> used E s b w"
  using used_goto [OF assms(1), of i c k s b w] assms(2) by (simp split: if_splits)

lemma used_set_store_le:
  assumes "i < n_insts E" and "in_bucket (buckets st b) w \<le> in_bucket (buckets (stores s i) b) w"
  shows "used E (set_store i st s) b w \<le> used E s b w"
  using used_set_store [OF assms(1), of st s b w] assms(2) by (simp add: held_def split: if_splits)

lemma used_set_cleaner_eq:
  "i < n_insts E \<Longrightarrow> lots c = lots (cleaners s i) \<Longrightarrow> used E (set_cleaner i c s) b w = used E s b w"
  using used_set_cleaner [of i E c s b w] by simp

lemma in_reply_other [simp]: "in_reply (Replied u (Inl e)) w = 0"
  by (rule in_reply.simps)

lemma sections_buckets:
  "begin_refill st b n = (r1, st') \<Longrightarrow> buckets st' = buckets st"
  "end_refill st b = (r2, st') \<Longrightarrow> buckets st' = buckets st"
  by (auto simp: store_defs split: option.splits)

text \<open>A step of a request that moves no tokens only takes what its reply still held out of the count.\<close>

lemma used_moving:
  assumes "p < n_tasks E" "i < n_insts E"
  shows "used E (step_check E p i b s) c w + in_task (tasks s p) c w = used E s c w"
    "used E (step_enter p i b s) c w + in_task (tasks s p) c w = used E s c w"
    "used E (step_unlock p i b out s) c w + in_task (tasks s p) c w = used E s c w"
    "used E (step_notify p i b m out s) c w + in_task (tasks s p) c w = used E s c w"
    "used E (step_remove p i b s) c w + in_task (tasks s p) c w +
       (if c = b then held (visited s i) (stores s i) b w else 0) = used E s c w"
proof -
  note goto = used_goto_eq [OF assms(1)]
  have st: "used E (goto p i b k (set_store i st u)) c w + in_task (tasks u p) c w = used E u c w"
    if "\<And>w. in_reply k w = 0" and "in_bucket (buckets st c) w = in_bucket (buckets (stores u i) c) w"
    for k st and u :: "'a sys"
    using goto [OF that(1), of i b "set_store i st u" c w] used_set_store_eq [OF assms(2) that(2)] by simp
  show "used E (step_check E p i b s) c w + in_task (tasks s p) c w = used E s c w"
    by (auto simp: step_check_def goto split: sum.split bool.split)
  show "used E (step_enter p i b s) c w + in_task (tasks s p) c w = used E s c w"
  proof (cases "begin_refill (stores s i) b (fresh s)")
    case (Pair r st')
    then show ?thesis
      using st [of Calling st' "s\<lparr>fresh := Suc (fresh s)\<rparr>"] sections_buckets(1) [OF Pair]
      by (cases r) (auto simp: step_enter_def goto)
  qed
  show "used E (step_unlock p i b out s) c w + in_task (tasks s p) c w = used E s c w"
    by (auto simp: step_unlock_def sections_buckets(2) intro!: st split: prod.split)
  show "used E (step_notify p i b m out s) c w + in_task (tasks s p) c w = used E s c w"
    using goto [of _ i b "notify_waiters m s" c w]
    by (simp add: step_notify_def split: sum.split)
  show "used E (step_remove p i b s) c w + in_task (tasks s p) c w +
       (if c = b then held (visited s i) (stores s i) b w else 0) = used E s c w"
    using goto [of "Finished (Inr 0)" i b "admit b (set_store i (remove_bucket (stores s i) b) s)" c w]
      used_set_store [OF assms(2), of "remove_bucket (stores s i) b" s c w]
    by (cases "c = b"; cases "visited s i c") (simp_all add: step_remove_def remove_bucket_def held_def)
qed

lemma used_entering:
  assumes "p < n_tasks E" "i < n_insts E"
  shows "used E (step_check E p i b s) c w \<le> used E s c w"
    "used E (step_enter p i b s) c w \<le> used E s c w"
    "used E (step_unlock p i b out s) c w \<le> used E s c w"
    "used E (step_notify p i b m out s) c w \<le> used E s c w"
    "used E (step_remove p i b s) c w \<le> used E s c w"
  using used_moving(1,2,5) [OF assms, of b s c w] used_moving(3) [OF assms, of b out s c w]
    used_moving(4) [OF assms, of b m out s c w] by linarith+

lemma in_bucket_apply_lease:
  "apply_lease now st b (lease_answer u a res) = (out, st') \<Longrightarrow>
   in_bucket (buckets st' c) w \<le>
   in_bucket (buckets st c) w + (if b = c then in_reply (Replied u res) w else 0)"
  by (cases res) (auto simp: apply_lease_def lease_answer_def set_exhausted_def bucket_new_def
      split: option.splits if_splits)

lemma used_reply:
  assumes task: "tasks s p = Some (Task i b (Replied u res))" and p: "p < n_tasks E" "i < n_insts E"
  shows "used E (step_reply E gap p i b u res s) c w \<le> used E s c w"
proof -
  let ?s = "s\<lparr>clock := clock s + gap\<rparr>"
  obtain out st where ap: "apply_lease (local_time E ?s i) (stores s i) b
      (lease_answer u (local_time E s i) res) = (out, st)" by fastforce
  have "used E (goto p i b (Unlocking out) (set_store i st ?s)) c w +
      (if b = c then in_reply (Replied u res) w else 0) = used E (set_store i st ?s) c w"
    using used_goto [OF p(1), of i b "Unlocking out" "set_store i st ?s" c w] task
    by (cases "b = c") simp_all
  moreover have "used E (set_store i st ?s) c w \<le> used E ?s c w +
      (if b = c then in_reply (Replied u res) w else 0)"
    using used_set_store [OF p(2), of st ?s c w] in_bucket_apply_lease [OF ap, of c w]
    by (simp add: held_def split: if_splits)
  ultimately show ?thesis using ap by (simp add: step_reply_def Let_def)
qed

text \<open>Taking a token moves it from the bucket to what is spent.\<close>

lemma used_spending:
  assumes p: "p < n_tasks E" "i < n_insts E" and quiet: "\<not> visited s i b"
  shows "used E (step_spend E p i b s) c w + in_task (tasks s p) c w = used E s c w"
proof -
  let ?now = "local_time E s i" and ?st = "stores s i"
  note goto = used_goto_eq [OF p(1)]
  show ?thesis
  proof (cases "buckets ?st b")
    case None
    then show ?thesis using used_set_store_eq [OF p(2), of ?st c w s] goto [of _ i b "admit b (set_store i ?st s)" c w]
        goto [of _ i b s c w]
      by (auto simp: step_spend_def spend_def note_spent_def)
  next
    case (Some x)
    show ?thesis
    proof (cases "is_expired ?now x \<or> is_empty x")
      case True
      let ?x = "if is_empty x then x else x\<lparr>tokens := tokens x - 1\<rparr>"
      let ?u = "set_store i (?st\<lparr>buckets := (buckets ?st)(b \<mapsto> x)\<rparr>) s"
      show ?thesis using True Some used_set_store_eq [OF p(2), of "?st\<lparr>buckets := (buckets ?st)(b \<mapsto> x)\<rparr>" c w s]
          goto [of _ i b s c w] goto [of _ i b "admit b ?u" c w]
        by (auto simp: step_spend_def spend_def note_spent_def bucket_consume_eq is_empty_def)
    next
      case False
      let ?x = "x\<lparr>tokens := tokens x - 1\<rparr>" and ?w = "sint (window x)"
      let ?u = "set_store i (?st\<lparr>buckets := (buckets ?st)(b \<mapsto> ?x)\<rparr>) s"
      let ?f = "(spent s)(b := (spent s b)(?w := Suc (spent s b ?w)))"
      have "unat (tokens x) = Suc (unat (tokens x - 1))"
        using False unat_dec [of "tokens x"] unat_pos_iff [of "tokens x"] by (simp add: is_empty_def)
      then have "used E (?u\<lparr>spent := ?f\<rparr>) c w = used E s c w"
        using used_set_store [OF p(2), of "?st\<lparr>buckets := (buckets ?st)(b \<mapsto> ?x)\<rparr>" s c w]
          used_spent [of E ?f ?u c w] Some quiet
        by (auto simp: held_def split: if_splits)
      moreover have "step_spend E p i b s = goto p i b (Finished (Inr (tokens x - 1)))
          (admit b (?u\<lparr>spent := ?f\<rparr>))"
        using False Some
        by (simp add: step_spend_def spend_def note_spent_def bucket_consume_eq is_empty_def)
      ultimately show ?thesis
        using goto [of "Finished (Inr (tokens x - 1))" i b "admit b (?u\<lparr>spent := ?f\<rparr>)" c w] by simp
    qed
  qed
qed


lemma used_spend:
  "p < n_tasks E \<Longrightarrow> i < n_insts E \<Longrightarrow> \<not> visited s i b \<Longrightarrow> used E (step_spend E p i b s) c w \<le> used E s c w"
  using used_spending [of p E i s b c w] by linarith

lemma used_sweep:
  assumes i: "i < n_insts E" and lots: "lots c = lots (cleaners s i)"
  shows "used E (set_cleaner i c (set_store i (remove_bucket (stores s i) b) s)) d w \<le> used E s d w"
proof -
  let ?s = "set_store i (remove_bucket (stores s i) b) s"
  have "used E (set_cleaner i c ?s) d w = used E ?s d w"
    using lots by (intro used_set_cleaner_eq [OF i]) simp
  moreover have "used E ?s d w \<le> used E s d w"
    by (rule used_set_store_le [OF i]) (simp add: remove_bucket_def)
  ultimately show ?thesis by simp
qed

lemma used_visit:
  assumes i: "i < n_insts E" and c: "cleaners s i = Collecting l"
    and x: "buckets (stores s i) b = Some x" "\<not> visited s i b"
  shows "used E (step_visit E i b x l s) d w \<le> used E s d w"
proof -
  let ?s = "s\<lparr>visited := (visited s)(i := (visited s i)(b := True))\<rparr>"
  let ?c = "Collecting (if is_empty x \<or> is_expired (local_time E s i) x then l
                        else l @ [(b, tokens x, window x)])"
  have "used E ?s d w + (if d = b then in_bucket (Some x) w else 0) = used E s d w"
    using used_visited [OF i, of s "(visited s i)(b := True)" d w] x by (simp add: held_def split: if_splits)
  moreover have "used E (set_cleaner i ?c ?s) d w \<le> used E ?s d w + (if d = b then in_bucket (Some x) w else 0)"
    using used_set_cleaner [OF i, of ?c ?s d w] c by (auto split: if_splits)
  ultimately show ?thesis by (simp add: step_visit_def)
qed

lemma used_crash: "used E (step_crash E i s) b w \<le> used E s b w"
proof -
  have "in_task (tasks (step_crash E i s) p) b w \<le> in_task (tasks s p) b w" for p
    by (auto simp: step_crash_def split: option.split task.split)
  moreover have "held (visited (step_crash E i s) j) (stores (step_crash E i s) j) b w \<le>
      held (visited s j) (stores s j) b w" for j
    by (simp add: step_crash_def held_def store_new_def)
  moreover have "in_lots (lots (cleaners (step_crash E i s) j)) b w \<le> in_lots (lots (cleaners s j)) b w" for j
    by (simp add: step_crash_def)
  moreover have "spent (step_crash E i s) = spent s" by (simp add: step_crash_def)
  ultimately show ?thesis unfolding used_def by (simp add: add_mono sum_mono)
qed

lemma step_frame [simp]:
  "clock (step_check E p i b s) = clock s" "redis (step_check E p i b s) = redis s"
  "clock (step_enter p i b s) = clock s" "redis (step_enter p i b s) = redis s"
  "clock (step_unlock p i b out s) = clock s" "redis (step_unlock p i b out s) = redis s"
  "clock (step_notify p i b m out s) = clock s" "redis (step_notify p i b m out s) = redis s"
  "clock (step_spend E p i b s) = clock s" "redis (step_spend E p i b s) = redis s"
  "clock (step_remove p i b s) = clock s" "redis (step_remove p i b s) = redis s"
  "clock (step_visit E i b x l s) = clock s" "redis (step_visit E i b x l s) = redis s"
  "clock (step_crash E i s) = clock s" "redis (step_crash E i s) = redis s"
  "clock (step_reply E gap p i b u res s) = clock s + gap"
  "redis (step_reply E gap p i b u res s) = redis s"
  by (simp_all add: step_check_def step_enter_def step_unlock_def step_notify_def step_spend_def
      step_remove_def step_visit_def step_crash_def step_reply_def Let_def
      split: sum.split bool.split prod.split)

text \<open>A failed call leaves Redis as it was or as the delivered call leaves it.\<close>

lemma lease_request_net:
  assumes "lease_request ops n r t b sz q ttl = (res', r')"
    and "lease_request ops Delivered r t b sz q ttl = (res, r1)"
  shows "(r' = r \<and> isl res') \<or> (r' = r1 \<and> (isl res' \<or> res' = res))"
  using assms
  by (cases n) (auto simp: lease_request_def script_execute_def split: sum.splits prod.splits)

lemma served_by:
  assumes "well_formed E s"
  obtains res r1 res' r' where "lease_call E ops Delivered s b = (res, r1)" "lease_call E ops n s b = (res', r')"
    "step_serve E ops n p i b u s = goto p i b (Replied u res') (s\<lparr>redis := r'\<rparr>)"
    "r' = redis s \<and> isl res' \<or> r' = r1 \<and> (isl res' \<or> res' = res)"
proof -
  obtain res r1 res' r' where c: "lease_call E ops Delivered s b = (res, r1)" "lease_call E ops n s b = (res', r')"
    by fastforce
  then show ?thesis
    using that [OF c] lease_request_net [OF c(2,1)] by (simp add: step_serve_def well_formed_cfg [OF assms] Let_def)
qed

lemma used_lost: "isl res \<Longrightarrow> p < n_tasks E \<Longrightarrow> used E (goto p i b (Replied u res) s) d w \<le> used E s d w"
  by (rule used_goto_le) (auto simp: isl_def)

lemma cache_release_net:
  "snd (cache_release ops n r t b toks x) \<in> {r, snd (cache_release ops Delivered r t b toks x)}"
  by (cases n) (auto simp: cache_release_def script_execute_def split: sum.splits prod.splits)

context redis_server
begin

lemma balanced_serve:
  assumes bal: "balanced E live s" and E: "env_ok E" and wf: "well_formed E s"
    and task: "tasks s p = Some (Task i b (Leasing u))"
  shows "balanced E live (step_serve E ops n p i b u s)"
proof (rule served_by [OF wf, of ops b n p i u])
  fix res r1 res' r'
  assume c: "lease_call E ops Delivered s b = (res, r1)"
    and step: "step_serve E ops n p i b u s = goto p i b (Replied u res') (s\<lparr>redis := r'\<rparr>)"
    and "r' = redis s \<and> isl res' \<or> r' = r1 \<and> (isl res' \<or> res' = res)"
  then show ?thesis
  proof (elim disjE)
    assume lost: "r' = redis s \<and> isl res'"
    have "balanced E live (goto p i b (Replied u res') s)"
      by (rule balanced_le [OF bal]) (use lost used_lost well_formed_task [OF wf task] in auto)
    then show ?thesis using step lost by simp
  next
    assume "r' = r1 \<and> (isl res' \<or> res' = res)"
    then show ?thesis using balanced_lease [OF bal E wf task c, of res'] step by simp
  qed
qed

text \<open>What is on its way back to Redis fits into its window.\<close>

lemma return_fits:
  assumes bal: "balanced E live s" and E: "env_ok E" and wf: "well_formed E s"
    and used: "unat toks \<le> used E s b (sint x)" and n0: "toks \<noteq> 0"
  shows "0 \<le> sint x \<and> exact (sint x) \<and>
    rem_in (window_of live (redis s) (server_time E s) b) (sint x) + unat toks \<le> 2 ^ 53"
proof -
  let ?t = "server_time E s"
  let ?W = "window_of live (redis s) ?t"
  have ok: "counters_ok live (redis s) ?t"
    and lim: "\<And>b w. rem_in (?W b) w + used E s b w \<le> limit E b"
    and past: "\<And>b w. used E s b w \<noteq> 0 \<Longrightarrow> 0 \<le> w \<and> w \<le> latest live (redis s) ?t b"
    using bal by (auto simp: balanced_def)
  have "used E s b (sint x) \<noteq> 0" using used n0 by (metis le_zero_eq unat_eq_zero)
  from past [OF this] have x0: "0 \<le> sint x" "sint x \<le> latest live (redis s) ?t b" by auto
  have "latest live (redis s) ?t b \<le> 2 ^ 53"
  proof (cases "?W b")
    case None
    have "0 < uint (as_secs (reset_in (policy_for (conf E) b)))" "?t + 1000 * uint (as_secs
        (reset_in (policy_for (conf E) b))) \<le> 2 ^ 53"
      using env_ok_lease_args [OF E wf, of b] by (auto simp: lease_args_def word_less_def)
    then show ?thesis using None by (simp add: latest_def)
  next
    case (Some ne)
    then obtain m e where "?W b = Some (m, e)" by (cases ne) auto
    then show ?thesis using svc.win_bounds [OF ok, of b m e] by (simp add: latest_def)
  qed
  then have x: "0 \<le> sint x" "exact (sint x)" using x0 by (auto intro: exactI)
  have room: "rem_in (?W b) (sint x) + unat toks \<le> 2 ^ 53"
    using lim [of b "sint x"] used limit_le [OF E, of b] by linarith
  then show ?thesis using x by simp
qed

text \<open>A release moves tokens back to their window, or drops them.\<close>

lemma returned_by:
  assumes wf: "well_formed E s" and c: "cleaners s i = Returning l" "k < length l"
  obtains b toks x r' where "l ! k = (b, toks, x)" "toks \<noteq> 0"
    "step_return E ops n i k l s = set_cleaner i (Returning (take k l @ drop (Suc k) l)) (s\<lparr>redis := r'\<rparr>)"
    "r' = snd (cache_release ops n (redis s) (server_time E s) b toks x)"
    "\<And>r d w. used E (set_cleaner i (Returning (take k l @ drop (Suc k) l)) (s\<lparr>redis := r\<rparr>)) d w +
       (if b = d \<and> sint x = w then unat toks else 0) = used E s d w"
proof -
  obtain b toks x where lot: "l ! k = (b, toks, x)" by (cases "l ! k") auto
  show ?thesis
  proof (rule that [OF lot _ _ refl])
    show "toks \<noteq> 0" using well_formed_lots [OF wf c(1)] lot nth_mem [OF c(2)] by (auto simp: lots_ok_def)
    show "step_return E ops n i k l s = set_cleaner i (Returning (take k l @ drop (Suc k) l))
        (s\<lparr>redis := snd (cache_release ops n (redis s) (server_time E s) b toks x)\<rparr>)"
      using lot by (simp add: step_return_def)
    fix r d w
    let ?c = "Returning (take k l @ drop (Suc k) l)"
    show "used E (set_cleaner i ?c (s\<lparr>redis := r\<rparr>)) d w + (if b = d \<and> sint x = w then unat toks else 0) =
        used E s d w"
      using used_set_cleaner [of i E ?c "s\<lparr>redis := r\<rparr>" d w] well_formed_cleaner [OF wf c(1)] c(1)
        in_lots_remove [OF c(2) lot, of d w] by simp
  qed
qed

lemma return_effect:
  assumes bal: "balanced E live s" and E: "env_ok E" and wf: "well_formed E s"
    and c: "cleaners s i = Returning l" and k: "k < length l"
  shows "balanced E live (step_return E ops n i k l s) \<and>
    (\<forall>d. map_option snd (window_of live (redis (step_return E ops n i k l s)) (server_time E s) d) =
         map_option snd (window_of live (redis s) (server_time E s) d)) \<and>
    (\<forall>d w. used E (step_return E ops n i k l s) d w \<le> used E s d w) \<and>
    (\<forall>d w. rem_in (window_of live (redis (step_return E ops n i k l s)) (server_time E s) d) w +
         used E (step_return E ops n i k l s) d w \<le>
         rem_in (window_of live (redis s) (server_time E s) d) w + used E s d w)"
proof -
  let ?t = "server_time E s"
  let ?W = "window_of live (redis s) ?t"
  let ?c = "Returning (take k l @ drop (Suc k) l)"
  obtain b toks x r' where n0: "toks \<noteq> 0"
    and step: "step_return E ops n i k l s = set_cleaner i ?c (s\<lparr>redis := r'\<rparr>)"
    and r': "r' = snd (cache_release ops n (redis s) ?t b toks x)"
    and used: "\<And>r d w. used E (set_cleaner i ?c (s\<lparr>redis := r\<rparr>)) d w +
       (if b = d \<and> sint x = w then unat toks else 0) = used E s d w"
    by (rule returned_by [OF wf c k, of n]) (rule that)
  have ok: "counters_ok live (redis s) ?t"
    and lim: "\<And>b w. rem_in (?W b) w + used E s b w \<le> limit E b"
    and past: "\<And>b w. used E s b w \<noteq> 0 \<Longrightarrow> 0 \<le> w \<and> w \<le> latest live (redis s) ?t b"
    using bal by (auto simp: balanced_def)
  have u: "unat toks \<le> used E s b (sint x)" using used [of "redis s" b "sint x"] by simp
  from return_fits [OF bal E wf u n0] have x: "0 \<le> sint x" "exact (sint x)"
    and room: "rem_in (?W b) (sint x) + unat toks \<le> 2 ^ 53" by auto
  obtain res r1 where rel: "cache_release ops Delivered (redis s) ?t b toks x = (res, r1)" by fastforce
  obtain w where ok1: "counters_ok live r1 ?t" and win: "window_of live r1 ?t = ?W(b := w)"
    and rem: "\<And>y. rem_in w y \<le> rem_in (?W b) y + (if y = sint x then unat toks else 0)"
    and shape: "?W b = None \<Longrightarrow> w = None" "\<And>k e. ?W b = Some (k, e) \<Longrightarrow> \<exists>k'. w = Some (k', e)"
    by (rule svc.release_accounts [OF ok x room rel]) (rule that)
  have delivered: "balanced E live (set_cleaner i ?c (s\<lparr>redis := r1\<rparr>))"
  proof -
    let ?s = "set_cleaner i ?c (s\<lparr>redis := r1\<rparr>)"
    have "rem_in (window_of live r1 ?t d) y + used E ?s d y \<le> limit E d" for d y
      using lim [of d y] used [of r1 d y] rem [of y] win by (cases "d = b") (auto split: if_splits)
    moreover have "latest live r1 ?t d = latest live (redis s) ?t d" for d
      using win shape by (cases "d = b"; cases "?W b") (auto simp: latest_def split: option.splits)
    moreover have "used E s d y \<noteq> 0" if "used E ?s d y \<noteq> 0" for d y using that used [of r1 d y] by linarith
    ultimately show ?thesis using ok1 past by (simp add: balanced_def) blast
  qed
  have lost: "balanced E live (set_cleaner i ?c (s\<lparr>redis := redis s\<rparr>))"
    using used [of "redis s"] by (intro balanced_le [OF bal]) (simp_all, metis le_add1)
  have ends: "map_option snd (window_of live r1 ?t d) = map_option snd (?W d)" for d
    using win shape by (cases "d = b"; cases "?W b") (auto split: option.splits)
  have less: "used E (set_cleaner i ?c (s\<lparr>redis := r'\<rparr>)) d w \<le> used E s d w" for d w
    using used [of r' d w] by linarith
  have "rem_in (window_of live r1 ?t d) w + used E (set_cleaner i ?c (s\<lparr>redis := r1\<rparr>)) d w \<le>
      rem_in (?W d) w + used E s d w" for d w
    using used [of r1 d w] rem [of w] win by (cases "d = b") (auto split: if_splits)
  moreover have "rem_in (?W d) w + used E (set_cleaner i ?c (s\<lparr>redis := redis s\<rparr>)) d w \<le>
      rem_in (?W d) w + used E s d w" for d w
    using used [of "redis s" d w] by simp
  moreover have "r' \<in> {redis s, r1}"
    using cache_release_net [of ops n "redis s" ?t b toks x] rel by (simp add: r')
  ultimately show ?thesis using step delivered lost ends less by auto
qed

lemma balanced_return:
  assumes "balanced E live s" and "env_ok E" and "well_formed E s"
    and "cleaners s i = Returning l" and "k < length l"
  shows "balanced E live (step_return E ops n i k l s)"
  using return_effect [OF assms] by blast

end

text \<open>An instance does not spend from a bucket that its shutdown has come past.\<close>
definition quiet :: "'r sys \<Rightarrow> event \<Rightarrow> bool" where
  "quiet s e = (case e of
     Spend p \<Rightarrow> (case tasks s p of Some (Task i b k) \<Rightarrow> \<not> visited s i b | None \<Rightarrow> True)
   | _ \<Rightarrow> True)"

definition quiet_fire :: "env \<Rightarrow> 'r redis_ops \<Rightarrow> event \<Rightarrow> 'r sys \<Rightarrow> 'r sys option" where
  "quiet_fire E ops e s = (if quiet s e then fire E ops e s else None)"

definition booted ::
    "env \<Rightarrow> ('r \<Rightarrow> int \<Rightarrow> string \<Rightarrow> (string \<times> int option) option) \<Rightarrow> 'r sys \<Rightarrow> bool" where
  "booted E live s \<longleftrightarrow>
     (\<exists>t r. s = boot E t r \<and> t \<le> horizon E \<and> counters_ok live r (server_time E s) \<and>
        (\<forall>b w. rem_in (window_of live r (server_time E s) b) w \<le> limit E b))"

text \<open>Every step but a call to Redis leaves Redis alone and creates no tokens.\<close>

lemma quiet_step_used:
  assumes wf: "well_formed E s" and e: "fire E ops e s = Some t" and q: "quiet s e"
    and "\<forall>p n. e \<noteq> Serve p n" and "\<forall>i k n. e \<noteq> Return i k n"
  shows "redis t = redis s \<and> clock s \<le> clock t \<and> used E t b w \<le> used E s b w"
proof -
  note task = well_formed_task [OF wf]
  note cleaner = well_formed_cleaner [OF wf]
  have lots: "used E (set_cleaner i c s) b w \<le> used E s b w"
    if "i < n_insts E" "lots c = lots (cleaners s i)" for i c
    using used_set_cleaner_eq [OF that] by simp
  have reply: "used E (step_reply E gap p i c u res s) b w \<le> used E s b w"
    if "tasks s p = Some (Task i c (Replied u res))" for gap p i c u res
    using used_reply [OF that, of E gap b w] task [OF that] by simp
  show ?thesis
  proof (cases e)
    case Spend then show ?thesis using e q
      by (auto simp: fire_iff quiet_def dest: task intro!: used_spend)
  next
    case Cancel
    have "in_reply Cancelled w = 0" for w by simp
    then show ?thesis using Cancel e by (auto simp: fire_iff dest: task intro!: used_goto_le)
  qed (use e assms(4,5) cleaner in \<open>auto simp: fire_iff has_cleaner_def dest: task
      intro!: used_goto_le lots reply used_entering used_sweep used_visit used_crash\<close>)
qed

context redis_server
begin

lemma balanced_step:
  assumes bal: "balanced E live s" and E: "env_ok E" and wf: "well_formed E s"
    and e: "fire E ops e s = Some t" and q: "quiet s e"
  shows "balanced E live t"
proof -
  have other: "balanced E live t" if "\<forall>p n. e \<noteq> Serve p n" "\<forall>i k n. e \<noteq> Return i k n"
  proof (rule balanced_le)
    show "balanced E live (s\<lparr>clock := clock t\<rparr>)"
      using quiet_step_used [OF wf e q that] by (intro balanced_clock [OF bal]) simp
  qed (use quiet_step_used [OF wf e q that] in simp_all)
  show ?thesis
  proof (cases e)
    case Serve then show ?thesis using e by (auto simp: fire_iff intro: balanced_serve [OF bal E wf])
  next
    case Return then show ?thesis using e by (auto simp: fire_iff intro: balanced_return [OF bal E wf])
  qed (rule other; simp)+
qed

end

section \<open>Every deployment\<close>

locale deployment = redis_server ops live
  for ops :: "'r redis_ops" and live +
  fixes E :: env
  assumes env: "env_ok E"

sublocale deployment \<subseteq> accounts: invariant_system
  "booted E live" "fires (quiet_fire E ops)" "\<lambda>s. well_formed E s \<and> balanced E live s"
proof (unfold_locales, goal_cases)
  case (1 s)
  then obtain t r where s: "s = boot E t r" "t \<le> horizon E" "counters_ok live r (server_time E s)"
    "\<And>b w. rem_in (window_of live r (server_time E s) b) w \<le> limit E b"
    by (auto simp: booted_def)
  have "used E s b w = 0" for b w by (simp add: s(1) used_def boot_def held_def store_new_def)
  then show ?case using s well_formed_boot by (simp add: balanced_def boot_def server_time_def)
next
  case (2 s t)
  then show ?case
    using well_formed_step balanced_step [OF _ env]
    by (auto simp: fires_def quiet_fire_def split: if_splits)
qed

context deployment
begin

lemma conserved:
  "reach (booted E live) (fires (quiet_fire E ops)) s \<Longrightarrow>
   rem_in (window_of live (redis s) (server_time E s) b) w + used E s b w \<le> limit E b"
  using accounts.reach_inv by (auto simp: balanced_def)

end

section \<open>Properties\<close>

lemma sample_env_ok: "env_ok sample_env"
  by (simp add: env_ok_def sample_env_def valid_config_def valid_policy_def small_config_def)

interpretation sample: deployment mem_ops mem_live sample_env
  by unfold_locales (rule sample_env_ok)

lemma sample_booted: "booted sample_env mem_live (boot sample_env 0 (\<lambda>_. None))"
  by (auto simp: booted_def counters_ok_def window_of_def mem_live_def boot_def server_time_def
      sample_env_def intro!: exI [of _ 0])

text \<open>
  C1. No over-spending. For every Redis with the documented behaviour, any number of instances
  and concurrent requests, any clock skew, any interleaving, lost calls and replies,
  cancellations, cleanup ticks, shutdowns and crashes: the tokens of a window that are still in
  Redis, in local buckets that no shutdown has come past, in replies on their way, on their way
  back to Redis, or spent never exceed the quota together. The one restriction is
  \<open>quiet_fire\<close>: an instance does not spend from a bucket that its shutdown has come
  past. The tokens of such a bucket stay in it, but are given back, and are counted on their way
  back and in Redis.
\<close>

theorem no_over_spend:
  assumes "redis_server ops live" and "env_ok E"
    and "reach (booted E live) (fires (quiet_fire E ops)) s"
  shows "rem_in (window_of live (redis s) (server_time E s) b) w +
     (\<Sum>i \<in> {i. i < n_insts E \<and> \<not> visited s i b}. in_bucket (buckets (stores s i) b) w) +
     (\<Sum>p<n_tasks E. in_task (tasks s p) b w) +
     (\<Sum>i<n_insts E. in_lots (lots (cleaners s i)) b w) + spent s b w
   \<le> unat (quota (policy_for (conf E) b))"
proof -
  have "deployment ops live E"
    using assms(1,2) by (simp add: deployment_def deployment_axioms_def)
  from deployment.conserved [OF this assms(3), of b w] show ?thesis
    by (simp add: used_eq limit_def)
qed

text \<open>One request that leases two of the three tokens and takes one of them.\<close>

lemma sample_run_ends:
  "\<exists>s. run (quiet_fire sample_env mem_ops) sample_run (boot sample_env 0 (\<lambda>_. None)) = Some s \<and>
     spent s (Protected ''u'') 60000 = 1"
  by (simp add: sample_run_def quiet_fire_def quiet_def fire_eval sample_env_def small_config_def)

theorem no_over_spend_witness:
  "\<exists>s. run (quiet_fire sample_env mem_ops) sample_run (boot sample_env 0 (\<lambda>_. None)) = Some s \<and>
     spent s (Protected ''u'') 60000 = 1 \<and>
     rem_in (window_of mem_live (redis s) (server_time sample_env s) (Protected ''u'')) 60000 +
     (\<Sum>i \<in> {i. i < n_insts sample_env \<and> \<not> visited s i (Protected ''u'')}.
        in_bucket (buckets (stores s i) (Protected ''u'')) 60000) + 1 \<le> 3"
proof -
  obtain s where s: "run (quiet_fire sample_env mem_ops) sample_run (boot sample_env 0 (\<lambda>_. None)) = Some s"
    "spent s (Protected ''u'') 60000 = 1" using sample_run_ends by blast
  have "reach (booted sample_env mem_live) (fires (quiet_fire sample_env mem_ops)) s"
    by (rule reach_run [OF reach_start s(1)]) (rule sample_booted)
  from no_over_spend [OF mem.redis_server_axioms sample_env_ok this, of "Protected ''u''" 60000] s
  show ?thesis by (auto simp: sample_env_def small_config_def)
qed

end
