(* ===== verification/Flight.thy ===== *)
theory Flight
  imports Safety
begin

text \<open>
  Who refills a bucket and who is woken. The entry of \<open>refills\<close> gives each bucket of an instance at most
  one leasing request at a time; the invariant is \<open>single_flight\<close>. And a request that asks for
  \<open>notified()\<close> after \<open>notify_waiters()\<close> waits for good (\<open>stranded\<close>).
\<close>

section \<open>Effects of the steps on the protocol\<close>

lemma steps_tasks [simp]:
  "tasks (step_check E p i b s) = (tasks s)(p \<mapsto> Task i b
     (case check (local_time E s i) (stores s i) b of
        Inl e \<Rightarrow> Finished (Inl e) | Inr r \<Rightarrow> if r then Spending else Entering))"
  "tasks (step_enter p i b s) = (tasks s)(p \<mapsto> Task i b
     (case refills (stores s i) b of Some m \<Rightarrow> Subscribing m | None \<Rightarrow> Calling))"
  "tasks (step_unlock p i b out s) =
     (tasks s)(p \<mapsto> Task i b (Notifying (refills (stores s i) b) out))"
  "tasks (step_notify p i b m out s) =
     (tasks s)(p \<mapsto> Task i b (case out of Inl e \<Rightarrow> Finished (Inl e) | Inr _ \<Rightarrow> Spending))"
  "tasks (step_spend E p i b s) = (tasks s)(p \<mapsto> Task i b
     (case fst (spend (local_time E s i) (stores s i) b) of
        Inl _ \<Rightarrow> Removing | Inr left \<Rightarrow> Finished (Inr left)))"
  "tasks (step_remove p i b s) = (tasks s)(p \<mapsto> Task i b (Finished (Inr 0)))"
  "tasks (step_visit E i b x l s) = tasks s"
  "tasks (step_return E ops n i k l s) = tasks s"
  by (auto simp: step_check_def step_enter_def step_unlock_def step_notify_def step_spend_def
      step_remove_def step_visit_def step_return_def begin_refill_def end_refill_def
      split: sum.split bool.split option.split prod.split)

text \<open>What a call is answered, and what becomes of the answer.\<close>

definition served ::
    "env \<Rightarrow> 'r redis_ops \<Rightarrow> net \<Rightarrow> nat \<Rightarrow> bucket_id \<Rightarrow> 'r sys \<Rightarrow> cache_error + u64 \<times> u64 \<times> i64" where
  "served E ops n i b s =
     (let q = policy_for (cfg (stores s i)) b
      in fst (lease_request ops n (redis s) (server_time E s) b (lease_size q) (quota q) (reset_in q)))"

definition applied ::
    "env \<Rightarrow> nat \<Rightarrow> nat \<Rightarrow> bucket_id \<Rightarrow> instant \<Rightarrow> cache_error + u64 \<times> u64 \<times> i64 \<Rightarrow> 'r sys \<Rightarrow> store_error + unit" where
  "applied E gap i b u res s =
     fst (apply_lease (local_time E (s\<lparr>clock := clock s + gap\<rparr>) i) (stores s i) b
            (lease_answer u (local_time E s i) res))"

lemma calls_tasks [simp]:
  "tasks (step_serve E ops n p i b u s) = (tasks s)(p \<mapsto> Task i b (Replied u (served E ops n i b s)))"
  "tasks (step_reply E gap p i b u res s) = (tasks s)(p \<mapsto> Task i b (Unlocking (applied E gap i b u res s)))"
  by (simp_all add: step_serve_def served_def step_reply_def applied_def Let_def split: prod.split)

lemma steps_cleaners [simp]:
  "cleaners (step_check E p i b s) = cleaners s" "visited (step_check E p i b s) = visited s"
  "cleaners (step_enter p i b s) = cleaners s" "visited (step_enter p i b s) = visited s"
  "cleaners (step_serve E ops n p i b u s) = cleaners s" "visited (step_serve E ops n p i b u s) = visited s"
  "cleaners (step_reply E gap p i b u res s) = cleaners s" "visited (step_reply E gap p i b u res s) = visited s"
  "cleaners (step_unlock p i b out s) = cleaners s" "visited (step_unlock p i b out s) = visited s"
  "cleaners (step_notify p i b m out s) = cleaners s" "visited (step_notify p i b m out s) = visited s"
  "cleaners (step_spend E p i b s) = cleaners s" "visited (step_spend E p i b s) = visited s"
  "cleaners (step_remove p i b s) = cleaners s" "visited (step_remove p i b s) = visited s"
  by (simp_all add: step_check_def step_enter_def step_serve_def step_reply_def step_unlock_def
      step_notify_def step_spend_def step_remove_def Let_def split: sum.split bool.split prod.split)

text \<open>The request an event is a step of. Its task moves, no other does.\<close>
fun request_of :: "event \<Rightarrow> nat option" where
  "request_of (Check p) = Some p" | "request_of (Enter p) = Some p" | "request_of (Subscribe p) = Some p"
| "request_of (Wake p) = Some p" | "request_of (Call p) = Some p" | "request_of (Serve p n) = Some p"
| "request_of (Reply p gap) = Some p" | "request_of (Unlock p) = Some p" | "request_of (Notify p) = Some p"
| "request_of (Spend p) = Some p" | "request_of (Remove p) = Some p" | "request_of (Cancel p) = Some p"
| "request_of _ = None"

lemma own_tasks:
  assumes "fire E ops e s = Some t" and "request_of e = Some q"
  shows "\<exists>i b k l. tasks s q = Some (Task i b k) \<and> tasks t = (tasks s)(q \<mapsto> Task i b l)"
  using assms by (cases e) (auto simp: fire_iff)

lemma others_keep:
  assumes "fire E ops e s = Some t" and "request_of e \<noteq> Some p" and "e \<noteq> Crash i"
    and "tasks s p = Some (Task i b k)"
  shows "tasks t p = Some (Task i b k)"
proof (cases "request_of e")
  case None
  then show ?thesis using assms by (cases e) (auto simp: fire_iff step_crash_def)
next
  case (Some q)
  then show ?thesis using own_tasks [OF assms(1) Some] assms(2,4) by auto
qed

lemma task_was:
  assumes "tasks t p = Some (Task i b k)" and "fire E ops e s = Some t" and "request_of e \<noteq> Some p"
    and "k \<noteq> Checking"
  shows "tasks s p = Some (Task i b k) \<and> e \<noteq> Crash i"
proof (cases "tasks s p")
  case None
  show ?thesis
  proof (cases "request_of e")
    case None
    then show ?thesis using assms \<open>tasks s p = None\<close>
      by (cases e) (auto simp: fire_iff step_crash_def split: if_splits)
  next
    case (Some q)
    then show ?thesis using own_tasks [OF assms(2) Some] assms \<open>tasks s p = None\<close> by (auto split: if_splits)
  qed
next
  case (Some x)
  then obtain j c l where x: "tasks s p = Some (Task j c l)" by (cases x) auto
  show ?thesis
  proof (cases "e = Crash j")
    case True
    then show ?thesis using assms x by (auto simp: fire_iff step_crash_def)
  next
    case False
    then show ?thesis using others_keep [OF assms(2,3) False x] assms(1) x by simp
  qed
qed

lemma spend_refills_eq: "spend now st b = (out, st') \<Longrightarrow> refills st' = refills st"
  by (auto simp: spend_def split: option.splits prod.splits if_splits)

lemma apply_lease_refills_eq: "apply_lease now st b a = (out, st') \<Longrightarrow> refills st' = refills st"
  by (metis apply_lease_refills snd_conv)

lemma steps_refills [simp]:
  "refills (stores (step_check E p i b s) j) = refills (stores s j)"
  "refills (stores (step_serve E ops n p i b u s) j) = refills (stores s j)"
  "refills (stores (step_reply E gap p i b u res s) j) = refills (stores s j)"
  "refills (stores (step_notify p i b m out s) j) = refills (stores s j)"
  "refills (stores (step_spend E p i b s) j) = refills (stores s j)"
  "refills (stores (step_remove p i b s) j) = refills (stores s j)"
  "refills (stores (step_visit E i b x l s) j) = refills (stores s j)"
  "refills (stores (step_return E ops n i k l s) j) = refills (stores s j)"
  "refills (remove_bucket st b) = refills st"
proof -
  show "refills (stores (step_check E p i b s) j) = refills (stores s j)"
    "refills (stores (step_serve E ops n p i b u s) j) = refills (stores s j)"
    "refills (stores (step_notify p i b m out s) j) = refills (stores s j)"
    "refills (stores (step_remove p i b s) j) = refills (stores s j)"
    "refills (stores (step_visit E i b x l s) j) = refills (stores s j)"
    "refills (stores (step_return E ops n i k l s) j) = refills (stores s j)"
    "refills (remove_bucket st b) = refills st"
    by (auto simp: step_check_def step_serve_def step_notify_def step_remove_def step_visit_def
        step_return_def remove_bucket_def Let_def split: sum.split bool.split prod.split)
  show "refills (stores (step_reply E gap p i b u res s) j) = refills (stores s j)"
    by (auto simp: step_reply_def Let_def apply_lease_refills_eq split: prod.split)
  show "refills (stores (step_spend E p i b s) j) = refills (stores s j)"
    by (auto simp: step_spend_def spend_refills_eq split: prod.split sum.split)
qed

lemma step_enter_refills:
  "refills (stores (step_enter p i b s) j) =
     (if j = i \<and> refills (stores s i) b = None then (refills (stores s i))(b \<mapsto> fresh s)
      else refills (stores s j))"
  by (auto simp: step_enter_def begin_refill_def split: option.split)

lemma step_unlock_refills:
  "refills (stores (step_unlock p i b out s) j) =
     (if j = i then (refills (stores s i))(b := None) else refills (stores s j))"
  by (auto simp: step_unlock_def end_refill_def)

section \<open>Single flight\<close>

text \<open>The request that holds the refill entry of its bucket.\<close>
fun holds :: "pc \<Rightarrow> bool" where
  "holds Calling \<longleftrightarrow> True"
| "holds (Leasing u) \<longleftrightarrow> True"
| "holds (Replied u res) \<longleftrightarrow> True"
| "holds (Unlocking out) \<longleftrightarrow> True"
| "holds _ \<longleftrightarrow> False"

lemma not_holds [simp]:
  "\<not> holds (case c of Inl e \<Rightarrow> Finished (Inl e) | Inr r \<Rightarrow> if r then Spending else Entering)"
  "\<not> holds (case o' of Inl e \<Rightarrow> Finished (Inl e) | Inr _ \<Rightarrow> Spending)"
  "\<not> holds (case l of Inl _ \<Rightarrow> Removing | Inr left \<Rightarrow> Finished (Inr left))"
  by (simp_all split: sum.split)

definition holder :: "'r sys \<Rightarrow> nat \<Rightarrow> nat \<Rightarrow> bucket_id \<Rightarrow> bool" where
  "holder s p i b \<longleftrightarrow> (\<exists>k. tasks s p = Some (Task i b k) \<and> holds k)"

definition single_flight :: "'r sys \<Rightarrow> bool" where
  "single_flight s \<longleftrightarrow>
     (\<forall>p i b. holder s p i b \<longrightarrow>
        refills (stores s i) b \<noteq> None \<and> (\<forall>q. holder s q i b \<longrightarrow> q = p))"

lemma holder_upd:
  "tasks t = (tasks s)(p \<mapsto> Task i b k) \<Longrightarrow>
   holder t q j c \<longleftrightarrow> (if q = p then j = i \<and> c = b \<and> holds k else holder s q j c)"
  by (auto simp: holder_def)

lemma single_flight_keep:
  assumes "single_flight s" and "\<And>q j c. holder t q j c \<Longrightarrow> holder s q j c"
    and "\<And>j. refills (stores t j) = refills (stores s j)"
  shows "single_flight t"
  using assms(1) unfolding single_flight_def assms(3) by (meson assms(2))

lemma single_flight_goto:
  assumes "single_flight s" and "tasks t = (tasks s)(p \<mapsto> Task i b k)" and "holds k \<Longrightarrow> holder s p i b"
    and "\<And>j. refills (stores t j) = refills (stores s j)"
  shows "single_flight t"
  by (rule single_flight_keep [OF assms(1) _ assms(4)])
    (use assms(3) in \<open>simp add: holder_upd [OF assms(2)] split: if_splits\<close>)

lemma single_flight_enter:
  assumes "single_flight s"
  shows "single_flight (step_enter p i b s)"
proof (cases "refills (stores s i) b")
  case None
  then have free: "\<not> holder s q i b" for q using assms None by (metis single_flight_def)
  have t: "tasks (step_enter p i b s) = (tasks s)(p \<mapsto> Task i b Calling)" using None by simp
  show ?thesis
    using assms free None unfolding single_flight_def holder_upd [OF t] step_enter_refills by auto
next
  case (Some m)
  then show ?thesis
    by (intro single_flight_goto [OF assms, of _ p i b "Subscribing m"]) (simp_all add: step_enter_refills)
qed

lemma single_flight_unlock:
  assumes "single_flight s" and "holder s p i b"
  shows "single_flight (step_unlock p i b out s)"
proof -
  have only: "q = p" if "holder s q i b" for q using assms that by (auto simp: single_flight_def)
  have t: "tasks (step_unlock p i b out s) =
      (tasks s)(p \<mapsto> Task i b (Notifying (refills (stores s i) b) out))" by simp
  show ?thesis
    using assms(1) only unfolding single_flight_def holder_upd [OF t] step_unlock_refills by auto
qed

lemma single_flight_step:
  assumes s: "single_flight s" and e: "fire E ops e s = Some t"
  shows "single_flight t"
proof -
  note goto = single_flight_goto [OF s]
  note keep = single_flight_keep [OF s]
  show ?thesis
  proof (cases e)
    case (Enter p) then show ?thesis using e by (auto simp: fire_iff intro: single_flight_enter [OF s])
  next
    case (Unlock p) then show ?thesis using e
      by (auto simp: fire_iff holder_def intro!: single_flight_unlock [OF s])
  next
    case (Serve p n)
    then show ?thesis using e by (auto simp: fire_iff holder_def intro!: goto [where p = p])
  next
    case (Reply p gap)
    then show ?thesis using e by (auto simp: fire_iff holder_def intro!: goto [where p = p])
  next
    case (Call p)
    then show ?thesis using e
      by (auto simp: fire_iff holder_def intro!: goto [where p = p])
  next
    case (Check p)
    then show ?thesis using e
      by (auto simp: fire_iff intro!: goto [where p = p])
  next
    case (Notify p)
    then show ?thesis using e
      by (auto simp: fire_iff intro!: goto [where p = p])
  next
    case (Spend p)
    then show ?thesis using e
      by (auto simp: fire_iff intro!: goto [where p = p])
  next
    case (Remove p)
    then show ?thesis using e by (auto simp: fire_iff intro!: goto [where p = p])
  next
    case (Crash i)
    have "holder t q j c \<Longrightarrow> j \<noteq> i \<and> holder s q j c" for q j c
      using Crash e by (auto simp: fire_iff step_crash_def holder_def split: option.splits task.splits if_splits)
    moreover have "refills (stores t j) = refills (stores s j)" if "j \<noteq> i" for j
      using that Crash e by (simp add: fire_iff step_crash_def)
    ultimately show ?thesis using s unfolding single_flight_def by metis
  qed (use e in \<open>auto simp: fire_iff holder_def intro!: keep split: if_splits\<close>)
qed

section \<open>Isolation\<close>

text \<open>A step of a request touches no bucket and no refill entry but its own.\<close>

lemma apply_lease_other:
  "apply_lease now st c a = (out, st') \<Longrightarrow> b \<noteq> c \<Longrightarrow> buckets st' b = buckets st b"
  by (auto simp: apply_lease_def split: sum.splits option.splits prod.splits if_splits)

lemma spend_other: "spend now st c = (out, st') \<Longrightarrow> b \<noteq> c \<Longrightarrow> buckets st' b = buckets st b"
  by (auto simp: spend_def split: option.splits prod.splits if_splits)

lemma steps_buckets [simp]:
  "buckets (stores (step_check E p j c s) i) = buckets (stores s i)"
  "buckets (stores (step_enter p j c s) i) = buckets (stores s i)"
  "buckets (stores (step_serve E ops n p j c u s) i) = buckets (stores s i)"
  "buckets (stores (step_unlock p j c out s) i) = buckets (stores s i)"
  "buckets (stores (step_notify p j c m out s) i) = buckets (stores s i)"
  "buckets (stores (step_visit E j c x l s) i) = buckets (stores s i)"
  "buckets (stores (step_return E ops n j k l s) i) = buckets (stores s i)"
proof -
  show "buckets (stores (step_check E p j c s) i) = buckets (stores s i)"
    by (simp add: step_check_def split: sum.split bool.split)
  show "buckets (stores (step_enter p j c s) i) = buckets (stores s i)"
    by (cases "refills (stores s j) c") (simp_all add: step_enter_def begin_refill_def)
  show "buckets (stores (step_serve E ops n p j c u s) i) = buckets (stores s i)"
    by (simp add: step_serve_def Let_def split: prod.split)
  show "buckets (stores (step_unlock p j c out s) i) = buckets (stores s i)"
    by (auto simp: step_unlock_def end_refill_def)
  show "buckets (stores (step_notify p j c m out s) i) = buckets (stores s i)"
    "buckets (stores (step_visit E j c x l s) i) = buckets (stores s i)"
    by (simp_all add: step_notify_def step_visit_def)
  show "buckets (stores (step_return E ops n j k l s) i) = buckets (stores s i)"
    by (simp add: step_return_def split: prod.split)
qed

lemma steps_other_bucket:
  assumes "(j, c) \<noteq> (i, b)"
  shows "buckets (stores (step_reply E gap p j c u res s) i) b = buckets (stores s i) b"
    "buckets (stores (step_spend E p j c s) i) b = buckets (stores s i) b"
    "buckets (stores (step_remove p j c s) i) b = buckets (stores s i) b"
    "refills (stores (step_enter p j c s) i) b = refills (stores s i) b"
    "refills (stores (step_unlock p j c out s) i) b = refills (stores s i) b"
proof -
  show "buckets (stores (step_reply E gap p j c u res s) i) b = buckets (stores s i) b"
    using assms by (auto simp: step_reply_def Let_def apply_lease_other split: prod.split)
  show "buckets (stores (step_spend E p j c s) i) b = buckets (stores s i) b"
    using assms by (auto simp: step_spend_def spend_other split: prod.split sum.split)
  show "buckets (stores (step_remove p j c s) i) b = buckets (stores s i) b"
    using assms by (auto simp: step_remove_def remove_bucket_def)
  show "refills (stores (step_enter p j c s) i) b = refills (stores s i) b"
    "refills (stores (step_unlock p j c out s) i) b = refills (stores s i) b"
    using assms by (auto simp: step_enter_refills step_unlock_refills)
qed

text \<open>A step of a request changes no bucket and no refill entry but those of its own bucket at its own instance.\<close>

lemma requests_are_isolated:
  assumes "fire E ops e s = Some t" and "request_of e = Some p" and "tasks s p = Some (Task j c k)"
    and "(j, c) \<noteq> (i, b)"
  shows "buckets (stores t i) b = buckets (stores s i) b \<and> refills (stores t i) b = refills (stores s i) b"
  using assms steps_other_bucket [OF assms(4)] by (cases e) (auto simp: fire_iff)

section \<open>A notify nobody will call\<close>

definition stranded :: "notify \<Rightarrow> 'r sys \<Rightarrow> bool" where
  "stranded n s \<longleftrightarrow> n < fresh s \<and> (\<forall>i b. refills (stores s i) b \<noteq> Some n) \<and>
     (\<forall>p i b m out. tasks s p = Some (Task i b (Notifying m out)) \<longrightarrow> m \<noteq> Some n)"

lemma steps_calls [simp]:
  "calls (step_check E p i b s) = calls s" "calls (step_enter p i b s) = calls s"
  "calls (step_serve E ops n p i b u s) = calls s" "calls (step_unlock p i b out s) = calls s"
  "calls (step_reply E gap p i b u res s) = calls s" "calls (step_spend E p i b s) = calls s"
  "calls (step_remove p i b s) = calls s" "calls (step_visit E i b x l s) = calls s"
  "calls (step_return E ops n i k l s) = calls s" "calls (step_crash E i s) = calls s"
  "calls (step_notify p i b m out s) = calls (notify_waiters m s)"
  by (simp_all add: step_check_def step_enter_def step_serve_def step_unlock_def step_reply_def
      step_spend_def step_remove_def step_visit_def step_return_def step_crash_def step_notify_def Let_def
      split: sum.split bool.split prod.split)

lemma steps_fresh [simp]:
  "fresh (step_check E p i b s) = fresh s" "fresh (step_serve E ops n p i b u s) = fresh s"
  "fresh (step_unlock p i b out s) = fresh s" "fresh (step_reply E gap p i b u res s) = fresh s"
  "fresh (step_spend E p i b s) = fresh s" "fresh (step_remove p i b s) = fresh s"
  "fresh (step_visit E i b x l s) = fresh s" "fresh (step_return E ops n i k l s) = fresh s"
  "fresh (step_crash E i s) = fresh s" "fresh (step_notify p i b m out s) = fresh s"
  "fresh (step_enter p i b s) =
     (if refills (stores s i) b = None then Suc (fresh s) else fresh s)"
  by (simp_all add: step_check_def step_enter_def step_serve_def step_unlock_def step_reply_def
      step_spend_def step_remove_def step_visit_def step_return_def step_crash_def step_notify_def Let_def
      begin_refill_def split: sum.split bool.split prod.split option.split)

lemma not_notifying [simp]:
  "(case c of Inl e \<Rightarrow> Finished (Inl e) | Inr r \<Rightarrow> if r then Spending else Entering) \<noteq> Notifying m out"
  "(case o' of Inl e \<Rightarrow> Finished (Inl e) | Inr _ \<Rightarrow> Spending) \<noteq> Notifying m out"
  "(case l of Inl _ \<Rightarrow> Removing | Inr left \<Rightarrow> Finished (Inr left)) \<noteq> Notifying m out"
  by (simp_all split: sum.split)

lemma fresh_mono: "fire E ops e s = Some t \<Longrightarrow> fresh s \<le> fresh t"
  by (cases e) (auto simp: fire_iff)

lemma entry_new:
  assumes "fire E ops e s = Some t" and "refills (stores t i) b = Some n"
  shows "refills (stores s i) b = Some n \<or> n = fresh s"
  using assms
  by (cases e) (auto simp: fire_iff step_enter_refills step_unlock_refills step_crash_def store_new_def split: if_splits)

lemma notifier_was:
  assumes "fire E ops e s = Some t" and "tasks t p = Some (Task i b (Notifying (Some n) out))"
  shows "tasks s p = Some (Task i b (Notifying (Some n) out)) \<or> refills (stores s i) b = Some n"
proof (cases "request_of e = Some p")
  case False
  then show ?thesis using task_was [OF assms(2,1)] by simp
next
  case True
  then show ?thesis using assms
    by (cases e) (auto simp: fire_iff split: sum.splits option.splits if_splits)
qed

lemma stranded_step:
  assumes s: "stranded n s" and e: "fire E ops e s = Some t"
  shows "stranded n t \<and> calls t n = calls s n"
proof -
  have notify: "tasks s p \<noteq> Some (Task i b (Notifying (Some n) out))" for p i b out
    using s unfolding stranded_def by blast
  have "n < fresh t" using s fresh_mono [OF e] by (simp add: stranded_def)
  moreover have "refills (stores t i) b \<noteq> Some n" for i b
    using s entry_new [OF e, of i b n] by (auto simp: stranded_def)
  moreover have "m \<noteq> Some n" if "tasks t p = Some (Task i b (Notifying m out))" for p i b m out
    using s that notify notifier_was [OF e, of p i b n out] by (auto simp: stranded_def)
  moreover have "calls t n = calls s n"
    using e by (cases e) (auto simp: fire_iff notify notify_waiters_def split: option.split)
  ultimately show ?thesis unfolding stranded_def by blast
qed

text \<open>A request that waits is moved by nothing but a call of its notify, a cancellation, or a crash.\<close>

lemma stranded_run:
  assumes "stranded n s" "tasks s p = Some (Task i b (Waiting n (calls s n)))"
    and "Cancel p \<notin> set es" "Crash i \<notin> set es" and "run (fire E ops) es s = Some t"
  shows "tasks t p = Some (Task i b (Waiting n (calls s n)))"
proof -
  let ?I = "\<lambda>u. stranded n u \<and> calls u n = calls s n \<and> tasks u p = Some (Task i b (Waiting n (calls s n)))"
  have "?I t"
  proof (rule run_keeps [OF assms(5), of ?I])
    fix e u v
    assume e: "e \<in> set es" and u: "?I u" and v: "fire E ops e u = Some v"
    have "request_of e \<noteq> Some p" using u v e assms(3) by (cases e) (auto simp: fire_iff)
    then have "tasks v p = Some (Task i b (Waiting n (calls s n)))"
      by (rule others_keep [OF v]) (use u e assms(4) in auto)
    then show "?I v" using stranded_step [OF _ v] u by auto
  qed (use assms(1,2) in simp)
  then show ?thesis by simp
qed

section \<open>Properties\<close>

text \<open>A run may start with any time and any Redis.\<close>
definition starts :: "env \<Rightarrow> 'r sys \<Rightarrow> bool" where
  "starts E s \<longleftrightarrow> (\<exists>t r. s = boot E t r \<and> t \<le> horizon E)"

interpretation flight: invariant_system "starts E" "fires (fire E ops)" single_flight for E ops
proof (unfold_locales, goal_cases)
  case (1 s)
  then show ?case by (auto simp: starts_def boot_def single_flight_def holder_def)
next
  case (2 s t)
  then show ?case by (auto simp: fires_def intro: single_flight_step)
qed

interpretation shape: invariant_system "starts E" "fires (fire E ops)" "well_formed E" for E ops
  by unfold_locales (auto simp: starts_def fires_def intro: well_formed_boot well_formed_step)

text \<open>
  C16. Single flight: in every reachable state, at most one request of an instance is in the
  process of leasing for a bucket (from inserting the refill entry to removing it), and while one
  is, the entry is there.
\<close>

theorem one_request_leases:
  assumes "reach (starts E) (fires (fire E ops)) s"
    and "tasks s p = Some (Task i b k)" "holds k" and "tasks s q = Some (Task i b k')" "holds k'"
  shows "p = q \<and> (\<exists>m. refills (stores s i) b = Some m)"
proof -
  have "holder s p i b" "holder s q i b" using assms(2-5) by (auto simp: holder_def)
  then show ?thesis using flight.reach_inv [OF assms(1)] unfolding single_flight_def by (metis not_None_eq)
qed

lemma sample_starts: "starts sample_env (boot sample_env 0 r)"
  by (auto simp: starts_def sample_env_def)

definition two_requests :: "event list" where
  "two_requests = [Arrive 0 0 (Protected ''u''), Arrive 1 0 (Protected ''u''), Check 0, Check 1,
     Enter 0, Enter 1, Call 0]"

theorem one_request_leases_witness:
  "\<exists>s k. run (fire sample_env mem_ops) two_requests (boot sample_env 0 (\<lambda>_. None)) = Some s \<and>
     tasks s 0 = Some (Task 0 (Protected ''u'') k) \<and> holds k \<and>
     (\<forall>q k'. tasks s q = Some (Task 0 (Protected ''u'') k') \<longrightarrow> holds k' \<longrightarrow> 0 = q)"
proof -
  obtain s where s: "run (fire sample_env mem_ops) two_requests (boot sample_env 0 (\<lambda>_. None)) = Some s"
    "tasks s 0 = Some (Task 0 (Protected ''u'') (Leasing 0))"
    by (simp add: two_requests_def fire_eval sample_env_def small_config_def)
  have "reach (starts sample_env) (fires (fire sample_env mem_ops)) s"
    by (rule reach_run [OF reach_start s(1)]) (rule sample_starts)
  from one_request_leases [OF this s(2)] s show ?thesis by auto
qed

end
