(* ===== verification/Alone.thy ===== *)
theory Alone
  imports Flight
begin

text \<open>
  One request alone. The steps a request takes in the system, with time passing between them and
  no step of anything else in between, end exactly as \<open>Store.consume\<close> says for readings of the clocks
  that fit, and every such reading is that of some sequence of steps: the sections of the store and the steps of the
  system are one program.
\<close>

section \<open>Steps of one request\<close>

text \<open>Time passes or request \<open>p\<close> takes a step.\<close>
definition own :: "nat \<Rightarrow> event \<Rightarrow> bool" where
  "own p e \<longleftrightarrow> (\<exists>d. e = Tick d) \<or> request_of e = Some p"

text \<open>Readings of the clocks of instance \<open>i\<close> and of Redis in the order of the code, from \<open>lo\<close> to \<open>hi\<close>.\<close>
definition fits :: "env \<Rightarrow> nat \<Rightarrow> instant \<Rightarrow> instant \<Rightarrow> times \<Rightarrow> bool" where
  "fits E i lo hi tm \<longleftrightarrow>
     lo \<le> t_check tm \<and> t_check tm \<le> t_started tm \<and> t_started tm \<le> t_elapsed tm \<and>
     t_elapsed tm \<le> t_reply tm \<and> t_reply tm \<le> t_spend tm \<and> t_spend tm \<le> hi \<and>
     (\<exists>c. t_started tm \<le> c + skew E i \<and> c + skew E i \<le> t_elapsed tm \<and>
          t_server tm = int ((c + server_skew E) div 10 ^ 6))"

text \<open>The call of a request in the store \<open>st0\<close>.\<close>
definition leased :: "'r redis_ops \<Rightarrow> net \<Rightarrow> times \<Rightarrow> bucket_id \<Rightarrow> store \<Rightarrow> 'r
    \<Rightarrow> (cache_error + u64 \<times> u64 \<times> i64) \<times> 'r" where
  "leased ops n tm b st0 r0 =
     (let c = policy_for (cfg st0) b
      in lease_request ops n r0 (t_server tm) b (lease_size c) (quota c) (reset_in c))"

definition locked :: "store \<Rightarrow> bucket_id \<Rightarrow> store \<Rightarrow> bool" where
  "locked st0 b st \<longleftrightarrow> (\<exists>m. st = st0\<lparr>refills := (refills st0)(b \<mapsto> m)\<rparr>)"

text \<open>
  What holds at each program counter of a request that began with the store \<open>st0\<close> and Redis \<open>r0\<close>: its
  store and Redis are those that the sections of \<open>consume\<close> up to there make of them.
\<close>

fun stage :: "'r redis_ops \<Rightarrow> net \<Rightarrow> times \<Rightarrow> bucket_id \<Rightarrow> store \<Rightarrow> 'r \<Rightarrow> pc \<Rightarrow> store \<Rightarrow> 'r \<Rightarrow> bool" where
  "stage ops n tm b st0 r0 Checking st r \<longleftrightarrow> st = st0 \<and> r = r0"
| "stage ops n tm b st0 r0 Entering st r \<longleftrightarrow>
     check (t_check tm) st0 b = Inr False \<and> st = st0 \<and> r = r0"
| "stage ops n tm b st0 r0 Calling st r \<longleftrightarrow>
     check (t_check tm) st0 b = Inr False \<and> locked st0 b st \<and> r = r0"
| "stage ops n tm b st0 r0 (Leasing u) st r \<longleftrightarrow>
     check (t_check tm) st0 b = Inr False \<and> locked st0 b st \<and> r = r0 \<and> u = t_started tm"
| "stage ops n tm b st0 r0 (Replied u res) st r \<longleftrightarrow>
     check (t_check tm) st0 b = Inr False \<and> locked st0 b st \<and> leased ops n tm b st0 r0 = (res, r) \<and>
     u = t_started tm"
| "stage ops n tm b st0 r0 (Unlocking out) st r \<longleftrightarrow>
     (\<exists>st1. ensure_refilled ops n tm 0 st0 r0 b = Some (out, st1, r) \<and> refills st1 = refills st0 \<and>
            locked st1 b st)"
| "stage ops n tm b st0 r0 (Notifying m out) st r \<longleftrightarrow>
     ensure_refilled ops n tm 0 st0 r0 b = Some (out, st, r)"
| "stage ops n tm b st0 r0 Spending st r \<longleftrightarrow>
     ensure_refilled ops n tm 0 st0 r0 b = Some (Inr (), st, r)"
| "stage ops n tm b st0 r0 Removing st r \<longleftrightarrow>
     ensure_refilled ops n tm 0 st0 r0 b = Some (Inr (), st, r) \<and> spend (t_spend tm) st b = (Inl (), st)"
| "stage ops n tm b st0 r0 (Finished out) st r \<longleftrightarrow> consume ops n tm 0 st0 r0 b = Some (out, st, r)"
| "stage ops n tm b st0 r0 Cancelled st r \<longleftrightarrow> True"
| "stage ops n tm b st0 r0 _ st r \<longleftrightarrow> False"

lemma ensure_refilled_ready:
  "check (t_check tm) st0 b = Inr True \<Longrightarrow> ensure_refilled ops n tm 0 st0 r0 b = Some (Inr (), st0, r0)"
  "check (t_check tm) st0 b = Inl e \<Longrightarrow> ensure_refilled ops n tm 0 st0 r0 b = Some (Inl e, st0, r0)"
  by (simp_all add: ensure_refilled_def)

lemma ensure_refilled_leased:
  assumes "check (t_check tm) st0 b = Inr False" and "refills st0 b = None"
    and "leased ops n tm b st0 r0 = (res, r)"
    and "apply_lease (t_reply tm) st0 b (lease_answer (t_started tm) (t_elapsed tm) res) = (out, st1)"
  shows "ensure_refilled ops n tm 0 st0 r0 b = Some (out, st1, r)"
proof -
  have "cache_lease ops n r0 (t_server tm) (t_started tm) (t_elapsed tm) b
      (lease_size (policy_for (cfg st0) b)) (quota (policy_for (cfg st0) b))
      (reset_in (policy_for (cfg st0) b)) = (lease_answer (t_started tm) (t_elapsed tm) res, r)"
    using assms(3) by (simp add: cache_lease_def leased_def Let_def)
  from ensure_refilled_lease [OF assms(1,2) refl this] assms(4) show ?thesis by simp
qed

lemma consume_ends:
  "ensure_refilled ops n tm 0 st0 r0 b = Some (Inl e, st, r) \<Longrightarrow>
     consume ops n tm 0 st0 r0 b = Some (Inl e, st, r)"
  "ensure_refilled ops n tm 0 st0 r0 b = Some (Inr (), st, r) \<Longrightarrow>
   spend (t_spend tm) st b = (Inr left, st') \<Longrightarrow> consume ops n tm 0 st0 r0 b = Some (Inr left, st', r)"
  "ensure_refilled ops n tm 0 st0 r0 b = Some (Inr (), st, r) \<Longrightarrow>
   spend (t_spend tm) st b = (Inl u, st') \<Longrightarrow>
   consume ops n tm 0 st0 r0 b = Some (Inr 0, remove_bucket st' b, r)"
  by (simp_all add: consume_def)

text \<open>The readings not taken yet play no role.\<close>

lemma ensure_refilled_t_spend [simp]:
  "ensure_refilled ops n (tm\<lparr>t_spend := x\<rparr>) m st0 r0 b = ensure_refilled ops n tm m st0 r0 b"
proof -
  have "lease ops n (tm\<lparr>t_spend := x\<rparr>) st r0 b = lease ops n tm st r0 b" for st
    by (simp add: lease_def)
  then show ?thesis unfolding ensure_refilled_def by (simp only:) simp
qed

lemma leased_t_reply [simp]:
  "leased ops n (tm\<lparr>t_spend := x\<rparr>) b st0 r0 = leased ops n tm b st0 r0"
  "leased ops n (tm\<lparr>t_reply := x\<rparr>) b st0 r0 = leased ops n tm b st0 r0"
  "leased ops n (tm\<lparr>t_elapsed := x\<rparr>) b st0 r0 = leased ops n tm b st0 r0"
  by (simp_all add: leased_def)

section \<open>From steps to \<open>consume\<close>\<close>

text \<open>The request has been run to its program counter within the time that has passed.\<close>
definition followed :: "env \<Rightarrow> 'r redis_ops \<Rightarrow> nat \<Rightarrow> nat \<Rightarrow> bucket_id \<Rightarrow> instant \<Rightarrow> store \<Rightarrow> 'r \<Rightarrow> 'r sys \<Rightarrow> bool" where
  "followed E ops p i b lo st0 r0 s \<longleftrightarrow>
     clock s \<le> horizon E \<and> lo \<le> local_time E s i \<and>
     (\<exists>k n tm. tasks s p = Some (Task i b k) \<and> fits E i lo (local_time E s i) tm \<and>
        stage ops n tm b st0 r0 k (stores s i) (redis s))"

definition from_check :: "env \<Rightarrow> nat \<Rightarrow> 'r sys \<Rightarrow> instant \<Rightarrow> times" where
  "from_check E i s u = \<lparr>t_check = u, t_started = local_time E s i, t_server = server_time E s,
     t_elapsed = local_time E s i, t_reply = local_time E s i, t_spend = local_time E s i\<rparr>"

lemma fits_from_check: "lo \<le> u \<Longrightarrow> u \<le> local_time E s i \<Longrightarrow>
   fits E i lo (local_time E s i) (from_check E i s u)"
  unfolding fits_def from_check_def local_time_def server_time_def by auto


lemma followedI:
  assumes "clock s \<le> horizon E" "tasks s p = Some (Task i b k)" "fits E i lo (local_time E s i) tm"
    "stage ops n tm b st0 r0 k (stores s i) (redis s)"
  shows "followed E ops p i b lo st0 r0 s"
  using assms unfolding followed_def fits_def by (meson order_trans)

lemma local_time_frame [simp]:
  "local_time E (goto p i b k s) j = local_time E s j"
  "local_time E (set_store i st s) j = local_time E s j"
  "local_time E (s\<lparr>redis := r\<rparr>) j = local_time E s j"
  "local_time E (s\<lparr>fresh := f\<rparr>) j = local_time E s j"
  "local_time E (admit b s) j = local_time E s j"
  "local_time E (note_spent now st b s) j = local_time E s j"
  "local_time E (notify_waiters m s) j = local_time E s j"
  by (simp_all add: local_time_def note_spent_def notify_waiters_def admit_def
      split: option.split)

lemma locked_simps:
  "locked st0 b st \<Longrightarrow> cfg st = cfg st0"
  "locked st0 b st \<Longrightarrow> refills st0 b = None \<Longrightarrow> snd (end_refill st b) = st0"
  by (auto simp: locked_def end_refill_def fun_upd_idem)

lemma followed_check:
  assumes "followed E ops p i b lo st0 r0 s" and "fire E ops (Check p) s = Some t"
  shows "followed E ops p i b lo st0 r0 t"
proof -
  from assms have s: "tasks s p = Some (Task i b Checking)" "stores s i = st0" "redis s = r0"
    "clock s \<le> horizon E" "lo \<le> local_time E s i" and t: "t = step_check E p i b s"
    by (auto simp: followed_def fire_iff)
  let ?tm = "from_check E i s (local_time E s i)"
  have f: "fits E i lo (local_time E s i) ?tm" using s(5) by (rule fits_from_check) simp
  have c: "check (t_check ?tm) st0 b = check (local_time E s i) st0 b" by (simp add: from_check_def)
  have "\<exists>k. t = goto p i b k s \<and> stage ops Delivered ?tm b st0 r0 k st0 r0"
  proof (cases "check (local_time E s i) st0 b")
    case (Inl e)
    then show ?thesis
      using c consume_ends(1) [OF ensure_refilled_ready(2)]
      by (intro exI [of _ "Finished (Inl e)"]) (simp add: t step_check_def s(2))
  next
    case (Inr ok)
    then show ?thesis
      using c ensure_refilled_ready(1)
      by (intro exI [of _ "if ok then Spending else Entering"], cases ok)
        (simp_all add: t step_check_def s(2))
  qed
  then show ?thesis using s f by (auto intro!: followedI [where n = Delivered and tm = ?tm])
qed

lemma followed_enter:
  assumes "followed E ops p i b lo st0 r0 s" and "fire E ops (Enter p) s = Some t" and "refills st0 b = None"
  shows "followed E ops p i b lo st0 r0 t"
proof -
  from assms(1,2) obtain tm where s: "tasks s p = Some (Task i b Entering)"
    "check (t_check tm) st0 b = Inr False" "stores s i = st0" "redis s = r0"
    "clock s \<le> horizon E" "fits E i lo (local_time E s i) tm" and t: "t = step_enter p i b s"
    by (auto simp: followed_def fire_iff)
  show ?thesis
    unfolding t step_enter_def
    using s assms(3) by (auto intro!: followedI [where n = Delivered and tm = tm] simp: begin_refill_free locked_def)
qed

lemma followed_call:
  assumes "followed E ops p i b lo st0 r0 s" and "fire E ops (Call p) s = Some t"
  shows "followed E ops p i b lo st0 r0 t"
proof -
  from assms obtain tm where s: "tasks s p = Some (Task i b Calling)"
    "check (t_check tm) st0 b = Inr False" "locked st0 b (stores s i)" "redis s = r0"
    "clock s \<le> horizon E" "fits E i lo (local_time E s i) tm"
    and t: "t = goto p i b (Leasing (local_time E s i)) s"
    by (auto simp: followed_def fire_iff)
  let ?tm = "from_check E i s (t_check tm)"
  have f: "fits E i lo (local_time E s i) ?tm" by (rule fits_from_check) (use s(6) in \<open>auto simp: fits_def\<close>)
  have "t_check ?tm = t_check tm" "t_started ?tm = local_time E s i" by (simp_all add: from_check_def)
  then show ?thesis
    unfolding t using s f by (auto intro!: followedI [where n = Delivered and tm = ?tm])
qed

lemma followed_serve:
  assumes "followed E ops p i b lo st0 r0 s" and "fire E ops (Serve p n) s = Some t"
  shows "followed E ops p i b lo st0 r0 t"
proof -
  from assms obtain tm u where s: "tasks s p = Some (Task i b (Leasing u))" "u = t_started tm"
    "check (t_check tm) st0 b = Inr False" "locked st0 b (stores s i)" "redis s = r0"
    "clock s \<le> horizon E" "fits E i lo (local_time E s i) tm"
    and t: "t = step_serve E ops n p i b u s"
    by (auto simp: followed_def fire_iff)
  let ?tm = "(from_check E i s (t_check tm))\<lparr>t_started := t_started tm\<rparr>"
  have f: "fits E i lo (local_time E s i) ?tm"
    using s(7) unfolding fits_def from_check_def local_time_def server_time_def
    by (auto intro!: exI [of _ "clock s"])
  have c: "t_check ?tm = t_check tm" "t_started ?tm = t_started tm" "t_server ?tm = server_time E s"
    by (simp_all add: from_check_def)
  obtain res r where l: "leased ops n ?tm b st0 r0 = (res, r)" by fastforce
  then have "t = goto p i b (Replied u res) (s\<lparr>redis := r\<rparr>)"
    unfolding t step_serve_def using s(5) locked_simps(1) [OF s(4)] c(3) by (simp add: leased_def Let_def)
  then show ?thesis
    using s f c l by (auto intro!: followedI [where n = n and tm = ?tm])
qed

lemma followed_reply:
  assumes "followed E ops p i b lo st0 r0 s" and "fire E ops (Reply p gap) s = Some t"
    and "refills st0 b = None"
  shows "followed E ops p i b lo st0 r0 t"
proof -
  from assms(1,2) obtain tm n u res where s: "tasks s p = Some (Task i b (Replied u res))" "u = t_started tm"
    "check (t_check tm) st0 b = Inr False" "locked st0 b (stores s i)"
    "leased ops n tm b st0 r0 = (res, redis s)" "fits E i lo (local_time E s i) tm"
    and t: "t = step_reply E gap p i b u res s" "clock s + gap \<le> horizon E"
    by (auto simp: followed_def fire_iff)
  let ?now = "local_time E s i"
  let ?tm = "tm\<lparr>t_elapsed := ?now, t_reply := ?now + gap, t_spend := ?now + gap\<rparr>"
  have f: "fits E i lo (?now + gap) ?tm"
    using s(6) unfolding fits_def by (auto intro: order_trans)
  have lt: "local_time E (s\<lparr>clock := clock s + gap\<rparr>) i = ?now + gap" by (simp add: local_time_def)
  obtain out st1 where a: "apply_lease (?now + gap) st0 b (lease_answer u ?now res) = (out, st1)" by fastforce
  have "ensure_refilled ops n ?tm 0 st0 r0 b = Some (out, st1, redis s)"
    by (rule ensure_refilled_leased) (use s(2,3,5) a assms(3) in simp_all)
  moreover from s(4) obtain m where "stores s i = st0\<lparr>refills := (refills st0)(b \<mapsto> m)\<rparr>"
    by (auto simp: locked_def)
  then have "apply_lease (?now + gap) (stores s i) b (lease_answer u ?now res) =
      (out, st1\<lparr>refills := (refills st0)(b \<mapsto> m)\<rparr>)"
    using a by (simp add: apply_lease_locked)
  moreover have "refills st1 = refills st0" using a by (rule apply_lease_refills_eq)
  ultimately show ?thesis
    unfolding t(1) step_reply_def Let_def lt
    using f t(2) lt by (auto intro!: followedI [where n = n and tm = ?tm] simp: locked_def)
qed


lemma followed_unlock:
  assumes "followed E ops p i b lo st0 r0 s" and "fire E ops (Unlock p) s = Some t"
    and "refills st0 b = None"
  shows "followed E ops p i b lo st0 r0 t"
proof -
  from assms(1,2) obtain tm n st1 out where s: "tasks s p = Some (Task i b (Unlocking out))"
    "ensure_refilled ops n tm 0 st0 r0 b = Some (out, st1, redis s)" "refills st1 = refills st0"
    "locked st1 b (stores s i)" "clock s \<le> horizon E" "fits E i lo (local_time E s i) tm"
    and t: "t = step_unlock p i b out s"
    by (auto simp: followed_def fire_iff)
  have "snd (end_refill (stores s i) b) = st1" using s(3,4) assms(3) by (simp add: locked_simps)
  then show ?thesis
    unfolding t step_unlock_def
    using s by (auto intro!: followedI [where n = n and tm = tm] split: prod.split)
qed

lemma followed_notify:
  assumes "followed E ops p i b lo st0 r0 s" and "fire E ops (Notify p) s = Some t"
  shows "followed E ops p i b lo st0 r0 t"
proof -
  from assms obtain tm n m out where s: "tasks s p = Some (Task i b (Notifying m out))"
    "ensure_refilled ops n tm 0 st0 r0 b = Some (out, stores s i, redis s)"
    "clock s \<le> horizon E" "fits E i lo (local_time E s i) tm"
    and t: "t = step_notify p i b m out s"
    by (auto simp: followed_def fire_iff)
  show ?thesis
    unfolding t step_notify_def
    using s consume_ends(1) [of ops n tm st0 r0 b]
    by (cases out) (auto intro!: followedI [where n = n and tm = tm])
qed

lemma followed_spend:
  assumes "followed E ops p i b lo st0 r0 s" and "fire E ops (Spend p) s = Some t"
  shows "followed E ops p i b lo st0 r0 t"
proof -
  from assms obtain tm n where s: "tasks s p = Some (Task i b Spending)"
    "ensure_refilled ops n tm 0 st0 r0 b = Some (Inr (), stores s i, redis s)"
    "clock s \<le> horizon E" "fits E i lo (local_time E s i) tm"
    and t: "t = step_spend E p i b s"
    by (auto simp: followed_def fire_iff)
  let ?tm = "tm\<lparr>t_spend := local_time E s i\<rparr>"
  have f: "fits E i lo (local_time E s i) ?tm" using s(4) unfolding fits_def by auto
  have e: "ensure_refilled ops n ?tm 0 st0 r0 b = Some (Inr (), stores s i, redis s)"
    using s(2) by simp
  have same: "st = stores s i" if "spend (local_time E s i) (stores s i) b = (Inl u, st)" for u st
    using that by (auto simp: spend_def split: option.splits prod.splits if_splits)
  show ?thesis
  proof (cases "spend (local_time E s i) (stores s i) b")
    case (Pair out st)
    show ?thesis
    proof (cases out)
      case (Inl u)
      then show ?thesis
        unfolding t step_spend_def Pair
        using s f e same Pair by (auto intro!: followedI [where n = n and tm = ?tm])
    next
      case (Inr left)
      then have "consume ops n ?tm 0 st0 r0 b = Some (Inr left, st, redis s)"
        using Pair by (intro consume_ends(2) [OF e]) simp
      then show ?thesis
        unfolding t step_spend_def Pair Inr
        using s f by (auto intro!: followedI [where n = n and tm = ?tm])
    qed
  qed
qed

lemma followed_remove:
  assumes "followed E ops p i b lo st0 r0 s" and "fire E ops (Remove p) s = Some t"
  shows "followed E ops p i b lo st0 r0 t"
proof -
  from assms obtain tm n where s: "tasks s p = Some (Task i b Removing)"
    "ensure_refilled ops n tm 0 st0 r0 b = Some (Inr (), stores s i, redis s)"
    "spend (t_spend tm) (stores s i) b = (Inl (), stores s i)"
    "clock s \<le> horizon E" "fits E i lo (local_time E s i) tm"
    and t: "t = step_remove p i b s"
    by (auto simp: followed_def fire_iff)
  show ?thesis
    unfolding t step_remove_def
    using s consume_ends(3) [OF s(2,3)]
    by (auto intro!: followedI [where n = n and tm = tm])
qed

lemma followed_tick:
  assumes "followed E ops p i b lo st0 r0 s" and "fire E ops (Tick d) s = Some t"
  shows "followed E ops p i b lo st0 r0 t"
proof -
  from assms obtain tm n k where s: "tasks s p = Some (Task i b k)"
    "stage ops n tm b st0 r0 k (stores s i) (redis s)" "fits E i lo (local_time E s i) tm"
    and t: "clock s + d \<le> horizon E" "t = s\<lparr>clock := clock s + d\<rparr>"
    by (auto simp: followed_def fire_iff)
  have "fits E i lo (local_time E t i) tm"
    using s(3) unfolding t(2) fits_def local_time_def by (auto intro: order_trans)
  then show ?thesis
    using s t by (auto intro!: followedI [where n = n and tm = tm])
qed

lemma followed_step:
  assumes "followed E ops p i b lo st0 r0 s" and "fire E ops e s = Some t" and "own p e"
    and "refills st0 b = None"
  shows "followed E ops p i b lo st0 r0 t"
proof -
  have sub: "fire E ops (Subscribe p) s = None" "fire E ops (Wake p) s = None"
    using assms(1) by (auto simp: followed_def fire.simps split: option.split task.split pc.split)
  have cancel: "followed E ops p i b lo st0 r0 t" if "fire E ops (Cancel p) s = Some t"
  proof -
    from that assms(1) obtain tm where "t = goto p i b Cancelled s" "clock s \<le> horizon E"
      "fits E i lo (local_time E s i) tm" by (auto simp: followed_def fire_iff)
    then show ?thesis by (auto intro!: followedI [where n = Delivered and tm = tm])
  qed
  show ?thesis
    using assms sub cancel
    by (cases e) (auto simp: own_def intro: followed_tick followed_check followed_enter followed_call
        followed_serve followed_reply followed_unlock followed_notify followed_spend followed_remove)
qed

lemma followed_run:
  "followed E ops p i b lo st0 r0 s \<Longrightarrow> run (fire E ops) es s = Some t \<Longrightarrow> list_all (own p) es \<Longrightarrow>
   refills st0 b = None \<Longrightarrow> followed E ops p i b lo st0 r0 t"
  by (induction es arbitrary: s) (auto split: option.splits intro: followed_step)


section \<open>From \<open>consume\<close> to steps\<close>

definition ends :: "env \<Rightarrow> 'r redis_ops \<Rightarrow> nat \<Rightarrow> nat \<Rightarrow> bucket_id \<Rightarrow> store_error + u64 \<Rightarrow> store \<Rightarrow> 'r
    \<Rightarrow> 'r sys \<Rightarrow> bool" where
  "ends E ops p i b out st r s \<longleftrightarrow>
     (\<exists>es t. list_all (own p) es \<and> run (fire E ops) es s = Some t \<and>
        tasks t p = Some (Task i b (Finished out)) \<and> stores t i = st \<and> redis t = r)"

lemma ends_step:
  "fire E ops e s = Some t \<Longrightarrow> own p e \<Longrightarrow> ends E ops p i b out st r t \<Longrightarrow> ends E ops p i b out st r s"
  unfolding ends_def by (elim exE, rule_tac x = "e # es" in exI) auto

lemma ends_tick:
  assumes "ends E ops p i b out st r (s\<lparr>clock := c\<rparr>)" and "clock s \<le> c" and "c \<le> horizon E"
  shows "ends E ops p i b out st r s"
  by (rule ends_step [of E ops "Tick (c - clock s)"]) (use assms in \<open>simp_all add: fire_iff own_def\<close>)

lemma ends_finished:
  "tasks s p = Some (Task i b (Finished out)) \<Longrightarrow> ends E ops p i b out (stores s i) (redis s) s"
  unfolding ends_def by (rule exI [of _ "[]"]) simp

lemma own_simps [simp]:
  "own p (Check p)" "own p (Enter p)" "own p (Call p)" "own p (Serve p n)" "own p (Reply p gap)"
  "own p (Unlock p)" "own p (Notify p)" "own p (Spend p)" "own p (Remove p)"
  by (simp_all add: own_def)

lemma ends_spending:
  assumes "tasks s p = Some (Task i b Spending)" and "local_time E s i \<le> u" and "u \<le> horizon E + skew E i"
    and "spend u (stores s i) b = (res, st')"
  shows "ends E ops p i b (case res of Inl _ \<Rightarrow> Inr 0 | Inr left \<Rightarrow> Inr left)
    (case res of Inl _ \<Rightarrow> remove_bucket st' b | Inr left \<Rightarrow> st') (redis s) s"
proof (rule ends_tick)
  let ?s = "s\<lparr>clock := u - skew E i\<rparr>"
  show "clock s \<le> u - skew E i" "u - skew E i \<le> horizon E" using assms(2,3) by (auto simp: local_time_def)
  have u: "local_time E ?s i = u" using assms(2) by (simp add: local_time_def)
  have f: "fire E ops (Spend p) ?s = Some (step_spend E p i b ?s)" using assms(1) by (simp add: fire_iff)
  show "ends E ops p i b (case res of Inl _ \<Rightarrow> Inr 0 | Inr left \<Rightarrow> Inr left)
    (case res of Inl _ \<Rightarrow> remove_bucket st' b | Inr left \<Rightarrow> st') (redis s) ?s"
  proof (cases res)
    case (Inl x)
    then have same: "st' = stores s i"
      using assms(4) by (auto simp: spend_def split: option.splits prod.splits if_splits)
    let ?t = "goto p i b Removing ?s"
    have g: "step_spend E p i b ?s = ?t" using assms(4) u Inl by (simp add: step_spend_def)
    have "fire E ops (Remove p) ?t = Some (step_remove p i b ?t)" by (simp add: fire_iff)
    moreover have "ends E ops p i b (Inr 0) (remove_bucket st' b) (redis s) (step_remove p i b ?t)"
      using ends_finished [of "step_remove p i b ?t" p i b "Inr 0" E ops] same by (simp add: step_remove_def)
    ultimately have "ends E ops p i b (Inr 0) (remove_bucket st' b) (redis s) ?t"
      by (rule ends_step [OF _ own_simps(9)])
    then have "ends E ops p i b (Inr 0) (remove_bucket st' b) (redis s) ?s"
      by (rule ends_step [OF f [unfolded g] own_simps(8)])
    then show ?thesis using Inl by simp
  next
    case (Inr left)
    then have "ends E ops p i b (Inr left) st' (redis s) (step_spend E p i b ?s)"
      using ends_finished [of "step_spend E p i b ?s" p i b "Inr left" E ops] assms(4) u
      by (simp add: step_spend_def)
    then have "ends E ops p i b (Inr left) st' (redis s) ?s" by (rule ends_step [OF f own_simps(8)])
    then show ?thesis using Inr by simp
  qed
qed


lemma ends_refilled:
  assumes "tasks s p = Some (Task i b (Unlocking out))" and "locked st1 b (stores s i)"
    and "refills st1 b = None" and "local_time E s i \<le> t_spend tm" and "t_spend tm \<le> horizon E + skew E i"
    and "ensure_refilled ops n tm 0 st0 r0 b = Some (out, st1, redis s)"
    and "consume ops n tm 0 st0 r0 b = Some (fin, st, r)"
  shows "ends E ops p i b fin st r s"
proof -
  let ?m = "fst (end_refill (stores s i) b)"
  let ?u = "goto p i b (Notifying ?m out) (set_store i st1 s)"
  let ?v = "step_notify p i b ?m out ?u"
  have u: "step_unlock p i b out s = ?u"
    using locked_simps(2) [OF assms(2,3)]
    by (cases "end_refill (stores s i) b") (simp add: step_unlock_def)
  have "ends E ops p i b fin st r ?v"
  proof (cases out)
    case (Inl e)
    then have "fin = Inl e" "st = st1" "r = redis s"
      using consume_ends(1) [of ops n tm st0 r0 b e st1 "redis s"] assms(6,7) by simp_all
    then show ?thesis
      using ends_finished [of ?v p i b "Inl e" E ops] Inl by (simp add: step_notify_def)
  next
    case (Inr x)
    obtain res st' where sp: "spend (t_spend tm) st1 b = (res, st')" by fastforce
    have "Some (fin, st, r) = Some (case res of Inl _ \<Rightarrow> Inr 0 | Inr left \<Rightarrow> Inr left,
        case res of Inl _ \<Rightarrow> remove_bucket st' b | Inr left \<Rightarrow> st', redis s)"
      using assms(6,7) sp Inr by (cases res) (simp_all add: consume_def)
    then show ?thesis
      using ends_spending [of ?v p i b E "t_spend tm" res st' ops] assms(4,5) sp Inr
      by (simp add: step_notify_def)
  qed
  then have "ends E ops p i b fin st r ?u"
    by (rule ends_step [OF _ own_simps(7), rotated]) (simp add: fire_iff)
  then show ?thesis
    by (rule ends_step [OF _ own_simps(6), rotated]) (use assms(1) u in \<open>simp add: fire_iff\<close>)
qed

lemma ends_leasing:
  assumes "tasks s p = Some (Task i b Entering)" and "refills (stores s i) b = None"
    and "fits E i (local_time E s i) (horizon E + skew E i) tm"
    and "check (t_check tm) (stores s i) b = Inr False"
    and "consume ops n tm 0 (stores s i) (redis s) b = Some (fin, st, r)"
  shows "ends E ops p i b fin st r s"
proof -
  let ?st0 = "stores s i" and ?sk = "skew E i"
  from assms(3) obtain c where c: "t_started tm \<le> c + ?sk" "c + ?sk \<le> t_elapsed tm"
    "t_server tm = int ((c + server_skew E) div 10 ^ 6)"
    and le: "clock s + ?sk \<le> t_started tm" "t_elapsed tm \<le> t_reply tm" "t_reply tm \<le> t_spend tm"
    "t_spend tm \<le> horizon E + ?sk"
    by (auto simp: fits_def local_time_def)
  obtain res r1 where l: "leased ops n tm b ?st0 (redis s) = (res, r1)" by fastforce
  obtain out st1 where a: "apply_lease (t_reply tm) ?st0 b (lease_answer (t_started tm) (t_elapsed tm) res) =
      (out, st1)" by fastforce
  let ?lock = "(refills ?st0)(b \<mapsto> fresh s)"
  let ?s1 = "goto p i b Calling (set_store i (?st0\<lparr>refills := ?lock\<rparr>) (s\<lparr>fresh := Suc (fresh s)\<rparr>))"
  let ?s2 = "?s1\<lparr>clock := t_started tm - ?sk\<rparr>"
  let ?s3 = "goto p i b (Leasing (t_started tm)) ?s2"
  let ?s4 = "?s3\<lparr>clock := c\<rparr>"
  let ?s5 = "goto p i b (Replied (t_started tm) res) (?s4\<lparr>redis := r1\<rparr>)"
  let ?s6 = "?s5\<lparr>clock := t_elapsed tm - ?sk\<rparr>"
  let ?s7 = "goto p i b (Unlocking out) (set_store i (st1\<lparr>refills := ?lock\<rparr>) (?s6\<lparr>clock := t_reply tm - ?sk\<rparr>))"
  have f1: "fire E ops (Enter p) s = Some ?s1"
    using assms(1,2) by (simp add: fire_iff step_enter_def begin_refill_free)
  have f3: "fire E ops (Call p) ?s2 = Some ?s3"
    using le by (simp add: fire_iff local_time_def)
  have f5: "fire E ops (Serve p n) ?s4 = Some ?s5"
    using l c(3) by (simp add: fire_iff step_serve_def leased_def server_time_def Let_def)
  have "apply_lease (t_reply tm) (?st0\<lparr>refills := ?lock\<rparr>) b (lease_answer (t_started tm) (t_elapsed tm) res) =
      (out, st1\<lparr>refills := ?lock\<rparr>)" using a by (simp add: apply_lease_locked)
  then have f7: "fire E ops (Reply p (t_reply tm - t_elapsed tm)) ?s6 = Some ?s7"
    using le c by (simp add: fire_iff step_reply_def local_time_def Let_def)
  have r: "refills st1 = refills ?st0" using a by (rule apply_lease_refills_eq)
  have "ends E ops p i b fin st r ?s7"
    by (rule ends_refilled [of _ _ _ _ out st1 _ tm ops n ?st0 "redis s"])
      (use le c assms(2,5) r ensure_refilled_leased [OF assms(4,2) l a] in
        \<open>simp_all add: locked_def local_time_def, blast?\<close>)
  then have "ends E ops p i b fin st r ?s6" by (rule ends_step [OF f7 own_simps(5)])
  then have "ends E ops p i b fin st r ?s5" by (rule ends_tick) (use le c in simp_all)
  then have "ends E ops p i b fin st r ?s4" by (rule ends_step [OF f5 own_simps(4)])
  then have "ends E ops p i b fin st r ?s3" by (rule ends_tick) (use le c in simp_all)
  then have "ends E ops p i b fin st r ?s2" by (rule ends_step [OF f3 own_simps(3)])
  then have "ends E ops p i b fin st r ?s1" by (rule ends_tick) (use le c in simp_all)
  then show ?thesis by (rule ends_step [OF f1 own_simps(2)])
qed

lemma consume_notify:
  assumes "refills s b = None"
  shows "consume ops n tm m s r b = consume ops n tm 0 s r b"
proof (cases "check (t_check tm) s b")
  case (Inl e)
  then show ?thesis by (simp add: consume_def ensure_refilled_def)
next
  case (Inr ok)
  show ?thesis
  proof (cases ok)
    case True
    then show ?thesis using Inr by (simp add: consume_def ensure_refilled_def)
  next
    case False
    then have no: "check (t_check tm) s b = Inr False" using Inr by simp
    obtain res r' where c: "cache_lease ops n r (t_server tm) (t_started tm) (t_elapsed tm) b
        (lease_size (policy_for (cfg s) b)) (quota (policy_for (cfg s) b))
        (reset_in (policy_for (cfg s) b)) = (res, r')" by fastforce
    show ?thesis by (simp only: consume_lease [OF no assms refl c])
  qed
qed

text \<open>The two directions of the correspondence.\<close>

lemma alone_then_consume:
  assumes s: "tasks s p = Some (Task i b Checking)" "refills (stores s i) b = None" "clock s \<le> horizon E"
    and t: "list_all (own p) es" "run (fire E ops) es s = Some t" "tasks t p = Some (Task i b (Finished out))"
  shows "\<exists>n tm. fits E i (local_time E s i) (horizon E + skew E i) tm \<and>
    consume ops n tm 0 (stores s i) (redis s) b = Some (out, stores t i, redis t)"
proof -
  have "followed E ops p i b (local_time E s i) (stores s i) (redis s) s"
    using s fits_from_check [of "local_time E s i" "local_time E s i" E s i]
    by (auto intro!: followedI [where n = Delivered and tm = "from_check E i s (local_time E s i)"])
  from followed_run [OF this t(2,1) s(2)] t(3) obtain n tm where
    "clock t \<le> horizon E" "fits E i (local_time E s i) (local_time E t i) tm"
    "consume ops n tm 0 (stores s i) (redis s) b = Some (out, stores t i, redis t)"
    by (auto simp: followed_def)
  moreover from this(1,2) have "fits E i (local_time E s i) (horizon E + skew E i) tm"
    by (auto simp: fits_def local_time_def)
  ultimately show ?thesis by blast
qed

lemma ends_checking:
  assumes s: "tasks s p = Some (Task i b Checking)" "refills (stores s i) b = None"
    and f: "fits E i t0 (horizon E + skew E i) tm" and k: "local_time E s i = t_check tm"
    and c: "consume ops n tm 0 (stores s i) (redis s) b = Some (out, st, r)"
  shows "ends E ops p i b out st r (step_check E p i b s)"
proof (cases "check (t_check tm) (stores s i) b")
  case (Inl e)
  then have "out = Inl e \<and> st = stores s i \<and> r = redis s"
    using c consume_ends(1) [OF ensure_refilled_ready(2) [OF Inl], of ops n "redis s"] by simp
  then show ?thesis
    using ends_finished [of "step_check E p i b s" p i b "Inl e" E ops] Inl k
    by (simp add: step_check_def)
next
  case (Inr ok)
  show ?thesis
  proof (cases ok)
    case True
    obtain res st' where sp: "spend (t_spend tm) (stores s i) b = (res, st')" by fastforce
    have "Some (out, st, r) = Some (case res of Inl _ \<Rightarrow> Inr 0 | Inr left \<Rightarrow> Inr left,
        case res of Inl _ \<Rightarrow> remove_bucket st' b | Inr left \<Rightarrow> st', redis s)"
      using c sp ensure_refilled_ready(1) [of tm "stores s i" b ops n "redis s"] Inr True
      by (cases res) (simp_all add: consume_def)
    then show ?thesis
      using ends_spending [of "goto p i b Spending s" p i b E "t_spend tm" res st' ops] f k sp Inr True
      by (simp add: step_check_def fits_def)
  next
    case False
    have "fits E i (local_time E (goto p i b Entering s) i) (horizon E + skew E i) tm"
      using f k by (simp add: fits_def)
    then show ?thesis
      using ends_leasing [of "goto p i b Entering s" p i b E tm ops n out st r] Inr False k s(2) c
      by (simp add: step_check_def)
  qed
qed

lemma consume_then_alone:
  assumes s: "tasks s p = Some (Task i b Checking)" "refills (stores s i) b = None"
    and f: "fits E i (local_time E s i) (horizon E + skew E i) tm"
    and c: "consume ops n tm 0 (stores s i) (redis s) b = Some (out, st, r)"
  shows "ends E ops p i b out st r s"
proof -
  let ?s = "s\<lparr>clock := t_check tm - skew E i\<rparr>"
  have le: "clock s + skew E i \<le> t_check tm" "t_check tm \<le> horizon E + skew E i"
    using f by (auto simp: fits_def local_time_def)
  have k: "local_time E ?s i = t_check tm" using le by (simp add: local_time_def)
  have here: "ends E ops p i b out st r (step_check E p i b ?s)"
    by (rule ends_checking [OF _ _ f k]) (use s c in simp_all)
  have "fire E ops (Check p) ?s = Some (step_check E p i b ?s)" using s(1) by (simp add: fire_iff)
  then have "ends E ops p i b out st r ?s" by (rule ends_step [OF _ own_simps(1) here])
  then show ?thesis by (rule ends_tick) (use le in simp_all)
qed

text \<open>
  C12. The steps of a request in the system refine \<open>consume\<close>: taking only steps of
  its own, a request at an instance with no refill under way for its bucket can end with an
  answer, a store and a Redis exactly when \<open>consume\<close> yields them for some fate of
  the call and some readings of the clocks that fit the instance's clock.
\<close>

theorem alone_is_consume:
  assumes "tasks s p = Some (Task i b Checking)" and "refills (stores s i) b = None" and "clock s \<le> horizon E"
  shows "(\<exists>es t. list_all (own p) es \<and> run (fire E ops) es s = Some t \<and>
      tasks t p = Some (Task i b (Finished out)) \<and> stores t i = st \<and> redis t = r) \<longleftrightarrow>
    (\<exists>n tm. fits E i (local_time E s i) (horizon E + skew E i) tm \<and>
      consume ops n tm m (stores s i) (redis s) b = Some (out, st, r))"
proof -
  have "consume ops n tm m (stores s i) (redis s) b = consume ops n tm 0 (stores s i) (redis s) b" for n tm
    using consume_notify [of "stores s i" b ops] assms(2) by metis
  then show ?thesis
    using alone_then_consume [OF assms] consume_then_alone [OF assms(1,2), of E _ ops]
    by (simp add: ends_def) blast
qed

theorem alone_is_consume_witness:
  "\<exists>es t. list_all (own 0) es \<and>
     run (fire sample_env mem_ops) es (goto 0 0 (Protected ''u'') Checking (boot sample_env 0 (\<lambda>_. None))) = Some t \<and>
     tasks t 0 = Some (Task 0 (Protected ''u'') (Finished (Inl (Cache (Redis ''refused'')))))"
proof -
  let ?s = "goto 0 0 (Protected ''u'') Checking (boot sample_env 0 (\<lambda>_. None)) :: mem sys"
  have s: "tasks ?s 0 = Some (Task 0 (Protected ''u'') Checking)" "refills (stores ?s 0) (Protected ''u'') = None"
    "clock ?s \<le> horizon sample_env"
    by (simp_all add: boot_def store_new_def sample_env_def)
  let ?tm = "from_check sample_env 0 ?s 0"
  have f: "fits sample_env 0 (local_time sample_env ?s 0) (horizon sample_env + skew sample_env 0) ?tm"
    using fits_from_check [of 0 0 sample_env ?s 0]
    by (simp add: fits_def boot_def local_time_def sample_env_def from_check_def)
  have "consume mem_ops (Request_Lost ''refused'') ?tm 0 (stores ?s 0) (redis ?s) (Protected ''u'') =
      Some (Inl (Cache (Redis ''refused'')), stores ?s 0, redis ?s)"
    by (rule consume_redis_error [OF _ s(2) refl])
      (simp_all add: boot_def store_new_def check_false_iff cache_lease_def lease_request_def
        script_execute_def lease_answer_def)
  with f alone_is_consume [OF s] show ?thesis by blast
qed

end
