(* ===== verification/Rate.thy ===== *)
theory Rate
  imports Flight
begin

text \<open>
  How many tokens of a bucket are spent in a stretch of time. The windows of a bucket lie behind each other, each as long as the policy's \<open>reset_in\<close>, so that as many quotas can be
  spent as windows begin.
\<close>

section \<open>Windows behind each other\<close>

definition period :: "env \<Rightarrow> bucket_id \<Rightarrow> int" where
  "period E b = 1000 * uint (as_secs (reset_in (policy_for (conf E) b)))"

text \<open>The windows some token is taken from, as their ends; \<open>t0\<close> is the server time at the start.\<close>
definition spaced :: "env \<Rightarrow> ('r \<Rightarrow> int \<Rightarrow> string \<Rightarrow> (string \<times> int option) option) \<Rightarrow> int \<Rightarrow> 'r sys \<Rightarrow> bool" where
  "spaced E live t0 s \<longleftrightarrow>
     t0 \<le> server_time E s \<and>
     (\<forall>b w. used E s b w \<noteq> 0 \<longrightarrow>
        t0 \<le> w \<and>
        (w \<le> server_time E s \<or> (\<exists>n. window_of live (redis s) (server_time E s) b = Some (n, w))) \<and>
        (\<forall>w'. used E s b w' \<noteq> 0 \<and> w < w' \<longrightarrow> w + period E b \<le> w') \<and>
        (\<forall>n e. window_of live (redis s) (server_time E s) b = Some (n, e) \<and> w \<noteq> e \<longrightarrow> w + period E b \<le> e))"

lemma spacedD:
  assumes "spaced E live t0 s" and "used E s b w \<noteq> 0"
  shows "t0 \<le> w"
    and "w \<le> server_time E s \<or> (\<exists>n. window_of live (redis s) (server_time E s) b = Some (n, w))"
    and "used E s b w' \<noteq> 0 \<Longrightarrow> w < w' \<Longrightarrow> w + period E b \<le> w'"
    and "window_of live (redis s) (server_time E s) b = Some (n, e) \<Longrightarrow> w \<noteq> e \<Longrightarrow> w + period E b \<le> e"
  using assms unfolding spaced_def by blast+

lemma spaced_le:
  assumes sp: "spaced E live t0 s" and t: "clock t = clock s"
    and W: "\<And>b. map_option snd (window_of live (redis t) (server_time E s) b) =
      map_option snd (window_of live (redis s) (server_time E s) b)"
    and less: "\<And>b w. used E t b w \<le> used E s b w"
  shows "spaced E live t0 t"
proof -
  have time: "server_time E t = server_time E s" using t by (simp add: server_time_def)
  have occ: "used E s b w \<noteq> 0" if "used E t b w \<noteq> 0" for b w using that less [of b w] by simp
  have win: "(\<exists>n. window_of live (redis t) (server_time E s) b = Some (n, w)) \<longleftrightarrow>
      (\<exists>n. window_of live (redis s) (server_time E s) b = Some (n, w))" for b w
    using W [of b] by (cases "window_of live (redis t) (server_time E s) b";
        cases "window_of live (redis s) (server_time E s) b") auto
  show ?thesis
    using sp occ unfolding spaced_def time by (meson win)
qed

context redis_server
begin

lemma spaced_clock:
  assumes sp: "spaced E live t0 s" and ok: "counters_ok live (redis s) (server_time E s)" and c: "clock s \<le> c"
  shows "spaced E live t0 (s\<lparr>clock := c\<rparr>)"
proof -
  let ?t = "server_time E s" and ?t' = "server_time E (s\<lparr>clock := c\<rparr>)"
  have t: "?t \<le> ?t'" using c by (simp add: server_time_mono)
  have keep: "window_of live (redis s) ?t b = Some (n, e)"
    if "window_of live (redis s) ?t' b = Some (n, e)" for b n e
    using svc.win_none [OF ok t, of b] svc.win_time [OF ok t, of b] that
    by (cases "window_of live (redis s) ?t b") force+
  have gone: "w \<le> ?t' \<or> window_of live (redis s) ?t' b = Some (n, w)"
    if "window_of live (redis s) ?t b = Some (n, w)" for b n w
    using svc.win_time [OF ok t that] by blast
  show ?thesis
    unfolding spaced_def
  proof (intro conjI allI impI)
    show "t0 \<le> ?t'" using sp t by (simp add: spaced_def)
    fix b w assume "used E (s\<lparr>clock := c\<rparr>) b w \<noteq> 0"
    then have u: "used E s b w \<noteq> 0" by simp
    show "t0 \<le> w" using sp u by (simp add: spaced_def)
    show "w \<le> ?t' \<or> (\<exists>n. window_of live (redis (s\<lparr>clock := c\<rparr>)) ?t' b = Some (n, w))"
      using sp u t gone unfolding spaced_def by (simp, meson order_trans)
    show "w + period E b \<le> w'" if "used E (s\<lparr>clock := c\<rparr>) b w' \<noteq> 0 \<and> w < w'" for w'
      using sp u that by (simp add: spaced_def)
    show "w + period E b \<le> e"
      if "window_of live (redis (s\<lparr>clock := c\<rparr>)) ?t' b = Some (n, e) \<and> w \<noteq> e" for n e
      using sp u that keep [of b n e] by (simp add: spaced_def)
  qed
qed

text \<open>A lease is from a window that is a whole period after every other.\<close>
lemma ends_apart:
  assumes sp: "spaced E live t0 s"
    and new: "window_of live (redis s) (server_time E s) b = None \<Longrightarrow>
        server_time E s < e \<and> e = server_time E s + period E b"
      "\<And>k e'. window_of live (redis s) (server_time E s) b = Some (k, e') \<Longrightarrow> e' = e"
    and "used E s b w \<noteq> 0"
  shows "w = e \<or> w + period E b \<le> e"
proof (cases "window_of live (redis s) (server_time E s) b")
  case None
  then have "w \<le> server_time E s" using spacedD(2) [OF sp assms(4)] by simp
  then show ?thesis using new(1) [OF None] by simp
next
  case (Some ne)
  then obtain k where "window_of live (redis s) (server_time E s) b = Some (k, e)" using new(2) by (cases ne) auto
  then show ?thesis using spacedD(4) [OF sp assms(4)] by blast
qed

lemma spaced_lease:
  assumes sp: "spaced E live t0 s" and bal: "balanced E live s" and E: "env_ok E" and wf: "well_formed E s"
    and task: "tasks s p = Some (Task i b (Leasing u))"
    and call: "lease_call E ops Delivered s b = (res, r')"
    and got: "isl res' \<or> res' = res"
  shows "spaced E live t0 (goto p i b (Replied u res') (s\<lparr>redis := r'\<rparr>))"
proof -
  let ?t = "server_time E s" and ?s = "goto p i b (Replied u res') (s\<lparr>redis := r'\<rparr>)"
  let ?W = "window_of live (redis s) ?t"
  obtain m e where win: "window_of live r' ?t = ?W(b \<mapsto> (m, e))" and te: "?t \<le> e"
    and occ: "\<And>c w. used E ?s c w \<noteq> 0 \<Longrightarrow> used E s c w \<noteq> 0 \<or> c = b \<and> w = e"
    and new: "?W b = None \<Longrightarrow> ?t < e \<and> e = ?t + period E b"
      "\<And>k e'. ?W b = Some (k, e') \<Longrightarrow> e' = e"
  proof (rule lease_effect [OF bal E wf task call got], goal_cases)
    case (1 m e)
    show ?case by (rule that [OF 1(3,4,6) 1(8) [folded period_def] 1(9)])
  qed
  have time: "server_time E ?s = ?t" and red: "redis ?s = r'" by simp_all
  have before: "w = e \<or> w + period E b \<le> e" if "used E s b w \<noteq> 0" for w
    using ends_apart [OF sp new that] .
  have pos: "0 \<le> period E b" by (simp add: period_def)
  have t0: "t0 \<le> ?t" using sp by (simp add: spaced_def)
  show ?thesis
    unfolding spaced_def time red
  proof (intro conjI allI impI)
    show "t0 \<le> ?t" by (rule t0)
    fix c w assume u: "used E ?s c w \<noteq> 0"
    have old: "used E s c w \<noteq> 0" if "\<not> (c = b \<and> w = e)" using occ [OF u] that by simp
    show "t0 \<le> w" using spacedD(1) [OF sp old] te t0 by (cases "c = b \<and> w = e") auto
    show "w \<le> ?t \<or> (\<exists>n. window_of live r' ?t c = Some (n, w))"
    proof (cases "c = b \<and> w = e")
      case True
      then show ?thesis using win by simp
    next
      case False
      show ?thesis
        using spacedD(2) [OF sp old [OF False]] win new(2) False by (cases "c = b") auto
    qed
    show "w + period E c \<le> w'" if "used E ?s c w' \<noteq> 0 \<and> w < w'" for w'
    proof (cases "c = b \<and> w' = e")
      case True
      then show ?thesis using before [of w] old that by auto
    next
      case False
      then have u': "used E s c w' \<noteq> 0" using occ [of c w'] that by blast
      show ?thesis
      proof (cases "c = b \<and> w = e")
        case True
        then show ?thesis using before [of w'] u' that pos by auto
      next
        case False
        show ?thesis using spacedD(3) [OF sp old [OF False] u'] that by blast
      qed
    qed
    show "w + period E c \<le> e'" if "window_of live r' ?t c = Some (n, e') \<and> w \<noteq> e'" for n e'
    proof (cases "c = b")
      case True
      then show ?thesis using that win before [of w] old by auto
    next
      case False
      then show ?thesis using spacedD(4) [OF sp old, of n e'] that win by auto
    qed
  qed
qed

lemma spaced_serve:
  assumes sp: "spaced E live t0 s" and bal: "balanced E live s" and E: "env_ok E" and wf: "well_formed E s"
    and task: "tasks s p = Some (Task i b (Leasing u))"
  shows "spaced E live t0 (step_serve E ops n p i b u s)"
proof (rule served_by [OF wf, of ops b n p i u])
  fix res r1 res' r'
  assume c: "lease_call E ops Delivered s b = (res, r1)"
    and step: "step_serve E ops n p i b u s = goto p i b (Replied u res') (s\<lparr>redis := r'\<rparr>)"
    and "r' = redis s \<and> isl res' \<or> r' = r1 \<and> (isl res' \<or> res' = res)"
  then show ?thesis
  proof (elim disjE)
    assume lost: "r' = redis s \<and> isl res'"
    have "spaced E live t0 (goto p i b (Replied u res') s)"
      by (rule spaced_le [OF sp]) (use lost used_lost well_formed_task [OF wf task] in auto)
    then show ?thesis using step lost by simp
  next
    assume "r' = r1 \<and> (isl res' \<or> res' = res)"
    then show ?thesis using spaced_lease [OF sp bal E wf task c, of res'] step by simp
  qed
qed

lemma spaced_step:
  assumes sp: "spaced E live t0 s" and bal: "balanced E live s" and E: "env_ok E" and wf: "well_formed E s"
    and e: "fire E ops e s = Some t" and q: "quiet s e"
  shows "spaced E live t0 t"
proof -
  have ok: "counters_ok live (redis s) (server_time E s)" using bal by (simp add: balanced_def)
  have other: "spaced E live t0 t" if "\<forall>p n. e \<noteq> Serve p n" "\<forall>i k n. e \<noteq> Return i k n"
  proof (rule spaced_le)
    show "spaced E live t0 (s\<lparr>clock := clock t\<rparr>)"
      using quiet_step_used [OF wf e q that] by (intro spaced_clock [OF sp ok]) simp
  qed (use quiet_step_used [OF wf e q that] in simp_all)
  have return: "spaced E live t0 (step_return E ops n i k l s)"
    if "cleaners s i = Returning l" "k < length l" for n i k l
    by (rule spaced_le [OF sp])
      (use return_effect [OF bal E wf that] in \<open>simp_all add: step_return_def split: prod.split\<close>)
  show ?thesis
  proof (cases e)
    case Serve then show ?thesis using e by (auto simp: fire_iff intro: spaced_serve [OF sp bal E wf])
  next
    case Return then show ?thesis using e by (auto simp: fire_iff intro: return)
  qed (rule other; simp)+
qed

end

sublocale deployment \<subseteq> windows: invariant_system
  "\<lambda>s. booted E live s \<and> server_time E s = t0" "fires (quiet_fire E ops)"
  "\<lambda>s. (well_formed E s \<and> balanced E live s) \<and> spaced E live t0 s" for t0
proof (unfold_locales, goal_cases)
  case (1 s)
  then have "used E s b w = 0" for b w
    by (auto simp: booted_def used_def boot_def held_def store_new_def)
  then show ?case using 1 accounts.start_inv [of s] by (simp add: spaced_def)
next
  case (2 s t)
  then show ?case
    using accounts.step_inv [of s t] spaced_step [OF _ _ env, of t0 s]
    by (auto simp: fires_def quiet_fire_def split: if_splits)
qed

context deployment
begin

lemma windows_spaced:
  "reach (\<lambda>s. booted E live s \<and> server_time E s = t0) (fires (quiet_fire E ops)) s \<Longrightarrow>
   balanced E live s \<and> spaced E live t0 s"
  using windows.reach_inv by blast

end

section \<open>Counting windows\<close>

lemma spaced_set_card:
  fixes A :: "int set"
  assumes sub: "A \<subseteq> {lo..hi}" and d: "0 < d" and gap: "\<And>x y. x \<in> A \<Longrightarrow> y \<in> A \<Longrightarrow> x < y \<Longrightarrow> x + d \<le> y"
  shows "finite A \<and> card A \<le> nat ((hi - lo) div d) + 1"
proof -
  let ?f = "\<lambda>x. nat ((x - lo) div d)"
  have less: "?f x < ?f y" if "x \<in> A" "y \<in> A" "x < y" for x y
  proof -
    have "(x - lo) div d + 1 = (x - lo + d) div d" using d by simp
    also have "\<dots> \<le> (y - lo) div d" using gap [OF that] d by (intro zdiv_mono1) auto
    finally have "(x - lo) div d < (y - lo) div d" by simp
    moreover have "0 \<le> (x - lo) div d" using sub that(1) d by (auto simp: pos_imp_zdiv_nonneg_iff)
    ultimately show ?thesis by simp
  qed
  have "inj_on ?f A" by (rule inj_onI) (metis less less_irrefl linorder_less_linear)
  moreover have "?f ` A \<subseteq> {..nat ((hi - lo) div d)}"
    using sub d by (auto intro!: nat_mono zdiv_mono1)
  ultimately have "card A \<le> card {..nat ((hi - lo) div d)}" by (rule card_inj_on_le) simp
  then show ?thesis using finite_subset [OF sub] by simp
qed

definition windows_in :: "env \<Rightarrow> int \<Rightarrow> int \<Rightarrow> bucket_id \<Rightarrow> nat" where
  "windows_in E t0 t b = nat ((t - t0) div period E b) + 2"

lemma period_pos: "env_ok E \<Longrightarrow> 0 < period E b"
proof -
  assume "env_ok E"
  then have "0 < as_secs (reset_in (policy_for (conf E) b))" by (cases b) (auto simp: env_ok_def)
  then show ?thesis by (simp add: period_def word_less_def)
qed

lemma spaced_windows:
  assumes sp: "spaced E live t0 s" and E: "env_ok E"
  shows "finite {w. used E s b w \<noteq> 0} \<and> card {w. used E s b w \<noteq> 0} \<le> windows_in E t0 (server_time E s) b"
proof -
  let ?t = "server_time E s" and ?W = "window_of live (redis s) (server_time E s) b"
  let ?S = "{w. used E s b w \<noteq> 0}" and ?P = "{w. used E s b w \<noteq> 0 \<and> w \<le> server_time E s}"
  let ?L = "case ?W of Some (n, e) \<Rightarrow> {e} | None \<Rightarrow> {}"
  have "?P \<subseteq> {t0..?t}" using spacedD(1) [OF sp] by auto
  then have P: "finite ?P \<and> card ?P \<le> nat ((?t - t0) div period E b) + 1"
    by (rule spaced_set_card [OF _ period_pos [OF E]]) (use spacedD(3) [OF sp] in auto)
  have S: "?S \<subseteq> ?P \<union> ?L" using spacedD(2) [OF sp, of b] by (force split: option.split)
  have L: "finite ?L" "card ?L \<le> 1" by (auto split: option.split)
  then have "finite (?P \<union> ?L)" using P by blast
  moreover have "card (?P \<union> ?L) \<le> card ?P + card ?L" by (rule card_Un_le)
  ultimately show ?thesis
    using S P L card_mono [of "?P \<union> ?L" ?S] unfolding windows_in_def by (auto intro: finite_subset)
qed


section \<open>Tokens spent\<close>

text \<open>Of all windows of a bucket.\<close>
definition total_spent :: "'r sys \<Rightarrow> bucket_id \<Rightarrow> nat" where
  "total_spent s b = (\<Sum>w | spent s b w \<noteq> 0. spent s b w)"

section \<open>Properties\<close>

text \<open>
  C3. The rate limit over time: in any run of the whole system (any instances, skews,
  interleavings and faults, an instance spending nothing its shutdown has come past), the tokens
  of a bucket spent since the start, of all its windows, are at most the quota times the number
  of whole windows that fit in the time passed, plus two.
\<close>

theorem spending_rate:
  assumes "redis_server ops live" and "env_ok E" and "booted E live s0"
    and "run (quiet_fire E ops) es s0 = Some s"
  shows "finite {w. spent s b w \<noteq> 0} \<and>
    total_spent s b \<le> unat (quota (policy_for (conf E) b)) *
      (nat ((server_time E s - server_time E s0) div (1000 * uint (as_secs (reset_in (policy_for (conf E) b))))) + 2)"
proof -
  have dep: "deployment ops live E"
    using assms(1,2) by (simp add: deployment_def deployment_axioms_def)
  let ?t0 = "server_time E s0"
  have "reach (\<lambda>s. booted E live s \<and> server_time E s = ?t0) (fires (quiet_fire E ops)) s"
    by (rule reach_run [OF reach_start assms(4)]) (simp add: assms(3))
  from deployment.windows_spaced [OF dep this]
  have sp: "spaced E live ?t0 s" and bal: "balanced E live s" by auto
  let ?S = "{w. used E s b w \<noteq> 0}" and ?P = "{w. spent s b w \<noteq> 0}"
  have S: "finite ?S" "card ?S \<le> windows_in E ?t0 (server_time E s) b"
    using spaced_windows [OF sp assms(2), of b] by auto
  have sub: "?P \<subseteq> ?S" by (auto simp: used_def)
  have "spent s b w \<le> limit E b" for w
  proof -
    have "spent s b w \<le> used E s b w" by (simp add: used_def)
    also have "\<dots> \<le> limit E b" using bal unfolding balanced_def by (meson add_leD2)
    finally show ?thesis .
  qed
  then have "total_spent s b \<le> card ?P * limit E b"
    unfolding total_spent_def by (intro sum_bounded_above [where 'a = nat, simplified])
  also have "\<dots> \<le> windows_in E ?t0 (server_time E s) b * limit E b"
    using card_mono [OF S(1) sub] S(2) by (intro mult_right_mono) auto
  finally have "total_spent s b \<le> limit E b * windows_in E ?t0 (server_time E s) b"
    by (simp only: mult.commute)
  then show ?thesis using finite_subset [OF sub S(1)] by (simp add: limit_def windows_in_def period_def)
qed

theorem spending_rate_witness:
  "\<exists>s. run (quiet_fire sample_env mem_ops) sample_run (boot sample_env 0 (\<lambda>_. None)) = Some s \<and>
     server_time sample_env s = 0 \<and> spent s (Protected ''u'') 60000 = 1 \<and>
     total_spent s (Protected ''u'') \<le> 3 * (nat (0 div 60000) + 2)"
proof -
  obtain s where s: "run (quiet_fire sample_env mem_ops) sample_run (boot sample_env 0 (\<lambda>_. None)) = Some s"
    "server_time sample_env s = 0" "spent s (Protected ''u'') 60000 = 1"
    by (simp add: sample_run_def quiet_fire_def quiet_def fire_eval sample_env_def small_config_def)
  from spending_rate [OF mem.redis_server_axioms sample_env_ok sample_booted s(1), of "Protected ''u''"] s
  show ?thesis by (simp add: server_time_def boot_def sample_env_def small_config_def from_secs_def)
qed

end
