(* ===== verification/Bank.thy ===== *)
theory Bank
  imports Rate
begin

text \<open>
  What the deployment promises a bucket, without instances, requests or Redis: a bank that opens a window of
  \<open>Q\<close> tokens at a time, lends tokens out, and counts those that are spent. Every run of the system is a run of
  this bank.
\<close>

section \<open>The bank\<close>

text \<open>
  The time, the current window (tokens left in it, its end), and by window the tokens that are lent out and those
  that are spent.
\<close>
record bank =
  time :: int
  current :: "(nat \<times> int) option"
  out :: "int \<Rightarrow> nat"
  gone :: "int \<Rightarrow> nat"

text \<open>
  A window is opened only when there is none, and lasts \<open>P\<close>. A loan comes back only to its own window while that
  lasts, and may be lost. What is spent stays spent.
\<close>
inductive bank_step :: "nat \<Rightarrow> int \<Rightarrow> bank \<Rightarrow> bank \<Rightarrow> bool" for Q P where
  Pass: "time a \<le> t \<Longrightarrow> (\<And>n w. current a = Some (n, w) \<Longrightarrow> t \<le> w) \<Longrightarrow> bank_step Q P a (a\<lparr>time := t\<rparr>)"
| Close: "current a = Some (n, w) \<Longrightarrow> w \<le> time a \<Longrightarrow> bank_step Q P a (a\<lparr>current := None\<rparr>)"
| Open: "current a = None \<Longrightarrow> bank_step Q P a (a\<lparr>current := Some (Q, time a + P)\<rparr>)"
| Lend: "current a = Some (n + k, w) \<Longrightarrow>
    bank_step Q P a (a\<lparr>current := Some (n, w), out := (out a)(w := out a w + k)\<rparr>)"
| Back: "current a = Some (n, w) \<Longrightarrow> out a w = m + k \<Longrightarrow>
    bank_step Q P a (a\<lparr>current := Some (n + k, w), out := (out a)(w := m)\<rparr>)"
| Lose: "(\<And>w. f w \<le> out a w) \<Longrightarrow> bank_step Q P a (a\<lparr>out := f\<rparr>)"
| Spend: "out a w = Suc m \<Longrightarrow>
    bank_step Q P a (a\<lparr>out := (out a)(w := m), gone := (gone a)(w := Suc (gone a w))\<rparr>)"

text \<open>
  What that guarantees: no window hands out more than \<open>Q\<close>, and the windows that something was lent or spent from
  lie a whole \<open>P\<close> apart.
\<close>
definition taken :: "bank \<Rightarrow> int \<Rightarrow> nat" where
  "taken a w = out a w + gone a w"

definition solvent :: "nat \<Rightarrow> int \<Rightarrow> bank \<Rightarrow> bool" where
  "solvent Q P a \<longleftrightarrow>
     (\<forall>w. taken a w \<le> Q) \<and> (\<forall>n w. current a = Some (n, w) \<longrightarrow> n + taken a w \<le> Q) \<and>
     (\<forall>v. taken a v \<noteq> 0 \<longrightarrow> v \<le> time a \<or> (\<exists>n. current a = Some (n, v))) \<and>
     (\<forall>v n w. taken a v \<noteq> 0 \<and> current a = Some (n, w) \<and> v \<noteq> w \<longrightarrow> v + P \<le> w) \<and>
     (\<forall>v w. taken a v \<noteq> 0 \<and> taken a w \<noteq> 0 \<and> v < w \<longrightarrow> v + P \<le> w)"

lemma solvent_less:
  assumes "solvent Q P a" and "time a \<le> time c" and "current c = current a" and "\<And>w. taken c w \<le> taken a w"
  shows "solvent Q P c"
proof -
  have "taken a w \<noteq> 0" if "taken c w \<noteq> 0" for w using that assms(4) [of w] by simp
  moreover have "taken a w \<le> Q \<Longrightarrow> taken c w \<le> Q" "n + taken a w \<le> Q \<Longrightarrow> n + taken c w \<le> Q" for n w
    using assms(4) [of w] by simp_all
  ultimately show ?thesis using assms(1,2) unfolding solvent_def assms(3) by (meson order_trans)
qed

text \<open>Moving tokens between the current window and what is taken from it.\<close>
lemma solvent_move:
  assumes "solvent Q P a" and "time c = time a" and "current a = Some (n, w)" and "current c = Some (m, w)"
    and "m + taken c w \<le> n + taken a w" and "\<And>v. v \<noteq> w \<Longrightarrow> taken c v = taken a v"
    and "0 < P"
  shows "solvent Q P c"
  unfolding solvent_def
proof (intro conjI allI impI)
  have w: "m + taken c w \<le> Q" using assms(1,3,5) by (fastforce simp: solvent_def)
  show "taken c v \<le> Q" for v using w assms(1) assms(6) [of v] by (cases "v = w") (auto simp: solvent_def)
  show "k + taken c v \<le> Q" if "current c = Some (k, v)" for k v using w assms(4) that by simp
  show "v \<le> time c \<or> (\<exists>n. current c = Some (n, v))" if "taken c v \<noteq> 0" for v
    using that assms(1-4) assms(6) [of v] by (cases "v = w") (auto simp: solvent_def)
  have apart: "v + P \<le> w" if "taken c v \<noteq> 0" "v \<noteq> w" for v
    using that assms(1,3) assms(6) [of v] by (auto simp: solvent_def)
  then show "v + P \<le> e" if "taken c v \<noteq> 0 \<and> current c = Some (k, e) \<and> v \<noteq> e" for v k e
    using that assms(4) by simp
  show "v + P \<le> e" if "taken c v \<noteq> 0 \<and> taken c e \<noteq> 0 \<and> v < e" for v e
  proof (cases "v = w \<or> e = w")
    case True
    then show ?thesis using that apart [of v] apart [of e] assms(7) by auto
  next
    case False
    then show ?thesis using that assms(1) assms(6) [of v] assms(6) [of e] by (auto simp: solvent_def)
  qed
qed

lemma solvent_step: "bank_step Q P a c \<Longrightarrow> 0 < P \<Longrightarrow> solvent Q P a \<Longrightarrow> solvent Q P c"
proof (induction rule: bank_step.induct)
  case Pass then show ?case by (auto simp: taken_def intro: solvent_less)
next
  case (Close a n w)
  have same: "taken (a\<lparr>current := None\<rparr>) v = taken a v" for v by (simp add: taken_def)
  show ?case using Close unfolding solvent_def same by force
next
  case (Open a)
  let ?c = "a\<lparr>current := Some (Q, time a + P)\<rparr>"
  have same: "taken ?c v = taken a v" for v by (simp add: taken_def)
  have past: "v \<le> time a" if "taken a v \<noteq> 0" for v using that Open by (simp add: solvent_def)
  then have "taken a (time a + P) = 0" using Open(2) by force
  then show ?case using Open past unfolding solvent_def same by force
next
  case (Lend a n k w) then show ?case by (auto simp: taken_def intro!: solvent_move [of Q P a _ "n + k" w n])
next
  case (Back a n w m k) then show ?case by (auto simp: taken_def intro!: solvent_move [of Q P a _ n w "n + k"])
next
  case Lose then show ?case by (auto simp: taken_def intro: solvent_less)
next
  case (Spend a w m) then show ?case by (auto simp: taken_def intro!: solvent_less [of Q P a])
qed

lemma solvent_run: "(bank_step Q P)\<^sup>*\<^sup>* a c \<Longrightarrow> 0 < P \<Longrightarrow> solvent Q P a \<Longrightarrow> solvent Q P c"
  by (induction rule: rtranclp_induct) (auto intro: solvent_step)

section \<open>What the system shows of it\<close>

definition bank_of ::
    "env \<Rightarrow> ('r \<Rightarrow> int \<Rightarrow> string \<Rightarrow> (string \<times> int option) option) \<Rightarrow> bucket_id \<Rightarrow> 'r sys \<Rightarrow> bank" where
  "bank_of E live b s =
     \<lparr>time = server_time E s,
      current = map_option (apfst nat) (window_of live (redis s) (server_time E s) b),
      out = (\<lambda>w. used E s b w - spent s b w),
      gone = spent s b\<rparr>"

lemma bank_of_sel [simp]:
  "time (bank_of E live b s) = server_time E s"
  "current (bank_of E live b s) = map_option (apfst nat) (window_of live (redis s) (server_time E s) b)"
  "out (bank_of E live b s) w = used E s b w - spent s b w"
  "gone (bank_of E live b s) = spent s b"
  by (simp_all add: bank_of_def)

lemma spent_used: "spent s b w \<le> used E s b w"
  by (simp add: used_def)

text \<open>Events that neither spend from the bucket nor bring tokens: time may pass, loans may be lost.\<close>

lemma bank_pass:
  assumes "time a \<le> t"
    and "current c = current a \<and> (\<forall>n w. current a = Some (n, w) \<longrightarrow> t \<le> w) \<or>
      current c = None \<and> (\<forall>n w. current a = Some (n, w) \<longrightarrow> time a \<le> w \<and> w \<le> t)"
    and "time c = t" and "out c = out a" and "gone c = gone a"
  shows "(bank_step Q P)\<^sup>*\<^sup>* a c"
  using assms(2)
proof
  assume k: "current c = current a \<and> (\<forall>n w. current a = Some (n, w) \<longrightarrow> t \<le> w)"
  then have "bank_step Q P a (a\<lparr>time := t\<rparr>)" using assms(1) by (intro Pass) auto
  moreover have "c = a\<lparr>time := t\<rparr>" using assms k by simp
  ultimately show ?thesis by blast
next
  assume k: "current c = None \<and> (\<forall>n w. current a = Some (n, w) \<longrightarrow> time a \<le> w \<and> w \<le> t)"
  show ?thesis
  proof (cases "current a")
    case None
    then have "bank_step Q P a (a\<lparr>time := t\<rparr>)" using assms(1) by (intro Pass) auto
    moreover have "c = a\<lparr>time := t\<rparr>" using assms k None by simp
    ultimately show ?thesis by blast
  next
    case (Some nw)
    then obtain n w where nw: "current a = Some (n, w)" by (cases nw) auto
    let ?a = "a\<lparr>time := w\<rparr>" and ?b = "a\<lparr>time := w, current := None\<rparr>"
    have "bank_step Q P a ?a" using k nw by (intro Pass) auto
    moreover have "bank_step Q P ?a ?b" using Close [of ?a n w Q P] nw by simp
    moreover have "bank_step Q P ?b (?b\<lparr>time := t\<rparr>)" using k nw by (intro Pass) auto
    moreover have "c = ?b\<lparr>time := t\<rparr>" using assms k by simp
    ultimately show ?thesis by (meson converse_rtranclp_into_rtranclp rtranclp.rtrancl_refl)
  qed
qed

lemma spent_step:
  "spent (step_check E p i c s) = spent s" "spent (step_enter p i c s) = spent s"
  "spent (step_serve E ops n p i c u s) = spent s" "spent (step_reply E gap p i c u res s) = spent s"
  "spent (step_unlock p i c o' s) = spent s" "spent (step_notify p i c m o' s) = spent s"
  "spent (step_remove p i c s) = spent s" "spent (step_visit E i c x l s) = spent s"
  "spent (step_crash E i s) = spent s" "spent (step_return E ops n i k l s) = spent s"
  by (simp_all add: step_check_def step_enter_def step_serve_def step_reply_def step_unlock_def step_notify_def
      step_remove_def step_visit_def step_crash_def step_return_def Let_def
      split: sum.split bool.split prod.split)

lemma spent_step_spend:
  "spent (step_spend E p i c s) = spent s \<or>
   (\<exists>w. spent (step_spend E p i c s) = (spent s)(c := (spent s c)(w := Suc (spent s c w))))"
  by (auto simp: step_spend_def note_spent_def split: sum.split prod.split option.split)

lemma spent_fire: "fire E ops e s = Some t \<Longrightarrow> \<forall>p. e \<noteq> Spend p \<Longrightarrow> spent t = spent s"
  by (cases e) (auto simp: fire_iff spent_step)

context redis_server
begin

lemma bank_idle:
  assumes ok: "counters_ok live (redis s) (server_time E s)"
    and "redis t = redis s" and "clock s \<le> clock t" and "spent t b = spent s b"
    and "\<And>w. used E t b w \<le> used E s b w"
  shows "(bank_step Q P)\<^sup>*\<^sup>* (bank_of E live b s) (bank_of E live b t)"
proof -
  let ?a = "bank_of E live b s" and ?c = "bank_of E live b t"
  let ?b = "?a\<lparr>time := time ?c, current := current ?c\<rparr>"
  let ?W = "window_of live (redis s) (server_time E s) b" and ?W' = "window_of live (redis s) (server_time E t) b"
  have le: "server_time E s \<le> server_time E t" using assms(3) by (rule server_time_mono)
  have "?W' = ?W \<and> (\<forall>n w. ?W = Some (n, w) \<longrightarrow> server_time E t \<le> w) \<or>
      ?W' = None \<and> (\<forall>n w. ?W = Some (n, w) \<longrightarrow> server_time E s \<le> w \<and> w \<le> server_time E t)"
  proof (cases ?W)
    case None
    then show ?thesis using svc.win_none [OF ok le] by simp
  next
    case (Some nw)
    then obtain n w where nw: "?W = Some (n, w)" by (cases nw) auto
    have ok': "counters_ok live (redis s) (server_time E t)" using svc.ok_time [OF ok le] .
    show ?thesis using svc.win_time [OF ok le nw] svc.win_bounds [OF ok nw] svc.win_bounds [OF ok', of b n w] nw by auto
  qed
  then have "(bank_step Q P)\<^sup>*\<^sup>* ?a ?b"
    using le assms(2) by (intro bank_pass) (auto simp: apfst_def map_prod_def)
  moreover have "bank_step Q P ?b (?b\<lparr>out := out ?c\<rparr>)"
    using assms(4,5) by (intro Lose) (simp add: diff_le_mono)
  moreover have "?b\<lparr>out := out ?c\<rparr> = ?c"
    using assms(4) by simp
  ultimately show ?thesis by (metis rtranclp.rtrancl_into_rtrancl)
qed

lemma bank_spend:
  assumes ok: "counters_ok live (redis s) (server_time E s)" and wf: "well_formed E s"
    and task: "tasks s p = Some (Task i c k)" and quiet: "\<not> visited s i c"
  shows "(bank_step Q P)\<^sup>*\<^sup>* (bank_of E live b s) (bank_of E live b (step_spend E p i c s))"
proof -
  let ?t = "step_spend E p i c s"
  have less: "used E ?t b w + in_task (tasks s p) b w = used E s b w" for w
    using used_spending [OF _ _ quiet] well_formed_task [OF wf task] by blast
  have less: "used E ?t b w \<le> used E s b w" for w using less [of w] by simp
  have same: "server_time E ?t = server_time E s" by (simp add: server_time_def)
  consider "spent ?t b = spent s b" | w where "spent ?t b = (spent s b)(w := Suc (spent s b w))"
    using spent_step_spend [of E p i c s] by (cases "c = b") auto
  then show ?thesis
  proof cases
    case 1 then show ?thesis using less by (intro bank_idle [OF ok]) simp_all
  next
    case (2 w)
    let ?a = "bank_of E live b s" and ?c = "bank_of E live b ?t"
    have "Suc (spent s b w) \<le> used E s b w" using spent_used [of ?t b w E] less [of w] 2 by simp
    then obtain m where m: "out ?a w = Suc m" by (cases "used E s b w - spent s b w") auto
    let ?b = "?a\<lparr>out := (out ?a)(w := m), gone := (gone ?a)(w := Suc (gone ?a w))\<rparr>"
    have "bank_step Q P ?a ?b" by (rule Spend [OF m])
    moreover have "bank_step Q P ?b (?b\<lparr>out := out ?c\<rparr>)"
    proof (rule Lose)
      show "out ?c v \<le> out ?b v" for v using m less [of v] 2 by (cases "v = w") auto
    qed
    moreover have "?b\<lparr>out := out ?c\<rparr> = ?c" using 2 same by simp
    ultimately show ?thesis by (metis converse_rtranclp_into_rtranclp r_into_rtranclp)
  qed
qed

lemma bank_serve:
  assumes bal: "balanced E live s" and E: "env_ok E" and wf: "well_formed E s"
    and task: "tasks s p = Some (Task i c (Leasing u))"
  shows "(bank_step (limit E b) (period E b))\<^sup>*\<^sup>* (bank_of E live b s) (bank_of E live b (step_serve E ops n p i c u s))"
proof (rule served_by [OF wf, of ops c n p i u])
  let ?t = "step_serve E ops n p i c u s"
  fix res r1 res' r'
  assume cd: "lease_call E ops Delivered s c = (res, r1)" and c': "lease_call E ops n s c = (res', r')"
    and step: "?t = goto p i c (Replied u res') (s\<lparr>redis := r'\<rparr>)"
    and net: "r' = redis s \<and> isl res' \<or> r' = r1 \<and> (isl res' \<or> res' = res)"
  let ?now = "server_time E s" and ?a = "bank_of E live b s" and ?c = "bank_of E live b ?t"
  have ok: "counters_ok live (redis s) ?now" using bal by (simp add: balanced_def)
  have p: "p < n_tasks E" using well_formed_task [OF wf task] by simp
  have used: "used E ?t d w = used E s d w + (if c = d then in_reply (Replied u res') w else 0)" for d w
    using used_goto [OF p, of i c "Replied u res'" "s\<lparr>redis := r'\<rparr>" d w] task step by (cases "c = d") simp_all
  obtain k pt e m where
    res: "res = Inr (word_of_int k, word_of_int pt, word_of_int e)"
    and win: "window_of live r1 ?now = (window_of live (redis s) ?now)(c \<mapsto> (m, e))"
    and k: "0 \<le> k" "k \<le> 2 ^ 53" "?now \<le> e" "e \<le> 2 ^ 53"
    and rem: "\<And>x. rem_in (Some (m, e)) x + (if x = e then nat k else 0) = rem_in (window_of live (redis s) ?now c) x +
         (if window_of live (redis s) ?now c = None \<and> x = e then unat (quota (policy_for (conf E) c)) else 0)"
    and new: "window_of live (redis s) ?now c = None \<Longrightarrow>
        ?now < e \<and> e = ?now + 1000 * uint (as_secs (reset_in (policy_for (conf E) c)))"
      "\<And>j e'. window_of live (redis s) ?now c = Some (j, e') \<Longrightarrow> e' = e"
    by (rule svc.lease_accounts [OF ok env_ok_lease_args [OF E wf] cd]) (rule that)
  show ?thesis
  proof (cases "c = b \<and> r' = r1")
    case False
    then have "window_of live r' ?now b = window_of live (redis s) ?now b" "\<And>w. used E ?t b w = used E s b w"
      using net win used by (auto simp: isl_def)
    then have "?c = ?a" using step by (simp add: bank_of_def)
    then show ?thesis by simp
  next
    case True
    have "0 \<le> ?now" by (simp add: server_time_def)
    then have e: "sint (word_of_int e :: i64) = e" using k by (intro sint_of_int_small) auto
    have reply: "in_reply (Replied u res') w \<le> (if w = e then nat k else 0)" for w
      using net res e k by (cases res') (auto simp: unat_word_of_int)
    define a1 where "a1 = (if current ?a = None then ?a\<lparr>current := Some (limit E b, time ?a + period E b)\<rparr> else ?a)"
    have opened: "(bank_step (limit E b) (period E b))\<^sup>*\<^sup>* ?a a1"
      using Open [of ?a "limit E b" "period E b"] by (auto simp: a1_def)
    have a1: "current a1 = Some (nat m + nat k, e)" "time a1 = ?now" "out a1 = out ?a" "gone a1 = gone ?a"
      using rem [of e] new True
      by (cases "window_of live (redis s) ?now b"; auto simp: a1_def limit_def period_def)+
    let ?a2 = "a1\<lparr>current := Some (nat m, e), out := (out a1)(e := out a1 e + nat k)\<rparr>"
    have lent: "bank_step (limit E b) (period E b) a1 ?a2" using a1(1) by (intro Lend) simp
    have less: "out ?c w \<le> out ?a2 w" for w
      using used [of b w] reply [of w] True step spent_used [of s b w E] a1(3) by (auto split: if_splits)
    have "bank_step (limit E b) (period E b) ?a2 (?a2\<lparr>out := out ?c\<rparr>)" by (rule Lose [OF less])
    moreover have "?a2\<lparr>out := out ?c\<rparr> = ?c" using a1 step win True by simp
    ultimately show ?thesis using opened lent by (metis rtranclp.rtrancl_into_rtrancl)
  qed
qed

lemma bank_return:
  assumes bal: "balanced E live s" and E: "env_ok E" and wf: "well_formed E s"
    and c: "cleaners s i = Returning l" "k < length l"
  shows "(bank_step Q P)\<^sup>*\<^sup>* (bank_of E live b s) (bank_of E live b (step_return E ops n i k l s))"
proof -
  let ?now = "server_time E s" and ?t = "step_return E ops n i k l s"
  let ?a = "bank_of E live b s" and ?c = "bank_of E live b ?t"
  let ?l = "Returning (take k l @ drop (Suc k) l)"
  obtain a toks x r' where lot: "l ! k = (a, toks, x)" "toks \<noteq> 0"
    and step: "?t = set_cleaner i ?l (s\<lparr>redis := r'\<rparr>)"
    and r': "r' = snd (cache_release ops n (redis s) ?now a toks x)"
    and used: "\<And>r d w. used E (set_cleaner i ?l (s\<lparr>redis := r\<rparr>)) d w +
       (if a = d \<and> sint x = w then unat toks else 0) = used E s d w"
    by (rule returned_by [OF wf c, of n]) (rule that)
  have ok: "counters_ok live (redis s) ?now" using bal by (simp add: balanced_def)
  have "unat toks \<le> used E s a (sint x)" using used [of "redis s" a "sint x"] by simp
  from return_fits [OF bal E wf this lot(2)]
  have fits: "0 \<le> sint x" "exact (sint x)" "rem_in (window_of live (redis s) ?now a) (sint x) + unat toks \<le> 2 ^ 53"
    by auto
  obtain released v where abs: "abs_release (uint toks) (sint x) (window_of live (redis s) ?now a) = (released, v)"
    by fastforce
  then have win: "window_of live (snd (cache_release ops Delivered (redis s) ?now a toks x)) ?now =
      (window_of live (redis s) ?now)(a := v)"
    using svc.release_abs [OF ok fits abs] by auto
  have less: "used E ?t b w \<le> used E s b w" for w using used [of r' b w] by (simp add: step)
  show ?thesis
  proof (cases "a = b \<and> r' \<noteq> redis s \<and> released")
    case False
    have "r' \<in> {redis s, snd (cache_release ops Delivered (redis s) ?now a toks x)}"
      unfolding r' by (rule cache_release_net)
    then have "window_of live r' ?now b = window_of live (redis s) ?now b"
      using False win abs by (auto simp: abs_release_def split: option.splits if_splits)
    then have "?a\<lparr>out := out ?c\<rparr> = ?c" using step by simp
    moreover have "bank_step Q P ?a (?a\<lparr>out := out ?c\<rparr>)"
      using less by (intro Lose) (simp add: step diff_le_mono)
    ultimately show ?thesis by (metis r_into_rtranclp)
  next
    case True
    then obtain j where j: "window_of live (redis s) ?now b = Some (j, sint x)" "v = Some (j + uint toks, sint x)"
      using abs by (auto simp: abs_release_def split: option.splits if_splits)
    have "r' = snd (cache_release ops Delivered (redis s) ?now a toks x)"
      using cache_release_net [of ops n "redis s" ?now a toks x] True r' by auto
    then have after: "window_of live r' ?now b = Some (j + uint toks, sint x)" using win j True by simp
    have "0 \<le> j" using svc.win_bounds [OF ok j(1)] by simp
    then have sum: "nat (j + uint toks) = nat j + unat toks" by (simp add: nat_add_distrib)
    have lent: "out ?a w = out ?c w + (if w = sint x then unat toks else 0)" for w
      using used [of r' b w] spent_used [of ?t b w E] True by (auto simp: step)
    have "bank_step Q P ?a (?a\<lparr>current := Some (nat j + unat toks, sint x), out := (out ?a)(sint x := out ?c (sint x))\<rparr>)"
      using j(1) lent [of "sint x"] by (intro Back) simp_all
    moreover have "(out ?a)(sint x := out ?c (sint x)) = out ?c" using lent by (auto simp: fun_eq_iff)
    moreover have "?a\<lparr>current := Some (nat j + unat toks, sint x), out := out ?c\<rparr> = ?c"
      using after sum step by simp
    ultimately show ?thesis by (metis r_into_rtranclp)
  qed
qed

lemma bank_steps:
  assumes bal: "balanced E live s" and E: "env_ok E" and wf: "well_formed E s"
    and e: "fire E ops e s = Some t" and q: "quiet s e"
  shows "(bank_step (limit E b) (period E b))\<^sup>*\<^sup>* (bank_of E live b s) (bank_of E live b t)"
proof -
  have ok: "counters_ok live (redis s) (server_time E s)" using bal by (simp add: balanced_def)
  have other: ?thesis
    if "\<forall>p n. e \<noteq> Serve p n" "\<forall>i k n. e \<noteq> Return i k n" "\<forall>p. e \<noteq> event.Spend p"
    using quiet_step_used [OF wf e q that(1,2)] spent_fire [OF e that(3)] by (intro bank_idle [OF ok]) auto
  show ?thesis
  proof (cases e)
    case Serve then show ?thesis using e by (auto simp: fire_iff intro: bank_serve [OF bal E wf])
  next
    case Return then show ?thesis using e by (auto simp: fire_iff intro: bank_return [OF bal E wf])
  next
    case Spend then show ?thesis using e q by (auto simp: fire_iff quiet_def intro: bank_spend [OF ok wf])
  qed (rule other; simp)+
qed

end

context deployment
begin

lemma bank_run:
  assumes "run (quiet_fire E ops) es s = Some t" and "well_formed E s" and "balanced E live s"
  shows "(bank_step (limit E b) (period E b))\<^sup>*\<^sup>* (bank_of E live b s) (bank_of E live b t)"
proof -
  let ?I = "\<lambda>t. well_formed E t \<and> balanced E live t \<and>
    (bank_step (limit E b) (period E b))\<^sup>*\<^sup>* (bank_of E live b s) (bank_of E live b t)"
  have "?I t"
  proof (rule run_keeps [OF assms(1), of ?I])
    fix e u v
    assume u: "?I u" and "quiet_fire E ops e u = Some v"
    then have v: "fire E ops e u = Some v" "quiet u e" by (auto simp: quiet_fire_def split: if_splits)
    then show "?I v"
      using u well_formed_step [OF _ v(1)] balanced_step [OF _ env _ v] bank_steps [OF _ env _ v]
      by (meson rtranclp_trans)
  qed (use assms in simp)
  then show ?thesis by simp
qed

lemma bank_booted:
  assumes "booted E live s"
  shows "solvent (limit E b) (period E b) (bank_of E live b s)"
proof -
  have "used E s c w = 0" for c w
    using assms by (auto simp: booted_def used_def boot_def held_def store_new_def)
  then have taken: "taken (bank_of E live b s) w = 0" for w using spent_used [of s b w E] by (simp add: taken_def)
  have "nat n \<le> limit E b" if "window_of live (redis s) (server_time E s) b = Some (n, w)" for n w
  proof -
    have "rem_in (window_of live (redis s) (server_time E s) b) w \<le> limit E b"
      using assms by (auto simp: booted_def boot_def)
    then show ?thesis using that by simp
  qed
  then show ?thesis by (auto simp: solvent_def taken)
qed

lemma bank_solvent:
  assumes "booted E live s0" and "run (quiet_fire E ops) es s0 = Some s"
  shows "well_formed E s \<and> balanced E live s" and "solvent (limit E b) (period E b) (bank_of E live b s)"
proof -
  have "policy_for (conf E) b \<in> {protected_policy (conf E), public_policy (conf E)}" by (cases b) auto
  then have "0 < as_secs (reset_in (policy_for (conf E) b))" using env by (auto simp: env_ok_def)
  then have P: "0 < period E b" by (simp add: period_def word_less_def)
  have start: "reach (booted E live) (fires (quiet_fire E ops)) s0" using assms(1) by (rule reach_start)
  show "well_formed E s \<and> balanced E live s"
    by (rule accounts.reach_inv [OF reach_run [OF start assms(2)]])
  have "(bank_step (limit E b) (period E b))\<^sup>*\<^sup>* (bank_of E live b s0) (bank_of E live b s)"
    using bank_run [OF assms(2)] accounts.reach_inv [OF start] by blast
  then show "solvent (limit E b) (period E b) (bank_of E live b s)"
    by (rule solvent_run [OF _ P bank_booted [OF assms(1)]])
qed

end

section \<open>Properties\<close>

text \<open>
  C4. The whole system is a bank of tokens for each bucket: in any run (any instances, skews,
  interleavings and faults, an instance spending nothing its shutdown has come past) every event,
  and so every part of the run, is a sequence of steps of an abstract bank that has no instances,
  requests or messages. It opens a window of \<open>quota\<close> tokens only when there is none,
  for \<open>reset_in\<close>; lends from the current window; takes loans back only into the
  window they are from while that lasts, or loses them; and spends only what is lent. So the
  bank's own invariant holds of the system: no window gives out more than the quota, and the
  windows that gave out anything lie a whole \<open>reset_in\<close> apart
  (\<open>solvent\<close>).
\<close>

theorem system_is_a_bank:
  assumes "redis_server ops live" and "env_ok E" and "booted E live s0"
    and "run (quiet_fire E ops) es s0 = Some s" and "run (quiet_fire E ops) fs s = Some t"
    and "Q = unat (quota (policy_for (conf E) b))" and "P = 1000 * uint (as_secs (reset_in (policy_for (conf E) b)))"
  shows "(bank_step Q P)\<^sup>*\<^sup>* (bank_of E live b s) (bank_of E live b t) \<and> solvent Q P (bank_of E live b s)"
proof -
  have dep: "deployment ops live E"
    using assms(1,2) by (simp add: deployment_def deployment_axioms_def)
  note here = deployment.bank_solvent [OF dep assms(3,4)]
  show ?thesis
    using deployment.bank_run [OF dep assms(5)] here by (simp add: assms(6,7) limit_def period_def)
qed

text \<open>One request that leases two of the three tokens and takes one of them.\<close>

theorem system_is_a_bank_witness:
  "\<exists>s. run (quiet_fire sample_env mem_ops) sample_run (boot sample_env 0 (\<lambda>_. None)) = Some s \<and>
     (bank_step 3 60000)\<^sup>*\<^sup>* \<lparr>time = 0, current = None, out = (\<lambda>_. 0), gone = (\<lambda>_. 0)\<rparr>
       (bank_of sample_env mem_live (Protected ''u'') s) \<and>
     current (bank_of sample_env mem_live (Protected ''u'') s) = Some (1, 60000) \<and>
     gone (bank_of sample_env mem_live (Protected ''u'') s) 60000 = 1"
proof -
  let ?b = "Protected ''u''" and ?s0 = "boot sample_env 0 (\<lambda>_. None) :: mem sys"
  obtain s where s: "run (quiet_fire sample_env mem_ops) sample_run ?s0 = Some s"
    "window_of mem_live (redis s) (server_time sample_env s) ?b = Some (1, 60000)" "spent s ?b 60000 = 1"
    by (simp add: sample_run_def quiet_fire_def quiet_def fire_eval sample_env_def small_config_def window_of_def)
  have start: "bank_of sample_env mem_live ?b ?s0 = \<lparr>time = 0, current = None, out = (\<lambda>_. 0), gone = (\<lambda>_. 0)\<rparr>"
    by (simp add: bank_of_def window_of_def mem_live_def boot_def used_def held_def store_new_def
        server_time_def sample_env_def)
  have "3 = unat (quota (policy_for (conf sample_env) ?b))"
    "60000 = 1000 * uint (as_secs (reset_in (policy_for (conf sample_env) ?b)))"
    by (simp_all add: sample_env_def small_config_def)
  from system_is_a_bank [OF mem.redis_server_axioms sample_env_ok sample_booted _ s(1) this, of "[]"]
  show ?thesis using s by (intro exI [of _ s]) (simp add: start)
qed

end
