(* ===== verification/Sections.thy ===== *)
theory Sections
  imports Store
begin

text \<open>
  Why the sections of the store count as one step each. A read guard of \<open>DashMap\<close> lets other readers in, which
  may change the atomics of the same bucket, and the clock goes on; only writers are kept out. Here each load,
  store, exchange and clock reading under a guard is a step of its own, in any order with those of other requests.
\<close>

section \<open>Sections and their answers\<close>

text \<open>
  \<open>check\<close>; the end of \<open>consume\<close>; the end of \<open>lease\<close>, with the reply of Redis; \<open>buckets.remove\<close>; and an entry of the
  iteration of a shutdown.
\<close>
datatype segment =
    Look bucket_id
  | Take bucket_id
  | Put bucket_id u64 duration i64
  | Drop bucket_id
  | Gather bucket_id

datatype answer =
    Looked "store_error + bool"
  | Took "unit + u64"
  | Settled "store_error + unit"
  | Dropped
  | Collected "(bucket_id \<times> u64 \<times> i64) option"

text \<open>The bucket a section is about, and whether it may change the store.\<close>
fun of_bucket :: "segment \<Rightarrow> bucket_id" where
  "of_bucket (Look b) = b"
| "of_bucket (Take b) = b"
| "of_bucket (Put b n ttl w) = b"
| "of_bucket (Drop b) = b"
| "of_bucket (Gather b) = b"

fun changes :: "segment \<Rightarrow> bool" where
  "changes (Look b) \<longleftrightarrow> False"
| "changes (Gather b) \<longleftrightarrow> False"
| "changes _ \<longleftrightarrow> True"

definition collect :: "instant \<Rightarrow> store \<Rightarrow> bucket_id \<Rightarrow> (bucket_id \<times> u64 \<times> i64) option" where
  "collect now s b =
     (case buckets s b of
        Some x \<Rightarrow> if is_empty x \<or> is_expired now x then None else Some (b, tokens x, window x)
      | None \<Rightarrow> None)"

text \<open>A section in one step, with one reading of the clock.\<close>
fun atomic :: "segment \<Rightarrow> instant \<Rightarrow> store \<Rightarrow> answer \<times> store" where
  "atomic (Look b) now s = (Looked (check now s b), s)"
| "atomic (Take b) now s = (case spend now s b of (r, s') \<Rightarrow> (Took r, s'))"
| "atomic (Put b n ttl w) now s = (case apply_lease now s b (Inr (n, ttl, w)) of (r, s') \<Rightarrow> (Settled r, s'))"
| "atomic (Drop b) now s = (Dropped, remove_bucket s b)"
| "atomic (Gather b) now s = (Collected (collect now s b), s)"

section \<open>The same access by access\<close>

text \<open>
  Where a section is: before it has its guard, at an access it makes next, or through. \<open>Swap t v\<close>: about to exchange
  \<open>v\<close>, after it read the clock at \<open>t\<close>; \<open>Insert t\<close>: has made its bucket at \<open>t\<close> and waits for the write guard.
\<close>
datatype point =
    Start
  | Flag
  | Refuse
  | Tokens
  | Clock
  | Load instant
  | Swap instant u64
  | Wait
  | Insert instant
  | Answered answer

text \<open>Holding a read guard of the shard of its bucket.\<close>
fun inside :: "point \<Rightarrow> bool" where
  "inside Start \<longleftrightarrow> False"
| "inside (Insert t) \<longleftrightarrow> False"
| "inside (Answered a) \<longleftrightarrow> False"
| "inside _ \<longleftrightarrow> True"

text \<open>
  An access of a section: where it is next, what it leaves of its entry, and whether it has had its effect with
  that. \<open>get\<close> returns at once when there is no entry.
\<close>
fun look :: "bucket_id \<Rightarrow> instant \<Rightarrow> bucket option \<Rightarrow> point \<Rightarrow> point option" where
  "look b now None Start = Some (Answered (Looked (Inr False)))"
| "look b now (Some x) Start = Some Flag"
| "look b now (Some x) Flag = Some (if is_exhausted x then Refuse else Tokens)"
| "look b now (Some x) Refuse =
     Some (Answered (Looked (Inl (Exhausted b (duration_since (expires_at x) now)))))"
| "look b now (Some x) Tokens = Some (if is_empty x then Answered (Looked (Inr False)) else Clock)"
| "look b now (Some x) Clock = Some (Answered (Looked (Inr (\<not> is_expired now x))))"
| "look b now _ _ = None"

fun collecting :: "bucket_id \<Rightarrow> instant \<Rightarrow> bucket option \<Rightarrow> point \<Rightarrow> point option" where
  "collecting b now None Start = Some (Answered (Collected None))"
| "collecting b now (Some x) Start = Some Tokens"
| "collecting b now (Some x) Tokens = Some (if is_empty x then Answered (Collected None) else Clock)"
| "collecting b now (Some x) Clock = Some (if is_expired now x then Answered (Collected None) else Load now)"
| "collecting b now (Some x) (Load t) = Some (Answered (Collected (Some (b, tokens x, window x))))"
| "collecting b now _ _ = None"

text \<open>
  \<open>Bucket::consume\<close> loads the counter and then tries to exchange it for one less, again with the value it finds
  when that fails, as \<open>try_update\<close> of the standard library does; \<open>ok\<close> is false when the exchange fails for no reason.
\<close>
fun take_token :: "bool \<Rightarrow> instant \<Rightarrow> bucket option \<Rightarrow> point \<Rightarrow> (point \<times> bucket option \<times> bool) option" where
  "take_token ok now None Start = Some (Answered (Took (Inr 0)), None, True)"
| "take_token ok now (Some x) Start = Some (Clock, Some x, False)"
| "take_token ok now (Some x) Clock =
     (if is_expired now x then Some (Answered (Took (Inl ())), Some x, True) else Some (Load now, Some x, False))"
| "take_token ok now (Some x) (Load t) =
     (case checked_sub (tokens x) 1 of
        None \<Rightarrow> Some (Answered (Took (Inr 0)), Some x, True)
      | Some n \<Rightarrow> Some (Swap t (tokens x), Some x, False))"
| "take_token ok now (Some x) (Swap t v) =
     (if ok \<and> tokens x = v then Some (Answered (Took (Inr (v - 1))), Some (x\<lparr>tokens := v - 1\<rparr>), True)
      else case checked_sub (tokens x) 1 of
        None \<Rightarrow> Some (Answered (Took (Inr 0)), Some x, True)
      | Some n \<Rightarrow> Some (Swap t (tokens x), Some x, False))"
| "take_token ok now _ _ = None"

text \<open>\<open>free\<close>: nobody holds a read guard of the shard that the bucket is in.\<close>
fun put :: "bucket_id \<Rightarrow> u64 \<Rightarrow> duration \<Rightarrow> i64 \<Rightarrow> bool \<Rightarrow> instant \<Rightarrow> bucket option \<Rightarrow> point
    \<Rightarrow> (point \<times> bucket option \<times> bool) option" where
  "put b n ttl w free now e Start =
     (if n = 0
      then case e of
             Some x \<Rightarrow> Some (Flag, Some x, False)
           | None \<Rightarrow> Some (Answered (Settled (Inl (Exhausted b ttl))), None, True)
      else Some (Insert now, e, False))"
| "put b n ttl w free now (Some x) Flag = Some (Wait, Some (set_exhausted x), True)"
| "put b n ttl w free now (Some x) Wait =
     Some (Answered (Settled (Inl (Exhausted b (duration_since (expires_at x) now)))), Some x, False)"
| "put b n ttl w free now e (Insert t) =
     (if free then Some (Answered (Settled (Inr ())), Some (bucket_new t n ttl w), True) else None)"
| "put b n ttl w free now _ _ = None"

definition drop_entry :: "bool \<Rightarrow> bucket option \<Rightarrow> point \<Rightarrow> (point \<times> bucket option \<times> bool) option" where
  "drop_entry free e pt = (if free \<and> pt = Start then Some (Answered Dropped, None, True) else None)"

fun access :: "segment \<Rightarrow> bool \<Rightarrow> bool \<Rightarrow> instant \<Rightarrow> bucket option \<Rightarrow> point
    \<Rightarrow> (point \<times> bucket option \<times> bool) option" where
  "access (Look b) ok free now e pt = map_option (\<lambda>pt'. (pt', e, False)) (look b now e pt)"
| "access (Take b) ok free now e pt = take_token ok now e pt"
| "access (Put b n ttl w) ok free now e pt = put b n ttl w free now e pt"
| "access (Drop b) ok free now e pt = drop_entry free e pt"
| "access (Gather b) ok free now e pt = map_option (\<lambda>pt'. (pt', e, False)) (collecting b now e pt)"

section \<open>Many sections at once\<close>

text \<open>
  Sections are numbered; each is begun once. The last two fields only record: the changes of the store in their
  order, each with its section and the store before and after, and the stores there were while a section ran.
  \<open>iter\<close>: the shard that the iteration of the cleanup task is in; it keeps its guard from one entry to the next.
\<close>
record machine =
  reading :: instant
  mem :: store
  runs :: "nat \<Rightarrow> (segment \<times> point \<times> instant) option"
  iter :: "nat option"
  effects :: "(nat \<times> store \<times> store) list"
  seen :: "nat \<Rightarrow> store set"

definition idle :: "instant \<Rightarrow> store \<Rightarrow> machine" where
  "idle t s = \<lparr>reading = t, mem = s, runs = Map.empty, iter = None, effects = [], seen = (\<lambda>_. {})\<rparr>"

text \<open>
  A \<open>DashMap\<close> locks whole shards: who inserts or removes waits for the readers of every bucket in its shard, and
  for the iteration. \<open>sh b\<close> is the shard of a bucket, whatever hash it comes from.
\<close>
definition is_free :: "(bucket_id \<Rightarrow> nat) \<Rightarrow> nat \<Rightarrow> machine \<Rightarrow> bucket_id \<Rightarrow> bool" where
  "is_free sh N m b \<longleftrightarrow> iter m \<noteq> Some (sh b) \<and>
     (\<forall>q<N. case runs m q of
        Some (sec, pt, t0) \<Rightarrow> \<not> (sh (of_bucket sec) = sh b \<and> inside pt)
      | None \<Rightarrow> True)"

fun through :: "point \<Rightarrow> bool" where
  "through (Answered a) \<longleftrightarrow> True"
| "through _ \<longleftrightarrow> False"

definition now_seen :: "store \<Rightarrow> machine \<Rightarrow> nat \<Rightarrow> store set" where
  "now_seen s m q =
     (case runs m q of
        Some (sec, pt, t) \<Rightarrow> if through pt then seen m q else insert s (seen m q)
      | None \<Rightarrow> seen m q)"

datatype move = Pass nat | Hold nat | Leave | Begin nat segment | Go nat bool

fun micro :: "(bucket_id \<Rightarrow> nat) \<Rightarrow> nat \<Rightarrow> move \<Rightarrow> machine \<Rightarrow> machine option" where
  "micro sh N (Pass d) m = Some (m\<lparr>reading := reading m + d\<rparr>)"
| "micro sh N (Hold k) m = (if iter m = None then Some (m\<lparr>iter := Some k\<rparr>) else None)"
| "micro sh N Leave m = (if iter m = None then None else Some (m\<lparr>iter := None\<rparr>))"
| "micro sh N (Begin p sec) m =
     (if p < N \<and> runs m p = None
      then Some (m\<lparr>runs := (runs m)(p \<mapsto> (sec, Start, reading m)), seen := (seen m)(p := {mem m})\<rparr>)
      else None)"
| "micro sh N (Go p ok) m =
     (case runs m p of
        None \<Rightarrow> None
      | Some (sec, pt, t0) \<Rightarrow>
          let b = of_bucket sec
          in (case access sec ok (is_free sh N m b) (reading m) (buckets (mem m) b) pt of
                None \<Rightarrow> None
              | Some (pt', e, effect) \<Rightarrow>
                  let s' = (mem m)\<lparr>buckets := (buckets (mem m))(b := e)\<rparr>
                  in Some (m\<lparr>mem := s', runs := (runs m)(p \<mapsto> (sec, pt', t0)),
                       effects := (if effect then effects m @ [(p, mem m, s')] else effects m),
                       seen := now_seen s' m\<rparr>)))"

fun linked :: "store \<Rightarrow> (nat \<times> store \<times> store) list \<Rightarrow> store \<Rightarrow> bool" where
  "linked s [] t \<longleftrightarrow> s = t"
| "linked s ((p, u, v) # l) t \<longleftrightarrow> u = s \<and> linked v l t"

lemma linked_snoc: "linked s (l @ [(p, u, v)]) t \<longleftrightarrow> linked s l u \<and> v = t"
  by (induction s l u rule: linked.induct) auto

section \<open>What is known at each access\<close>

text \<open>
  The two answers that no single moment explains. A \<open>check\<close> reads that the bucket is not exhausted, then that it is
  empty, while in between it was exhausted with tokens; and a bucket is emptied after the shutdown saw tokens in it,
  so that it collects none of them to return.
\<close>
fun stray :: "segment \<Rightarrow> store \<Rightarrow> answer \<Rightarrow> bool" where
  "stray (Look b) s a \<longleftrightarrow>
     a = Looked (Inr False) \<and> (case buckets s b of Some x \<Rightarrow> exhausted x \<and> tokens x \<noteq> 0 | None \<Rightarrow> False)"
| "stray (Gather b) s a \<longleftrightarrow>
     (case buckets s b of Some x \<Rightarrow> tokens x = 0 \<and> a = Collected (Some (b, 0, window x)) | None \<Rightarrow> False)"
| "stray _ s a \<longleftrightarrow> False"

text \<open>What another section may do to a bucket while a read guard is held.\<close>
definition aged :: "bucket \<Rightarrow> bucket \<Rightarrow> bool" where
  "aged x y \<longleftrightarrow> (\<exists>n\<le>tokens x. y = x\<lparr>tokens := n\<rparr>) \<or> y = set_exhausted x"

text \<open>
  From \<open>t0\<close> to \<open>now\<close>, over the stores \<open>S\<close>, of which \<open>s\<close> is the last, section \<open>p\<close> has come to this point; \<open>L\<close>
  are the changes so far.
\<close>
definition answers ::
    "instant \<Rightarrow> instant \<Rightarrow> store set \<Rightarrow> (nat \<times> store \<times> store) set \<Rightarrow> nat \<Rightarrow> segment \<Rightarrow> answer \<Rightarrow> bool" where
  "answers t0 now S L p sec a \<longleftrightarrow>
     (\<exists>s t. t0 \<le> t \<and> t \<le> now \<and> s \<in> S \<and> (changes sec \<longrightarrow> (p, s, snd (atomic sec t s)) \<in> L) \<and>
        (a = fst (atomic sec t s) \<or> stray sec s a))"

fun look_at :: "store set \<Rightarrow> bucket_id \<Rightarrow> bucket \<Rightarrow> point \<Rightarrow> bool" where
  "look_at S b x Flag \<longleftrightarrow> True"
| "look_at S b x Refuse \<longleftrightarrow> exhausted x"
| "look_at S b x Tokens \<longleftrightarrow>
     (\<exists>s\<in>S. \<exists>y. buckets s b = Some y \<and> \<not> exhausted y \<and> expires_at y = expires_at x \<and> tokens x \<le> tokens y) \<and>
     (exhausted x \<longrightarrow> (\<exists>s\<in>S. \<exists>y. buckets s b = Some y \<and> (exhausted y \<longleftrightarrow> tokens y \<noteq> 0)))"
| "look_at S b x Clock \<longleftrightarrow>
     (\<exists>s\<in>S. \<exists>y. buckets s b = Some y \<and> \<not> exhausted y \<and> expires_at y = expires_at x \<and> tokens y \<noteq> 0)"
| "look_at S b x _ \<longleftrightarrow> False"

fun take_at :: "instant \<Rightarrow> instant \<Rightarrow> bucket \<Rightarrow> point \<Rightarrow> bool" where
  "take_at t0 now x Clock \<longleftrightarrow> True"
| "take_at t0 now x (Load t) \<longleftrightarrow> t0 \<le> t \<and> t \<le> now \<and> \<not> is_expired t x"
| "take_at t0 now x (Swap t v) \<longleftrightarrow> t0 \<le> t \<and> t \<le> now \<and> \<not> is_expired t x \<and> v \<noteq> 0"
| "take_at t0 now x _ \<longleftrightarrow> False"

fun collect_at :: "instant \<Rightarrow> instant \<Rightarrow> bucket \<Rightarrow> point \<Rightarrow> bool" where
  "collect_at t0 now x Tokens \<longleftrightarrow> True"
| "collect_at t0 now x Clock \<longleftrightarrow> True"
| "collect_at t0 now x (Load t) \<longleftrightarrow> t0 \<le> t \<and> t \<le> now \<and> \<not> is_expired t x"
| "collect_at t0 now x _ \<longleftrightarrow> False"

fun put_at :: "store set \<Rightarrow> (nat \<times> store \<times> store) set \<Rightarrow> nat \<Rightarrow> bucket_id \<Rightarrow> bucket \<Rightarrow> point \<Rightarrow> bool" where
  "put_at S L p b x Flag \<longleftrightarrow> True"
| "put_at S L p b x Wait \<longleftrightarrow>
     (\<exists>s\<in>S. \<exists>y. buckets s b = Some y \<and> expires_at y = expires_at x \<and>
        (p, s, s\<lparr>buckets := (buckets s)(b \<mapsto> set_exhausted y)\<rparr>) \<in> L)"
| "put_at S L p b x _ \<longleftrightarrow> False"

fun under_guard :: "instant \<Rightarrow> instant \<Rightarrow> store set \<Rightarrow> (nat \<times> store \<times> store) set \<Rightarrow> nat \<Rightarrow> bucket \<Rightarrow> segment \<Rightarrow> point
    \<Rightarrow> bool" where
  "under_guard t0 now S L p x (Look b) pt \<longleftrightarrow> look_at S b x pt"
| "under_guard t0 now S L p x (Take b) pt \<longleftrightarrow> take_at t0 now x pt"
| "under_guard t0 now S L p x (Put b n ttl w) pt \<longleftrightarrow> n = 0 \<and> put_at S L p b x pt"
| "under_guard t0 now S L p x (Drop b) pt \<longleftrightarrow> False"
| "under_guard t0 now S L p x (Gather b) pt \<longleftrightarrow> collect_at t0 now x pt"

definition reads :: "instant \<Rightarrow> instant \<Rightarrow> bucket option \<Rightarrow> store set \<Rightarrow> (nat \<times> store \<times> store) set \<Rightarrow> nat
    \<Rightarrow> segment \<Rightarrow> point \<Rightarrow> bool" where
  "reads t0 now e S L p sec pt \<longleftrightarrow>
     (case pt of
        Start \<Rightarrow> True
      | Answered a \<Rightarrow> answers t0 now S L p sec a
      | Insert t \<Rightarrow> t0 \<le> t \<and> t \<le> now \<and> (\<exists>b n ttl w. sec = Put b n ttl w \<and> n \<noteq> 0)
      | _ \<Rightarrow> (\<exists>x. e = Some x \<and> under_guard t0 now S L p x sec pt))"

lemma reads_simps [simp]:
  "reads t0 now e S L p sec Start"
  "reads t0 now e S L p sec (Answered a) = answers t0 now S L p sec a"
  "reads t0 now e S L p sec (Insert t) \<longleftrightarrow> t0 \<le> t \<and> t \<le> now \<and> (\<exists>b n ttl w. sec = Put b n ttl w \<and> n \<noteq> 0)"
  "inside pt \<Longrightarrow> reads t0 now e S L p sec pt \<longleftrightarrow> (\<exists>x. e = Some x \<and> under_guard t0 now S L p x sec pt)"
  by (auto simp: reads_def split: point.split)

subsection \<open>What others do does not matter\<close>

lemma answers_mono:
  "answers t0 now S L p sec a \<Longrightarrow> now \<le> now' \<Longrightarrow> S \<subseteq> S' \<Longrightarrow> L \<subseteq> L' \<Longrightarrow> answers t0 now' S' L' p sec a"
  unfolding answers_def
proof (elim exE conjE)
  fix s t
  assume "now \<le> now'" "S \<subseteq> S'" "L \<subseteq> L'" "t0 \<le> t" "t \<le> now" "s \<in> S"
    and "changes sec \<longrightarrow> (p, s, snd (atomic sec t s)) \<in> L" "a = fst (atomic sec t s) \<or> stray sec s a"
  then show "\<exists>s t. t0 \<le> t \<and> t \<le> now' \<and> s \<in> S' \<and> (changes sec \<longrightarrow> (p, s, snd (atomic sec t s)) \<in> L') \<and>
      (a = fst (atomic sec t s) \<or> stray sec s a)"
    by (intro exI [of _ s] exI [of _ t]) auto
qed

lemma aged_simps:
  assumes "aged x y"
  shows "expires_at y = expires_at x" "tokens y \<le> tokens x" "is_expired t y = is_expired t x"
    "exhausted x \<Longrightarrow> exhausted y" "exhausted y \<Longrightarrow> exhausted x \<or> tokens y = tokens x"
  using assms by (auto simp: aged_def is_expired_def)

lemma look_at_aged:
  assumes "look_at S b x pt" and "S \<subseteq> S'" and "aged x y" and "s \<in> S" "buckets s b = Some x"
    and "s' \<in> S'" "buckets s' b = Some y"
  shows "look_at S' b y pt"
proof (cases pt)
  case Tokens
  note a = aged_simps [OF assms(3)]
  have "\<exists>u\<in>S'. \<exists>z. buckets u b = Some z \<and> \<not> exhausted z \<and> expires_at z = expires_at y \<and> tokens y \<le> tokens z"
    using assms(1,2) a(1,2) Tokens by (fastforce intro: order_trans)
  moreover have "\<exists>u\<in>S'. \<exists>z. buckets u b = Some z \<and> (exhausted z \<longleftrightarrow> tokens z \<noteq> 0)" if "exhausted y"
  proof (cases "exhausted x")
    case True then show ?thesis using assms(1,2) Tokens by (fastforce)
  next
    case False
    then have "tokens y = tokens x" using a(5) that by simp
    then show ?thesis using assms(2,4-7) that False
      by (cases "tokens x = 0") (auto intro: bexI [of _ s] bexI [of _ s'])
  qed
  ultimately show ?thesis using Tokens by simp
qed (use assms aged_simps [OF assms(3)] in \<open>auto\<close>)

lemma put_at_mono:
  assumes "put_at S L p b x pt" and "S \<subseteq> S'" and "L \<subseteq> L'" and "expires_at y = expires_at x"
  shows "put_at S' L' p b y pt"
proof (cases pt)
  case Wait
  then obtain s z where "s \<in> S" "buckets s b = Some z" "expires_at z = expires_at x"
    "(p, s, s\<lparr>buckets := (buckets s)(b \<mapsto> set_exhausted z)\<rparr>) \<in> L" using assms(1) by auto
  then show ?thesis using Wait assms(2-4) by (auto intro!: bexI [of _ s])
qed (use assms(1) in auto)

lemma reads_aged:
  assumes r: "reads t0 now (buckets s (of_bucket sec)) S L p sec pt"
    and mono: "now \<le> now'" "S \<subseteq> S'" "L \<subseteq> L'"
    and here: "\<not> through pt \<Longrightarrow> s \<in> S \<and> s' \<in> S'"
    and aged: "\<And>x. inside pt \<Longrightarrow> buckets s (of_bucket sec) = Some x \<Longrightarrow>
        \<exists>y. buckets s' (of_bucket sec) = Some y \<and> aged x y"
  shows "reads t0 now' (buckets s' (of_bucket sec)) S' L' p sec pt"
proof (cases "inside pt")
  case False
  then show ?thesis using r mono answers_mono [OF _ mono] by (cases pt) auto
next
  case True
  then obtain x where x: "buckets s (of_bucket sec) = Some x" "under_guard t0 now S L p x sec pt" using r by auto
  then obtain y where y: "buckets s' (of_bucket sec) = Some y" "aged x y" using aged True by blast
  have "s \<in> S" "s' \<in> S'" using here True by (cases pt; simp)+
  note a = aged_simps [OF y(2)]
  have "under_guard t0 now' S' L' p y sec pt"
  proof (cases sec)
    case (Look b)
    then show ?thesis using x y \<open>s \<in> S\<close> \<open>s' \<in> S'\<close> by (auto intro: look_at_aged [OF _ mono(2)])
  next
    case Take then show ?thesis using x(2) mono(1) a(3) by (cases pt) auto
  next
    case (Put b n ttl w)
    then have "n = 0" "put_at S L p b x pt" using x(2) by simp_all
    then show ?thesis using Put put_at_mono [OF _ mono(2,3) a(1)] by simp
  next
    case Gather then show ?thesis using x(2) mono(1) a(3) by (cases pt) auto
  qed (use x in auto)
  then show ?thesis using y(1) True by simp
qed

subsection \<open>The accesses of each section\<close>

lemma aged_refl: "aged x x"
  unfolding aged_def by (rule disjI1) (rule exI [of _ "tokens x"], simp)

lemma reads_more:
  assumes "reads t0 now (buckets s (of_bucket sec)) S L p sec pt" and "L \<subseteq> L'" and "s \<in> S"
  shows "reads t0 now (buckets s (of_bucket sec)) S L' p sec pt"
  using aged_refl assms(3) by (intro reads_aged [OF assms(1) order_refl order_refl assms(2)]) auto

lemma answersI:
  "s \<in> S \<Longrightarrow> t0 \<le> t \<Longrightarrow> t \<le> now \<Longrightarrow> (changes sec \<Longrightarrow> (p, s, snd (atomic sec t s)) \<in> L) \<Longrightarrow>
   a = fst (atomic sec t s) \<or> stray sec s a \<Longrightarrow> answers t0 now S L p sec a"
  unfolding answers_def by blast

lemma look_reads:
  assumes st: "look b now (buckets s b) pt = Some pt'" and r: "reads t0 now (buckets s b) S L p (Look b) pt"
    and s: "s \<in> S" and t: "t0 \<le> now"
  shows "reads t0 now (buckets s b) S L p (Look b) pt'"
proof (cases "buckets s b")
  case None
  then show ?thesis
    using st s t by (cases pt) (auto intro!: answersI [of s _ _ now] simp: check_def)
next
  case (Some x)
  show ?thesis
  proof (cases pt)
    case Flag
    then show ?thesis using st s Some by (auto simp: is_exhausted_def intro!: bexI [of _ s])
  next
    case Refuse
    then have "exhausted x" using r Some by simp
    then have "check now s b = Inl (Exhausted b (duration_since (expires_at x) now))"
      using Some by (simp add: check_def is_exhausted_def)
    then show ?thesis using st s t Some Refuse by (auto intro!: answersI [of s _ _ now])
  next
    case Tokens
    then obtain u y where y: "u \<in> S" "buckets u b = Some y" "\<not> exhausted y" "expires_at y = expires_at x"
        "tokens x \<le> tokens y"
      and odd: "exhausted x \<Longrightarrow> \<exists>u\<in>S. \<exists>z. buckets u b = Some z \<and> (exhausted z \<longleftrightarrow> tokens z \<noteq> 0)"
      using r Some by auto
    show ?thesis
    proof (cases "tokens x = 0")
      case False
      then have "tokens y \<noteq> 0" using y(5) by auto
      then show ?thesis using False y(1-4) st Some Tokens by (auto simp: is_empty_def)
    next
      case True
      have "\<exists>u\<in>S. \<exists>z. buckets u b = Some z \<and> (exhausted z \<longleftrightarrow> tokens z \<noteq> 0)"
        using odd s Some True by (cases "exhausted x") auto
      then obtain u z where z: "u \<in> S" "buckets u b = Some z" "exhausted z \<longleftrightarrow> tokens z \<noteq> 0" by blast
      then have "Looked (Inr False) = fst (atomic (Look b) now u) \<or> stray (Look b) u (Looked (Inr False))"
        by (cases "exhausted z") (simp_all add: check_def is_exhausted_def is_empty_def)
      then show ?thesis using st Some Tokens True z(1) t by (auto intro!: answersI simp: is_empty_def)
    qed
  next
    case Clock
    then obtain u y where "u \<in> S" "buckets u b = Some y" "\<not> exhausted y" "expires_at y = expires_at x" "tokens y \<noteq> 0"
      using r Some by auto
    then show ?thesis using st Some Clock t
      by (auto intro!: answersI [of u _ _ now] simp: check_def is_exhausted_def is_empty_def is_expired_def)
  qed (use st Some in auto)
qed

lemma collecting_reads:
  assumes st: "collecting b now (buckets s b) pt = Some pt'" and r: "reads t0 now (buckets s b) S L p (Gather b) pt"
    and s: "s \<in> S" and t: "t0 \<le> now"
  shows "reads t0 now (buckets s b) S L p (Gather b) pt'"
proof (cases "buckets s b")
  case None
  then show ?thesis
    using st s t by (cases pt) (auto intro!: answersI [of s _ _ now] simp: collect_def)
next
  case (Some x)
  show ?thesis
  proof (cases pt)
    case (Load u)
    then have "t0 \<le> u" "u \<le> now" "\<not> is_expired u x" using r Some by auto
    then show ?thesis using st s Some Load
      by (auto intro!: answersI [of s _ _ u] simp: collect_def is_empty_def)
  qed (use st s t Some in \<open>auto intro!: answersI [of s _ _ now] simp: collect_def is_empty_def is_expired_def\<close>)
qed

lemma entry_same: "buckets s b = e \<Longrightarrow> s\<lparr>buckets := (buckets s)(b := e)\<rparr> = s"
  by (simp add: fun_upd_idem)

text \<open>A section that may change the store: \<open>s'\<close> is what it leaves.\<close>
lemma take_reads:
  assumes st: "take_token ok now (buckets s b) pt = Some (pt', e, eff)"
    and r: "reads t0 now (buckets s b) S L p (Take b) pt" and s: "s \<in> S" and t: "t0 \<le> now"
    and s': "s' = s\<lparr>buckets := (buckets s)(b := e)\<rparr>" and L: "L \<subseteq> L'" "eff \<Longrightarrow> (p, s, s') \<in> L'"
  shows "reads t0 now e S L' p (Take b) pt' \<and> (eff = through pt') \<and> (\<not> eff \<longrightarrow> e = buckets s b)"
proof -
  show ?thesis
  proof (cases "buckets s b")
    case None
    then have "e = None \<Longrightarrow> s' = s" using s' by (simp add: entry_same)
    then show ?thesis
      using None st s t L by (cases pt) (auto intro!: answersI [of s _ _ now] simp: spend_def)
  next
    case (Some x)
    have same: "e = Some x \<Longrightarrow> s' = s" using s' Some by (simp add: entry_same)
    have expired: "spend now s b = (Inl (), s)" if "is_expired now x" using Some that by (simp add: spend_def)
    have none: "spend u s b = (Inr 0, s)" if "\<not> is_expired u x" "tokens x = 0" for u
      using Some that by (auto simp: spend_def bucket_consume_eq intro!: store.equality)
    show ?thesis
    proof (cases pt)
      case Start
      then have "e = Some x" using st Some by auto
      then show ?thesis using st Some Start by auto
    next
      case Clock
      then have e: "e = Some x" using st Some by (auto split: if_splits)
      then show ?thesis using st s t L same Some expired Clock
        by (cases "is_expired now x") (auto intro!: answersI [of s _ _ now])
    next
      case (Load u)
      then have u: "t0 \<le> u" "u \<le> now" "\<not> is_expired u x" using r Some by auto
      have e: "e = Some x" using st Some Load by (auto split: option.splits)
      then show ?thesis using st s t L same Some Load u none [OF u(3)]
        by (cases "tokens x = 0") (auto intro!: answersI [of s _ _ u] simp: checked_sub_one)
    next
      case (Swap u v)
      then have u: "t0 \<le> u" "u \<le> now" "\<not> is_expired u x" "v \<noteq> 0" using r Some by auto
      have took: "spend u s b = (Inr (v - 1), s\<lparr>buckets := (buckets s)(b \<mapsto> x\<lparr>tokens := v - 1\<rparr>)\<rparr>)" if "tokens x = v"
        using Some u that by (simp add: spend_def bucket_consume_eq)
      show ?thesis
      proof (cases "ok \<and> tokens x = v")
        case True
        then show ?thesis using st s L s' u Some Swap took
          by (auto intro!: answersI [of s _ _ u])
      next
        case False
        then have e: "e = Some x" using st Some Swap by (auto split: option.splits if_splits)
        then show ?thesis using False st s L same u Some Swap none [OF u(3)]
          by (cases "tokens x = 0") (auto intro!: answersI [of s _ _ u] simp: checked_sub_one)
      qed
    qed (use st Some in auto)
  qed
qed

lemma put_reads:
  assumes st: "put b n ttl w free now (buckets s b) pt = Some (pt', e, eff)"
    and r: "reads t0 now (buckets s b) S L p (Put b n ttl w) pt" and s: "s \<in> S" and t: "t0 \<le> now"
    and s': "s' = s\<lparr>buckets := (buckets s)(b := e)\<rparr>" and L: "L \<subseteq> L'" "eff \<Longrightarrow> (p, s, s') \<in> L'"
  shows "reads t0 now e S L' p (Put b n ttl w) pt' \<and> (eff = ((pt' = Wait \<or> through pt') \<and> pt \<noteq> Wait)) \<and>
    (\<not> eff \<longrightarrow> e = buckets s b)"
proof (cases pt)
  case Start
  show ?thesis
  proof (cases "n = 0")
    case False
    then show ?thesis using st t Start by auto
  next
    case True
    then have e: "e = buckets s b" using st Start by (cases "buckets s b") auto
    then have "s' = s" using s' by (simp add: entry_same)
    then show ?thesis
      using st s t L e True Start
      by (cases "buckets s b") (auto simp: apply_lease_def intro!: answersI [of s _ _ now])
  qed
next
  case Flag
  then obtain x where x: "buckets s b = Some x" "n = 0" using r by auto
  then show ?thesis using st s L s' Flag by (auto intro!: bexI [of _ s])
next
  case Wait
  then obtain x u y where x: "buckets s b = Some x" "n = 0" and y: "u \<in> S" "buckets u b = Some y"
    "expires_at y = expires_at x" "(p, u, u\<lparr>buckets := (buckets u)(b \<mapsto> set_exhausted y)\<rparr>) \<in> L"
    using r by auto
  have "apply_lease now u b (Inr (0, ttl, w)) =
      (Inl (Exhausted b (duration_since (expires_at x) now)), u\<lparr>buckets := (buckets u)(b \<mapsto> set_exhausted y)\<rparr>)"
    using y by (simp add: apply_lease_def)
  moreover have "(p, u, u\<lparr>buckets := (buckets u)(b \<mapsto> set_exhausted y)\<rparr>) \<in> L'" using y(4) L(1) by blast
  ultimately show ?thesis using st x y(1) t Wait by (auto intro!: answersI [of u _ _ now])
next
  case (Insert u)
  then have "n \<noteq> 0" "t0 \<le> u" "u \<le> now" using r by auto
  then show ?thesis using st s s' L Insert
    by (auto simp: apply_lease_def intro!: answersI [of s _ _ u] split: if_splits)
qed (use st in \<open>cases "buckets s b"; auto\<close>)+

lemma drop_reads:
  assumes st: "drop_entry free (buckets s b) pt = Some (pt', e, eff)" and s: "s \<in> S" and t: "t0 \<le> now"
    and s': "s' = s\<lparr>buckets := (buckets s)(b := e)\<rparr>" and L: "eff \<Longrightarrow> (p, s, s') \<in> L'"
  shows "reads t0 now e S L' p (Drop b) pt' \<and> eff \<and> through pt'"
  using assms by (auto simp: drop_entry_def remove_bucket_def intro!: answersI [of s _ _ now] split: if_splits)

text \<open>Having had its effect.\<close>
fun effected :: "point \<Rightarrow> bool" where
  "effected Wait \<longleftrightarrow> True"
| "effected pt \<longleftrightarrow> through pt"

lemma access_reads:
  assumes st: "access sec ok free now (buckets s (of_bucket sec)) pt = Some (pt', e, eff)"
    and r: "reads t0 now (buckets s (of_bucket sec)) S L p sec pt" and s: "s \<in> S" and t: "t0 \<le> now"
    and s': "s' = s\<lparr>buckets := (buckets s)(of_bucket sec := e)\<rparr>" and L: "L \<subseteq> L'" "eff \<Longrightarrow> (p, s, s') \<in> L'"
  shows "reads t0 now e S L' p sec pt' \<and> (eff \<longrightarrow> changes sec \<and> \<not> effected pt \<and> effected pt') \<and> (\<not> eff \<longrightarrow> s' = s)"
proof (cases sec)
  case (Look b)
  then have e: "e = buckets s b" "\<not> eff" "reads t0 now e S L p sec pt'"
    using st look_reads [of b now s pt pt' t0 S L p] r s t by auto
  then have "reads t0 now (buckets s (of_bucket sec)) S L' p sec pt'"
    using reads_more [OF _ L(1) s, of t0 now sec p pt'] Look by simp
  then show ?thesis using e(1,2) Look s' by (simp add: entry_same)
next
  case (Take b)
  then have "reads t0 now e S L' p (Take b) pt' \<and> (eff = through pt') \<and> (\<not> eff \<longrightarrow> e = buckets s b)"
    using st r s t s' L by (intro take_reads [where ok = ok and pt = pt and L = L and s' = s' and s = s]) auto
  moreover have "\<not> effected pt" using st Take by (cases pt; cases "buckets s b") auto
  moreover have "effected pt'" if "through pt'" using that by (cases pt') auto
  ultimately show ?thesis using Take s' by (auto simp: entry_same)
next
  case (Put b n ttl w)
  then have "reads t0 now e S L' p (Put b n ttl w) pt' \<and> (eff = ((pt' = Wait \<or> through pt') \<and> pt \<noteq> Wait)) \<and>
      (\<not> eff \<longrightarrow> e = buckets s b)"
    using st r s t s' L by (intro put_reads [where free = free and pt = pt and L = L and s' = s' and s = s]) auto
  moreover have "\<not> through pt" using st Put by (cases pt; cases "buckets s b") auto
  moreover have "effected q \<longleftrightarrow> q = Wait \<or> through q" for q by (cases q) auto
  ultimately show ?thesis using Put s' by (auto simp: entry_same)
next
  case (Drop b)
  then have "reads t0 now e S L' p (Drop b) pt' \<and> eff \<and> through pt'"
    using st s t s' L by (intro drop_reads [where free = free and pt = pt and s' = s' and s = s]) auto
  moreover have "pt = Start" using st Drop by (auto simp: drop_entry_def split: if_splits)
  ultimately show ?thesis using Drop by (cases pt') auto
next
  case (Gather b)
  then have e: "e = buckets s b" "\<not> eff" "reads t0 now e S L p sec pt'"
    using st collecting_reads [of b now s pt pt' t0 S L p] r s t by auto
  then have "reads t0 now (buckets s (of_bucket sec)) S L' p sec pt'"
    using reads_more [OF _ L(1) s, of t0 now sec p pt'] Gather by simp
  then show ?thesis using e(1,2) Gather s' by (simp add: entry_same)
qed

lemma access_aged:
  assumes st: "access sec ok False now (Some x) pt = Some (pt', e, eff)" and r: "reads t0 now (Some x) S L p sec pt"
  shows "\<exists>y. e = Some y \<and> aged x y"
proof (cases sec)
  case Look then show ?thesis using st aged_refl by auto
next
  case Gather then show ?thesis using st aged_refl by auto
next
  case Drop then show ?thesis using st by (simp add: drop_entry_def)
next
  case (Take b)
  show ?thesis
  proof (cases pt)
    case (Swap t v)
    then have "v \<noteq> 0" using r Take by simp
    then have "v - 1 \<le> v" by (simp add: word_le_nat_alt unat_dec)
    then have "aged x (x\<lparr>tokens := v - 1\<rparr>)" if "tokens x = v" using that by (auto simp: aged_def)
    then show ?thesis using st Take Swap aged_refl by (auto split: if_splits option.splits)
  qed (use st Take aged_refl in \<open>auto split: if_splits option.splits\<close>)
next
  case (Put b n ttl w)
  have "aged x (set_exhausted x)" by (simp add: aged_def)
  then show ?thesis using st Put aged_refl by (cases pt) (auto split: if_splits)
qed

subsection \<open>Every order of accesses\<close>

definition sound :: "nat \<Rightarrow> store \<Rightarrow> machine \<Rightarrow> bool" where
  "sound N s0 m \<longleftrightarrow>
     linked s0 (effects m) (mem m) \<and> distinct (map fst (effects m)) \<and>
     (\<forall>p\<in>fst ` set (effects m). \<exists>sec pt t0. runs m p = Some (sec, pt, t0) \<and> effected pt) \<and>
     (\<forall>p sec pt t0. runs m p = Some (sec, pt, t0) \<longrightarrow>
        t0 \<le> reading m \<and> p < N \<and> (\<not> through pt \<longrightarrow> mem m \<in> seen m p) \<and>
        reads t0 (reading m) (buckets (mem m) (of_bucket sec)) (seen m p) (set (effects m)) p sec pt)"

lemma soundD:
  assumes "sound N s0 m" and "runs m p = Some (sec, pt, t0)"
  shows "t0 \<le> reading m" "p < N" "\<not> through pt \<Longrightarrow> mem m \<in> seen m p"
    "reads t0 (reading m) (buckets (mem m) (of_bucket sec)) (seen m p) (set (effects m)) p sec pt"
  using assms unfolding sound_def by blast+

lemma sound_idle: "sound N s0 (idle t s0)"
  by (simp add: sound_def idle_def)

lemma go_iff:
  "micro sh N (Go p ok) m = Some m' \<longleftrightarrow>
   (\<exists>sec pt t0 pt' e eff s'. runs m p = Some (sec, pt, t0) \<and>
      access sec ok (is_free sh N m (of_bucket sec)) (reading m) (buckets (mem m) (of_bucket sec)) pt = Some (pt', e, eff) \<and>
      s' = (mem m)\<lparr>buckets := (buckets (mem m))(of_bucket sec := e)\<rparr> \<and>
      m' = m\<lparr>mem := s', runs := (runs m)(p \<mapsto> (sec, pt', t0)),
          effects := (if eff then effects m @ [(p, mem m, s')] else effects m),
          seen := now_seen s' m\<rparr>)"
  by (auto simp: Let_def split: option.splits prod.splits)

lemma access_running:
  assumes "access sec ok free now e pt = Some (pt', e', eff)"
  shows "\<not> through pt" and "effected pt \<Longrightarrow> effected pt'"
  using assms by (cases sec; cases pt; cases e; auto simp: drop_entry_def split: if_splits)+

lemma go_own:
  assumes inv: "sound N s0 m" and p: "runs m p = Some (sec, pt, t0)"
    and st: "access sec ok free (reading m) (buckets (mem m) (of_bucket sec)) pt = Some (pt', e, eff)"
    and s': "s' = (mem m)\<lparr>buckets := (buckets (mem m))(of_bucket sec := e)\<rparr>"
    and L: "set (effects m) \<subseteq> L" "eff \<Longrightarrow> (p, mem m, s') \<in> L"
  shows "reads t0 (reading m) e (insert s' (seen m p)) L p sec pt' \<and>
      (eff \<longrightarrow> changes sec \<and> \<not> effected pt \<and> effected pt') \<and> (\<not> eff \<longrightarrow> s' = mem m)"
proof -
  note P = soundD [OF inv p]
  have "reads t0 (reading m) (buckets (mem m) (of_bucket sec)) (insert s' (seen m p)) (set (effects m)) p sec pt"
    using P(3) aged_refl by (intro reads_aged [OF P(4) order_refl]) auto
  then show ?thesis
    using P(3) [OF access_running(1) [OF st]] by (intro access_reads [OF st _ _ P(1) s' L]) auto
qed

text \<open>A change of the store is one that those under a guard of the same bucket can bear.\<close>
lemma go_other:
  assumes inv: "sound N s0 m" and p: "runs m p = Some (sec, pt, t0)"
    and st: "access sec ok (is_free sh N m (of_bucket sec)) (reading m) (buckets (mem m) (of_bucket sec)) pt = Some (pt', e, eff)"
    and s': "s' = (mem m)\<lparr>buckets := (buckets (mem m))(of_bucket sec := e)\<rparr>"
    and L: "set (effects m) \<subseteq> L" and q: "runs m q = Some (sec', k, t)"
  shows "reads t (reading m) (buckets s' (of_bucket sec')) (now_seen s' m q) L q sec' k"
proof (rule reads_aged [OF soundD(4) [OF inv q] order_refl _ L])
  note Q = soundD [OF inv q]
  show "seen m q \<subseteq> now_seen s' m q" using q by (auto simp: now_seen_def)
  show "mem m \<in> seen m q \<and> s' \<in> now_seen s' m q" if "\<not> through k"
    using Q(3) [OF that] that q by (simp add: now_seen_def)
  fix x assume x: "inside k" "buckets (mem m) (of_bucket sec') = Some x"
  show "\<exists>y. buckets s' (of_bucket sec') = Some y \<and> aged x y"
  proof (cases "of_bucket sec' = of_bucket sec")
    case False then show ?thesis using x(2) aged_refl by (simp add: s')
  next
    case True
    then have "\<not> is_free sh N m (of_bucket sec)" using q x(1) Q(2) by (fastforce simp: is_free_def)
    then have "\<exists>y. e = Some y \<and> aged x y"
      using st soundD(4) [OF inv p] x(2) True
      by (intro access_aged [of sec ok "reading m" x pt pt' e eff t0]) auto
    then show ?thesis using True by (simp add: s')
  qed
qed

lemma sound_go:
  assumes inv: "sound N s0 m" and e: "micro sh N (Go p ok) m = Some m'"
  shows "sound N s0 m'"
proof -
  obtain sec pt t0 pt' e eff s' where p: "runs m p = Some (sec, pt, t0)"
    and st: "access sec ok (is_free sh N m (of_bucket sec)) (reading m) (buckets (mem m) (of_bucket sec)) pt = Some (pt', e, eff)"
    and s': "s' = (mem m)\<lparr>buckets := (buckets (mem m))(of_bucket sec := e)\<rparr>"
    and m': "m' = m\<lparr>mem := s', runs := (runs m)(p \<mapsto> (sec, pt', t0)),
          effects := (if eff then effects m @ [(p, mem m, s')] else effects m), seen := now_seen s' m\<rparr>"
    using e unfolding go_iff by blast
  have L: "set (effects m) \<subseteq> set (effects m')" "eff \<Longrightarrow> (p, mem m, s') \<in> set (effects m')" by (auto simp: m')
  note own = go_own [OF inv p st s' L]
  have logged: "effected pt" if "p \<in> fst ` set (effects m)" using inv p that unfolding sound_def by fastforce
  show ?thesis
    unfolding sound_def
  proof (intro conjI allI impI ballI)
    show "linked s0 (effects m') (mem m')"
      using inv own by (cases eff) (simp_all add: sound_def m' linked_snoc)
    show "distinct (map fst (effects m'))" using inv own logged by (cases eff) (auto simp: sound_def m')
    show "\<exists>sec pt t0. runs m' q = Some (sec, pt, t0) \<and> effected pt" if q: "q \<in> fst ` set (effects m')" for q
    proof (cases "q = p")
      case True
      then have "eff \<or> effected pt" using q logged by (auto simp: m' split: if_splits)
      then show ?thesis using True own access_running(2) [OF st] by (auto simp: m')
    next
      case False
      then have "q \<in> fst ` set (effects m)" using q by (cases eff) (auto simp: m')
      then show ?thesis using inv False by (auto simp: sound_def m')
    qed
    fix q sec' k t
    assume q: "runs m' q = Some (sec', k, t)"
    then consider "q = p" "sec' = sec" "k = pt'" "t = t0" | "q \<noteq> p" "runs m q = Some (sec', k, t)"
      by (cases "q = p") (simp_all add: m')
    then have "t \<le> reading m \<and> q < N \<and> (\<not> through k \<longrightarrow> s' \<in> now_seen s' m q) \<and>
        reads t (reading m) (buckets s' (of_bucket sec')) (now_seen s' m q) (set (effects m')) q sec' k"
    proof cases
      case 1
      have "now_seen s' m p = insert s' (seen m p)" using p access_running(1) [OF st] by (simp add: now_seen_def)
      then show ?thesis using 1 own soundD(1,2) [OF inv p] by (simp add: s')
    next
      case 2
      then show ?thesis using go_other [OF inv p st s' L(1) 2(2)] soundD(1,2) [OF inv 2(2)] by (simp add: now_seen_def)
    qed
    then show "t \<le> reading m'" "q < N" "\<not> through k \<Longrightarrow> mem m' \<in> seen m' q"
      "reads t (reading m') (buckets (mem m') (of_bucket sec')) (seen m' q) (set (effects m')) q sec' k"
      by (simp_all add: m')
  qed
qed

lemma sound_step:
  assumes inv: "sound N s0 m" and e: "micro sh N mv m = Some m'"
  shows "sound N s0 m'"
proof (cases mv)
  case (Pass d)
  then have m': "m' = m\<lparr>reading := reading m + d\<rparr>" using e by simp
  have "reads t (reading m') (buckets (mem m) (of_bucket sec)) (seen m p) (set (effects m)) p sec pt"
    if "runs m p = Some (sec, pt, t)" for p sec pt t
    using soundD(3) [OF inv that] aged_refl
    by (intro reads_aged [OF soundD(4) [OF inv that]]) (auto simp: m')
  moreover have "t \<le> reading m'" if "runs m p = Some (sec, pt, t)" for p sec pt t
    using soundD(1) [OF inv that] by (simp add: m')
  ultimately show ?thesis using inv by (auto simp: sound_def m')
next
  case Hold
  then obtain k where "m' = m\<lparr>iter := k\<rparr>" using e by (auto split: if_splits)
  then show ?thesis using inv by (simp add: sound_def)
next
  case Leave
  then obtain k where "m' = m\<lparr>iter := k\<rparr>" using e by (auto split: if_splits)
  then show ?thesis using inv by (simp add: sound_def)
next
  case (Begin p sec)
  then have p: "p < N" "runs m p = None"
    and m': "m' = m\<lparr>runs := (runs m)(p \<mapsto> (sec, Start, reading m)), seen := (seen m)(p := {mem m})\<rparr>"
    using e by (auto split: if_splits)
  have "p \<notin> fst ` set (effects m)" using inv p(2) by (auto simp: sound_def)
  then show ?thesis using inv p by (auto simp: sound_def m')
next
  case Go
  then show ?thesis using e sound_go [OF inv] by blast
qed

subsection \<open>How long a section takes\<close>

text \<open>
  A bound on the accesses a section has made at each point, when \<open>l\<close> changes have been made in all: an exchange
  that fails for a reason fails because of a change since the value was loaded.
\<close>
fun at_most :: "bucket option \<Rightarrow> nat \<Rightarrow> point \<Rightarrow> nat" where
  "at_most e l Start = 0"
| "at_most e l Flag = 1"
| "at_most e l Refuse = 2"
| "at_most e l Tokens = 2"
| "at_most e l Clock = 3"
| "at_most e l (Load t) = 4"
| "at_most e l (Swap t v) = (if map_option tokens e = Some v then 5 + l else 4 + l)"
| "at_most e l Wait = 2"
| "at_most e l (Insert t) = 1"
| "at_most e l (Answered a) = 5 + l"

lemma at_most_access:
  assumes "access sec ok free now e pt = Some (pt', e', eff)"
  shows "at_most e l pt + (if ok then 1 else 0) \<le> at_most e' (if eff then Suc l else l) pt'"
proof (cases sec)
  case Look then show ?thesis using assms by (cases e; cases pt) (auto split: if_splits)
next
  case Gather then show ?thesis using assms by (cases e; cases pt) (auto split: if_splits)
next
  case Drop then show ?thesis using assms by (auto simp: drop_entry_def split: if_splits)
next
  case Put then show ?thesis using assms by (cases e; cases pt) (auto split: if_splits)
next
  case Take
  then show ?thesis using assms
    by (cases e; cases pt) (auto simp: checked_sub_one split: if_splits)
qed

lemma at_most_other: "l \<le> l' \<Longrightarrow> (e' \<noteq> e \<Longrightarrow> l < l') \<Longrightarrow> at_most e l pt \<le> at_most e' l' pt"
  by (cases "e' = e"; cases pt) auto

lemma access_silent: "access sec ok free now e pt = Some (pt', e', False) \<Longrightarrow> e' = e"
  by (cases sec; cases e; cases pt) (auto simp: drop_entry_def checked_sub_one split: if_splits)

definition moves :: "nat \<Rightarrow> move list \<Rightarrow> nat" where
  "moves p mvs = length (filter (\<lambda>mv. mv = Go p True) mvs)"

definition paced :: "move list \<Rightarrow> machine \<Rightarrow> bool" where
  "paced mvs m \<longleftrightarrow>
     (\<forall>p. runs m p = None \<longrightarrow> moves p mvs = 0) \<and>
     (\<forall>p sec pt t0. runs m p = Some (sec, pt, t0) \<longrightarrow>
        moves p mvs \<le> at_most (buckets (mem m) (of_bucket sec)) (length (effects m)) pt)"

lemma pacedD:
  assumes "paced mvs m"
  shows "runs m p = None \<Longrightarrow> moves p mvs = 0"
    and "runs m p = Some (sec, pt, t0) \<Longrightarrow>
      moves p mvs \<le> at_most (buckets (mem m) (of_bucket sec)) (length (effects m)) pt"
  using assms unfolding paced_def by blast+

lemma paced_step:
  assumes "paced mvs m" and e: "micro sh N mv m = Some m'"
  shows "paced (mvs @ [mv]) m'"
proof -
  have count: "moves q (mvs @ [mv]) = moves q mvs + (if mv = Go q True then 1 else 0)" for q
    by (simp add: moves_def)
  show ?thesis
  proof (cases mv)
    case (Pass d)
    then have "m' = m\<lparr>reading := reading m + d\<rparr>" using e by simp
    then show ?thesis using assms(1) count Pass by (simp add: paced_def)
  next
    case Hold
    then show ?thesis using e assms(1) count by (auto simp: paced_def split: if_splits)
  next
    case Leave
    then show ?thesis using e assms(1) count by (auto simp: paced_def split: if_splits)
  next
    case (Begin p sec)
    then have "runs m p = None" and m': "m' = m\<lparr>runs := (runs m)(p \<mapsto> (sec, Start, reading m)), seen := (seen m)(p := {mem m})\<rparr>"
      using e by (auto split: if_splits)
    have "moves q (mvs @ [mv]) = moves q mvs" for q using count [of q] Begin by simp
    then show ?thesis using assms(1) \<open>runs m p = None\<close> by (simp add: paced_def m')
  next
    case (Go p ok)
    obtain sec pt t0 pt' e' eff s' where p: "runs m p = Some (sec, pt, t0)"
      and st: "access sec ok (is_free sh N m (of_bucket sec)) (reading m) (buckets (mem m) (of_bucket sec)) pt = Some (pt', e', eff)"
      and s': "s' = (mem m)\<lparr>buckets := (buckets (mem m))(of_bucket sec := e')\<rparr>"
      and m': "m' = m\<lparr>mem := s', runs := (runs m)(p \<mapsto> (sec, pt', t0)),
          effects := (if eff then effects m @ [(p, mem m, s')] else effects m), seen := now_seen s' m\<rparr>"
      using e unfolding Go go_iff by blast
    let ?l' = "length (effects m')"
    have l': "?l' = (if eff then Suc (length (effects m)) else length (effects m))" by (simp add: m')
    have other: "at_most (buckets (mem m) c) (length (effects m)) k \<le> at_most (buckets s' c) ?l' k" for c k
      using access_silent st by (intro at_most_other; cases eff) (auto simp: l' s' split: if_splits)
    have old: "moves q (mvs @ [mv]) = moves q mvs" "runs m' q = runs m q" if "q \<noteq> p" for q
      using that Go count [of q] by (simp_all add: m')
    show ?thesis
      unfolding paced_def
    proof (intro conjI allI impI)
      show "moves q (mvs @ [mv]) = 0" if "runs m' q = None" for q
        using that old [of q] pacedD(1) [OF assms(1), of q] by (cases "q = p") (simp_all add: m')
      fix q sec' k u assume q: "runs m' q = Some (sec', k, u)"
      show "moves q (mvs @ [mv]) \<le> at_most (buckets (mem m') (of_bucket sec')) ?l' k"
      proof (cases "q = p")
        case True
        then show ?thesis
          using pacedD(2) [OF assms(1) p] at_most_access [OF st, of "length (effects m)"] q count [of p] Go l'
          by (simp add: m' s' split: if_splits)
      next
        case False
        then show ?thesis
          using pacedD(2) [OF assms(1), of q sec' k u] old [OF False] q other [of "of_bucket sec'" k] by (simp add: m')
      qed
    qed
  qed
qed

lemma paced_run: "run (micro sh N) mvs (idle t s0) = Some m \<Longrightarrow> paced mvs m"
proof (induction mvs arbitrary: m rule: rev_induct)
  case Nil
  then have "m = idle t s0" by simp
  then show ?case by (simp add: paced_def idle_def moves_def)
next
  case (snoc mv mvs)
  then obtain m1 where "run (micro sh N) mvs (idle t s0) = Some m1" "micro sh N mv m1 = Some m"
    by (auto simp: run_append split: option.splits)
  then show ?case using snoc.IH paced_step by blast
qed

lemma effects_bounded: "sound N s0 m \<Longrightarrow> length (effects m) \<le> N"
proof -
  assume inv: "sound N s0 m"
  have "p < N" if "p \<in> set (map fst (effects m))" for p
    using inv that soundD(2) [OF inv] unfolding sound_def by fastforce
  then have "card (set (map fst (effects m))) \<le> card {..<N}" by (intro card_mono) auto
  moreover have "card (set (map fst (effects m))) = length (effects m)"
    using inv distinct_card [of "map fst (effects m)"] by (simp add: sound_def)
  ultimately show ?thesis by simp
qed

lemma access_free:
  assumes "reads t0 now e S L p sec pt" and "\<not> through pt" and "inside pt \<or> free"
  shows "access sec True free now e pt \<noteq> None"
proof (cases "inside pt")
  case True
  then obtain x where x: "e = Some x" "under_guard t0 now S L p x sec pt" using assms(1) by auto
  show ?thesis
  proof (cases sec)
    case Take then show ?thesis using x by (cases pt) (auto simp: checked_sub_one)
  qed (use x in \<open>cases pt; simp\<close>)+
next
  case False
  then have "free" "pt = Start \<or> (\<exists>t. pt = Insert t)" using assms(2,3) by (cases pt; simp)+
  then show ?thesis using assms(1) by (cases sec; cases e) (auto simp: drop_entry_def)
qed

section \<open>Properties\<close>

text \<open>
  C13. The sections of the store are atomic though their accesses are not: when any number of
  \<open>check\<close>, end of \<open>consume\<close>, end of \<open>lease\<close>,
  \<open>remove\<close> and shutdown entries run at once, each load, store, exchange (which may
  fail for no reason) and clock reading under a read guard a step of its own, in any order, the
  store goes through the effects of the operations of \<open>Store\<close>, one whole operation
  of each section at most; and each section answers as its operation does on a store there was
  while it ran, the one its effect began with, and with a clock reading taken while it ran. Two
  answers have no such moment (\<open>stray\<close>): a bucket seen empty that was exhausted with
  tokens since it was seen not to be, and a lot of zero tokens from a bucket emptied while the
  shutdown looked at it.
\<close>

theorem sections_are_atomic:
  assumes "run (micro sh N) mvs (idle t s0) = Some m" and "runs m p = Some (sec, Answered a, t0)"
  shows "linked s0 (effects m) (mem m) \<and> distinct (map fst (effects m)) \<and>
    (\<exists>s now. t0 \<le> now \<and> now \<le> reading m \<and> s \<in> seen m p \<and>
       (changes sec \<longrightarrow> (p, s, snd (atomic sec now s)) \<in> set (effects m)) \<and>
       (a = fst (atomic sec now s) \<or> stray sec s a))"
proof -
  have inv: "sound N s0 m"
    by (rule run_keeps [OF assms(1), of "sound N s0"]) (use sound_idle sound_step in auto)
  then have "linked s0 (effects m) (mem m)" "distinct (map fst (effects m))" by (simp_all add: sound_def)
  moreover have "answers t0 (reading m) (seen m p) (set (effects m)) p sec a" using soundD(4) [OF inv assms(2)] by simp
  ultimately show ?thesis by (simp add: answers_def)
qed

text \<open>Two requests load the same count of two tokens; the exchange of one fails, and it takes the other token.\<close>

definition two_tokens :: store where
  "two_tokens = store_add 0 (store_new small_config) (Protected ''u'') 2 100"

text \<open>Buckets by token in one shard, those by address in another.\<close>
definition shard :: "bucket_id \<Rightarrow> nat" where
  "shard b = (case b of Protected u \<Rightarrow> 0 | Public a \<Rightarrow> 1)"

definition race :: "move list" where
  "race = [Begin 0 (Take (Protected ''u'')), Begin 1 (Take (Protected ''u'')), Go 0 True, Go 1 True, Pass 7,
     Go 0 True, Go 1 True, Go 0 True, Go 1 True, Go 1 True, Go 0 True, Go 0 True]"

lemmas micro_eval =
  race_def two_tokens_def idle_def store_add_def store_new_def bucket_new_def is_expired_def checked_sub_one Let_def

theorem sections_are_atomic_witness:
  "\<exists>m. run (micro shard 2) race (idle 5 two_tokens) = Some m \<and>
     runs m 1 = Some (Take (Protected ''u''), Answered (Took (Inr 1)), 5) \<and>
     runs m 0 = Some (Take (Protected ''u''), Answered (Took (Inr 0)), 5) \<and>
     linked two_tokens (effects m) (mem m) \<and>
     (\<exists>s now. 5 \<le> now \<and> now \<le> 12 \<and> (0, s, snd (spend now s (Protected ''u''))) \<in> set (effects m) \<and>
        fst (spend now s (Protected ''u'')) = Inr 0)"
proof -
  obtain m where m: "run (micro shard 2) race (idle 5 two_tokens) = Some m" "reading m = 12"
    "runs m 1 = Some (Take (Protected ''u''), Answered (Took (Inr 1)), 5)"
    "runs m 0 = Some (Take (Protected ''u''), Answered (Took (Inr 0)), 5)"
    by (simp add: micro_eval)
  have take: "atomic (Take b) now s = (Took (fst (spend now s b)), snd (spend now s b))" for now s b
    by (simp add: case_prod_beta)
  from sections_are_atomic [OF m(1) m(4)] m show ?thesis
    by (intro exI [of _ m]) (simp del: atomic.simps add: take, metis)
qed

text \<open>
  C14. And they end: with \<open>N\<close> sections in all, none makes more than \<open>N\<close>
  + 5 accesses besides exchanges that fail for no reason, since an exchange that fails for a
  reason fails because of a change by another section, and each makes one at most. A section that
  is not through can go on, unless it waits for a write guard while another is under a read guard
  of the same shard, whichever buckets the map keeps in one, or the iteration of the cleanup task
  is in that shard; and that one can go on, or the iteration leave the shard: nobody who holds a
  guard waits for anything.
\<close>

theorem sections_end:
  assumes "run (micro sh N) mvs (idle t s0) = Some m" and "runs m p = Some (sec, pt, t0)"
  shows "length (filter (\<lambda>mv. mv = Go p True) mvs) \<le> N + 5 \<and>
    (through pt \<or> (\<exists>m'. micro sh N (Go p True) m = Some m') \<or>
     \<not> inside pt \<and> (iter m = Some (sh (of_bucket sec)) \<and> (\<exists>m'. micro sh N Leave m = Some m') \<or>
       (\<exists>q<N. \<exists>sec' pt' t. q \<noteq> p \<and> runs m q = Some (sec', pt', t) \<and> sh (of_bucket sec') = sh (of_bucket sec) \<and>
         inside pt' \<and> (\<exists>m'. micro sh N (Go q True) m = Some m'))))"
proof -
  have inv: "sound N s0 m"
    by (rule run_keeps [OF assms(1), of "sound N s0"]) (use sound_idle sound_step in auto)
  have go: "\<exists>m'. micro sh N (Go q True) m = Some m'"
    if "runs m q = Some (sec', pt', u)" "\<not> through pt'" "inside pt' \<or> is_free sh N m (of_bucket sec')" for q sec' pt' u
    using access_free [OF soundD(4) [OF inv that(1)] that(2,3)] that(1) by (auto simp: Let_def)
  have "at_most e (length (effects m)) pt \<le> N + 5" for e
    using effects_bounded [OF inv] by (cases pt) auto
  then have "moves p mvs \<le> N + 5"
    using pacedD(2) [OF paced_run [OF assms(1)] assms(2)] by (rule order_trans [rotated])
  moreover have "\<exists>q<N. \<exists>sec' pt' t. q \<noteq> p \<and> runs m q = Some (sec', pt', t) \<and> sh (of_bucket sec') = sh (of_bucket sec) \<and>
       inside pt' \<and> (\<exists>m'. micro sh N (Go q True) m = Some m')"
    if out: "\<not> inside pt" "\<not> is_free sh N m (of_bucket sec)" "iter m \<noteq> Some (sh (of_bucket sec))"
  proof -
    obtain q sec' pt' u where q: "q < N" "runs m q = Some (sec', pt', u)" "sh (of_bucket sec') = sh (of_bucket sec)" "inside pt'"
      using out(2,3) by (auto simp: is_free_def split: option.splits)
    moreover have "q \<noteq> p" using q out(1) assms(2) by auto
    moreover have "\<not> through pt'" using q(4) by (cases pt') auto
    ultimately show ?thesis using go by blast
  qed
  moreover have "\<exists>m'. micro sh N Leave m = Some m'" if "iter m = Some (sh (of_bucket sec))" using that by simp
  ultimately show ?thesis using go [OF assms(2)] unfolding moves_def by blast
qed

text \<open>In the race above, the request that lost an exchange has made five accesses of at most seven.\<close>

theorem sections_end_witness:
  "\<exists>m. run (micro shard 2) race (idle 5 two_tokens) = Some m \<and> length (filter (\<lambda>mv. mv = Go 0 True) race) \<le> 2 + 5"
proof -
  obtain m where m: "run (micro shard 2) race (idle 5 two_tokens) = Some m"
    "runs m 0 = Some (Take (Protected ''u''), Answered (Took (Inr 0)), 5)"
    by (simp add: micro_eval)
  from sections_end [OF m] m(1) show ?thesis by blast
qed

end
