(* ===== verification/Races.thy ===== *)
theory Races
  imports Flight
begin

text \<open>
  Interleavings that the program does not rule out: more requests admitted than there are tokens, and a
  wake-up that is lost, which lasts under every later event.
\<close>

section \<open>Check, then act\<close>

text \<open>Requests that check a bucket while it has a token.\<close>

definition gather :: "nat \<Rightarrow> bucket_id \<Rightarrow> nat list \<Rightarrow> event list" where
  "gather i b ps = concat (map (\<lambda>p. [Arrive p i b, Check p]) ps)"

lemma gather_run:
  assumes "check (local_time E s i) (stores s i) b = Inr True" and "i < n_insts E"
    and "distinct ps" and "\<forall>p\<in>set ps. p < n_tasks E \<and> tasks s p = None"
  shows "\<exists>t. run (fire E ops) (gather i b ps) s = Some t \<and> clock t = clock s \<and>
    stores t = stores s \<and> redis t = redis s \<and> admitted t = admitted s \<and> spent t = spent s \<and>
    (\<forall>p\<in>set ps. tasks t p = Some (Task i b Spending)) \<and>
    (\<forall>p. p \<notin> set ps \<longrightarrow> tasks t p = tasks s p)"
  using assms
proof (induction ps arbitrary: s)
  case (Cons p ps)
  let ?s = "goto p i b Spending (goto p i b Checking s)"
  have "local_time E ?s i = local_time E s i" by (simp add: local_time_def)
  then have "\<exists>t. run (fire E ops) (gather i b ps) ?s = Some t \<and> clock t = clock ?s \<and>
    stores t = stores ?s \<and> redis t = redis ?s \<and> admitted t = admitted ?s \<and> spent t = spent ?s \<and>
    (\<forall>p\<in>set ps. tasks t p = Some (Task i b Spending)) \<and>
    (\<forall>p. p \<notin> set ps \<longrightarrow> tasks t p = tasks ?s p)"
    using Cons.prems by (intro Cons.IH) auto
  then obtain t where t: "run (fire E ops) (gather i b ps) ?s = Some t" "clock t = clock s"
    "stores t = stores s" "redis t = redis s" "admitted t = admitted s" "spent t = spent s"
    "\<forall>p\<in>set ps. tasks t p = Some (Task i b Spending)" "\<forall>q. q \<notin> set ps \<longrightarrow> tasks t q = tasks ?s q" by auto
  have "fire E ops (Arrive p i b) s = Some (goto p i b Checking s)"
    "fire E ops (Check p) (goto p i b Checking s) = Some ?s"
    using Cons.prems by (simp_all add: fire.simps step_check_def local_time_def)
  then have "run (fire E ops) (gather i b (p # ps)) s = Some t" using t(1) by (simp add: gather_def)
  then show ?case using t Cons.prems(3) by auto
qed (simp add: gather_def)

text \<open>They all go on, whatever is left when they do.\<close>

lemma spend_all:
  assumes "buckets (stores s i) b = Some x" and "\<not> is_expired (local_time E s i) x"
    and "distinct ps" and "\<forall>p\<in>set ps. tasks s p = Some (Task i b Spending)"
  shows "\<exists>t. run (fire E ops) (map Spend ps) s = Some t \<and> clock t = clock s \<and> redis t = redis s \<and>
    admitted t b = admitted s b + length ps \<and>
    spent t b (sint (window x)) = spent s b (sint (window x)) + min (unat (tokens x)) (length ps)"
  using assms
proof (induction ps arbitrary: s x)
  case (Cons p ps)
  obtain left y where y: "bucket_consume x = (left, y)" by fastforce
  let ?st = "(stores s i)\<lparr>buckets := (buckets (stores s i))(b \<mapsto> y)\<rparr>"
  let ?s = "goto p i b (Finished (Inr left))
    (admit b (note_spent (local_time E s i) (stores s i) b (set_store i ?st s)))"
  have e: "fire E ops (Spend p) s = Some ?s"
    using Cons.prems y by (simp add: fire.simps step_spend_def spend_def)
  have same: "expires_at y = expires_at x" "window y = window x"
    and left: "unat (tokens x) = (if is_empty x then 0 else Suc (unat (tokens y)))"
    using y unat_dec [of "tokens x"] unat_pos_iff [of "tokens x"]
    by (auto simp: bucket_consume_eq is_empty_def split: if_splits)
  have s: "buckets (stores ?s i) b = Some y" "local_time E ?s i = local_time E s i" "clock ?s = clock s" "redis ?s = redis s"
    "admitted ?s b = Suc (admitted s b)"
    by (simp_all add: local_time_def goto_def admit_def note_spent_def set_store_def split: option.split)
  have sp: "spent ?s b (sint (window x)) = spent s b (sint (window x)) + (if is_empty x then 0 else 1)"
    using Cons.prems by (simp add: goto_def admit_def note_spent_def set_store_def)
  have live: "\<not> is_expired (local_time E ?s i) y"
    using Cons.prems(2) s same by (simp add: is_expired_def)
  have "\<forall>q\<in>set ps. tasks ?s q = Some (Task i b Spending)" using Cons.prems(3,4) by auto
  from Cons.IH [OF s(1) live _ this] Cons.prems(3) obtain t where t:
    "run (fire E ops) (map Spend ps) ?s = Some t" "clock t = clock s" "redis t = redis s"
    "admitted t b = Suc (admitted s b) + length ps"
    "spent t b (sint (window x)) = spent ?s b (sint (window x)) + min (unat (tokens y)) (length ps)"
    unfolding s(3-5) same by auto
  have "run (fire E ops) (map Spend (p # ps)) s = Some t" using e t(1) by simp
  moreover have "spent t b (sint (window x)) =
      spent s b (sint (window x)) + min (unat (tokens x)) (length (p # ps))"
    using t(5) sp left y by (auto simp: bucket_consume_eq is_empty_def split: if_splits)
  ultimately show ?case using t(2-4) by auto
qed simp

text \<open>
  C18. Check-then-act: whenever a bucket has a token, any number of requests can be admitted at
  the same instant, though only the tokens that were there are taken: \<open>check\<close> and
  \<open>spend\<close> are separate steps, and a request that finds the bucket empty by then is
  answered \<open>Ok(0)\<close>. So the number of admitted requests has no bound in terms of the
  quota.
\<close>

theorem check_then_act:
  assumes "buckets (stores s i) b = Some x" and "tokens x \<noteq> 0" and "\<not> exhausted x"
    and "local_time E s i < expires_at x" and "i < n_insts E"
    and "distinct ps" and "\<forall>p\<in>set ps. p < n_tasks E \<and> tasks s p = None"
  shows "\<exists>es t. run (fire E ops) es s = Some t \<and> clock t = clock s \<and>
    admitted t b = admitted s b + length ps \<and>
    spent t b (sint (window x)) = spent s b (sint (window x)) + min (unat (tokens x)) (length ps)"
proof -
  have "check (local_time E s i) (stores s i) b = Inr True" using assms(1-4) by (simp add: check_true_iff)
  from gather_run [OF this assms(5-7)] obtain u where u:
    "run (fire E ops) (gather i b ps) s = Some u" "clock u = clock s" "stores u = stores s"
    "admitted u = admitted s" "spent u = spent s" "\<forall>p\<in>set ps. tasks u p = Some (Task i b Spending)" by blast
  have "buckets (stores u i) b = Some x" "\<not> is_expired (local_time E u i) x"
    using assms(1,4) u(2,3) by (simp_all add: is_expired_def local_time_def)
  from spend_all [OF this assms(6) u(6)] obtain t where t:
    "run (fire E ops) (map Spend ps) u = Some t" "clock t = clock u"
    "admitted t b = admitted u b + length ps"
    "spent t b (sint (window x)) = spent u b (sint (window x)) + min (unat (tokens x)) (length ps)" by blast
  have "run (fire E ops) (gather i b ps @ map Spend ps) s = Some t" using u(1) t(1) by (simp add: run_append)
  then show ?thesis using t(2-4) u(2,4,5) by metis
qed

text \<open>One token per window, leased by the first of four requests, which all get in.\<close>
definition one_env :: env where
  "one_env = sample_env\<lparr>conf := small_config\<lparr>protected_policy :=
     (protected_policy small_config)\<lparr>quota := 1, lease_size := 1\<rparr>\<rparr>\<rparr>"

theorem check_then_act_witness:
  "\<exists>es s. run (fire one_env mem_ops) es (boot one_env 0 (\<lambda>_. None)) = Some s \<and> clock s = 0 \<and>
     admitted s (Protected ''u'') = 3 \<and> spent s (Protected ''u'') 60000 = 1 \<and>
     quota (policy_for (conf one_env) (Protected ''u'')) = 1"
proof -
  let ?es = "[Arrive 0 0 (Protected ''u''), Check 0, Enter 0, Call 0, Serve 0 Delivered, Reply 0 0,
    Unlock 0, Notify 0]"
  obtain s where s: "run (fire one_env mem_ops) ?es (boot one_env 0 (\<lambda>_. None)) = Some s"
    "buckets (stores s 0) (Protected ''u'') =
       Some \<lparr>tokens = 1, expires_at = 60000000000, window = 60000, exhausted = False\<rparr>"
    "local_time one_env s 0 = 0" "clock s = 0" "admitted s (Protected ''u'') = 0"
    "spent s (Protected ''u'') 60000 = 0" "tasks s 1 = None" "tasks s 2 = None" "tasks s 3 = None"
    by (simp add: fire_eval bucket_new_def one_env_def sample_env_def small_config_def)
  have slots: "\<forall>p\<in>set [1, 2, 3]. p < n_tasks one_env \<and> tasks s p = None"
    using s by (simp add: one_env_def sample_env_def)
  obtain es t where t: "run (fire one_env mem_ops) es s = Some t" "clock t = 0"
    "admitted t (Protected ''u'') = 3" "spent t (Protected ''u'') 60000 = 1"
    using check_then_act [OF s(2) _ _ _ _ _ slots, of mem_ops] s
    by (auto simp: one_env_def sample_env_def)
  have "run (fire one_env mem_ops) (?es @ es) (boot one_env 0 (\<lambda>_. None)) = Some t"
    unfolding run_append s(1) using t(1) by simp
  moreover have "quota (policy_for (conf one_env) (Protected ''u'')) = 1"
    by (simp add: one_env_def)
  ultimately show ?thesis using t(2-4) by blast
qed

section \<open>Waiting for good\<close>

text \<open>
  C30. Lost wake-up: a request that has cloned the notify of a refill but calls
  \<open>notified()\<close> only after that refill has called \<open>notify_waiters()\<close>
  waits for good, under every later event except its own cancellation and a crash of its
  instance.
\<close>

theorem wake_up_lost:
  assumes "tasks s p = Some (Task i b (Subscribing n))" and "stranded n s"
    and "run (fire E ops) (Subscribe p # es) s = Some t" and "Cancel p \<notin> set es" and "Crash i \<notin> set es"
  shows "tasks t p = Some (Task i b (Waiting n (calls s n)))"
proof -
  let ?s = "goto p i b (Waiting n (calls s n)) s"
  have e: "fire E ops (Subscribe p) s = Some ?s" using assms(1) by (simp add: fire.simps)
  have "stranded n ?s" using stranded_step [OF assms(2) e] by simp
  moreover have "run (fire E ops) es ?s = Some t" using assms(3) e by simp
  ultimately show ?thesis using stranded_run [of n ?s p i b es E ops t] assms(4,5) by simp
qed

text \<open>The refill ends between the two steps of the second request; the bucket then has a token left.\<close>
definition late_run :: "event list" where
  "late_run = [Arrive 0 0 (Protected ''u''), Check 0, Enter 0, Arrive 1 0 (Protected ''u''), Check 1, Enter 1,
     Call 0, Serve 0 Delivered, Reply 0 0, Unlock 0, Notify 0, Spend 0]"

theorem wake_up_lost_witness:
  "\<exists>s. run (fire sample_env mem_ops) late_run (boot sample_env 0 (\<lambda>_. None)) = Some s \<and>
     check (local_time sample_env s 0) (stores s 0) (Protected ''u'') = Inr True \<and>
     (\<forall>es t. run (fire sample_env mem_ops) (Subscribe 1 # es) s = Some t \<longrightarrow> Cancel 1 \<notin> set es \<longrightarrow>
        Crash 0 \<notin> set es \<longrightarrow> tasks t 1 = Some (Task 0 (Protected ''u'') (Waiting 0 1)))"
proof -
  obtain s where s: "run (fire sample_env mem_ops) late_run (boot sample_env 0 (\<lambda>_. None)) = Some s"
    "stranded 0 s" "tasks s 1 = Some (Task 0 (Protected ''u'') (Subscribing 0))" "calls s 0 = 1"
    "check (local_time sample_env s 0) (stores s 0) (Protected ''u'') = Inr True"
    by (simp add: late_run_def fire_eval sample_env_def small_config_def stranded_def)
  show ?thesis using wake_up_lost [OF s(3,2)] s by auto
qed

end
