(* ===== verification/Waiters.thy ===== *)
theory Waiters
  imports Races
begin

text \<open>
  Who waits is woken, and every request is answered in the end.
\<close>

section \<open>Who moves whom\<close>

text \<open>A request can take a step of its own.\<close>
definition ready :: "nat \<Rightarrow> 'r sys \<Rightarrow> bool" where
  "ready p s \<longleftrightarrow>
     (case tasks s p of
        None \<Rightarrow> False
      | Some (Task i b k) \<Rightarrow>
          (case k of Finished out \<Rightarrow> False | Cancelled \<Rightarrow> False | Waiting n c \<Rightarrow> calls s n \<noteq> c | _ \<Rightarrow> True))"

lemma ready_iff:
  assumes "clock s \<le> horizon E"
  shows "ready p s \<longleftrightarrow> (\<exists>e. request_of e = Some p \<and> e \<noteq> Cancel p \<and> fire E ops e s \<noteq> None)"
proof
  assume "ready p s"
  then obtain i b k where k: "tasks s p = Some (Task i b k)"
    by (auto simp: ready_def split: option.splits task.splits)
  show "\<exists>e. request_of e = Some p \<and> e \<noteq> Cancel p \<and> fire E ops e s \<noteq> None"
  proof (cases k)
    case Checking then show ?thesis using k by (intro exI [of _ "Check p"]) (simp add: fire.simps)
  next
    case Entering then show ?thesis using k by (intro exI [of _ "Enter p"]) (simp add: fire.simps)
  next
    case Subscribing then show ?thesis using k by (intro exI [of _ "Subscribe p"]) (simp add: fire.simps)
  next
    case Waiting then show ?thesis using k \<open>ready p s\<close>
      by (intro exI [of _ "Wake p"]) (simp add: fire.simps ready_def)
  next
    case Calling then show ?thesis using k by (intro exI [of _ "Call p"]) (simp add: fire.simps)
  next
    case Leasing then show ?thesis using k by (intro exI [of _ "Serve p Delivered"]) (simp add: fire.simps)
  next
    case Replied then show ?thesis using k assms by (intro exI [of _ "Reply p 0"]) (simp add: fire.simps)
  next
    case Unlocking then show ?thesis using k by (intro exI [of _ "Unlock p"]) (simp add: fire.simps)
  next
    case Notifying then show ?thesis using k by (intro exI [of _ "Notify p"]) (simp add: fire.simps)
  next
    case Spending then show ?thesis using k by (intro exI [of _ "Spend p"]) (simp add: fire.simps)
  next
    case Removing then show ?thesis using k by (intro exI [of _ "Remove p"]) (simp add: fire.simps)
  qed (use k \<open>ready p s\<close> in \<open>simp_all add: ready_def\<close>)
next
  assume "\<exists>e. request_of e = Some p \<and> e \<noteq> Cancel p \<and> fire E ops e s \<noteq> None"
  then obtain e t where e: "request_of e = Some p" "e \<noteq> Cancel p" "fire E ops e s = Some t" by auto
  then show "ready p s" by (cases e) (auto simp: fire_iff ready_def)
qed

lemma calls_mono:
  assumes "fire E ops e s = Some t"
  shows "calls s n \<le> calls t n"
  using assms by (cases e) (auto simp: fire_iff notify_waiters_def split: option.split)

lemma entry_kept:
  assumes "fire E ops e s = Some t" and "refills (stores s i) b = Some n" and "e \<noteq> Crash i"
    and "\<And>p k. e = Unlock p \<Longrightarrow> tasks s p \<noteq> Some (Task i b k)"
  shows "refills (stores t i) b = Some n"
  using assms by (cases e) (auto simp: fire_iff step_enter_refills step_unlock_refills step_crash_def)


section \<open>Who wakes whom\<close>

text \<open>The request that will notify \<open>n\<close>: it holds the entry with \<open>n\<close>, or has taken it out.\<close>
definition leads :: "nat \<Rightarrow> nat \<Rightarrow> bucket_id \<Rightarrow> notify \<Rightarrow> 'r sys \<Rightarrow> bool" where
  "leads p i b n s \<longleftrightarrow>
     (\<exists>k. tasks s p = Some (Task i b k) \<and>
        (holds k \<and> refills (stores s i) b = Some n \<or> (\<exists>out. k = Notifying (Some n) out)))"

fun to_go :: "pc \<Rightarrow> nat" where
  "to_go Calling = 5"
| "to_go (Leasing u) = 4"
| "to_go (Replied u res) = 3"
| "to_go (Unlocking out) = 2"
| "to_go (Notifying n out) = 1"
| "to_go _ = 0"

definition lead_left :: "nat \<Rightarrow> 'r sys \<Rightarrow> nat" where
  "lead_left p s = (case tasks s p of Some (Task i b k) \<Rightarrow> to_go k | None \<Rightarrow> 0)"

text \<open>
  No leasing request is dropped, and \<open>notified()\<close> is called before \<open>notify_waiters()\<close>.
\<close>
definition heeds :: "'r sys \<Rightarrow> event \<Rightarrow> bool" where
  "heeds s e =
     (case e of
        Cancel p \<Rightarrow> (case tasks s p of Some (Task i b k) \<Rightarrow> \<not> holds k | None \<Rightarrow> True)
      | Subscribe p \<Rightarrow> (case tasks s p of Some (Task i b (Subscribing n)) \<Rightarrow> calls s n = 0 | _ \<Rightarrow> True)
      | _ \<Rightarrow> True)"

definition heeding_fire :: "env \<Rightarrow> 'r redis_ops \<Rightarrow> event \<Rightarrow> 'r sys \<Rightarrow> 'r sys option" where
  "heeding_fire E ops e s = (if heeds s e then fire E ops e s else None)"

lemma leads_ready: "leads p i b n s \<Longrightarrow> ready p s"
  by (auto simp: leads_def ready_def split: pc.split)

text \<open>Where a request can only move on to its answer.\<close>
fun settled :: "pc \<Rightarrow> bool" where
  "settled Spending \<longleftrightarrow> True"
| "settled Removing \<longleftrightarrow> True"
| "settled (Finished out) \<longleftrightarrow> True"
| "settled Cancelled \<longleftrightarrow> True"
| "settled _ \<longleftrightarrow> False"

definition past :: "nat \<Rightarrow> nat \<Rightarrow> 'r sys \<Rightarrow> bool" where
  "past i p s \<longleftrightarrow> (\<exists>b k. tasks s p = Some (Task i b k) \<and> settled k)"

lemma leads_own:
  assumes "leads p i b n s" and "fire E ops e s = Some t" and "heeds s e" and "request_of e = Some p"
  shows "leads p i b n t \<and> lead_left p t < lead_left p s \<or> past i p t \<and> 0 < calls t n"
proof -
  obtain k where k: "tasks s p = Some (Task i b k)"
    and lead: "holds k \<and> refills (stores s i) b = Some n \<or> (\<exists>out. k = Notifying (Some n) out)"
    using assms(1) by (auto simp: leads_def)
  show ?thesis
  proof (cases e)
    case (Notify q)
    then show ?thesis using assms k lead
      by (auto simp: fire_iff past_def notify_waiters_def split: sum.splits)
  qed (use assms k lead in \<open>auto simp: fire_iff heeds_def leads_def lead_left_def\<close>)
qed

lemma leads_other:
  assumes "leads p i b n s" and "single_flight s" and "fire E ops e s = Some t"
    and "request_of e \<noteq> Some p" and "e \<noteq> Crash i"
  shows "leads p i b n t"
proof -
  obtain k where k: "tasks s p = Some (Task i b k)"
    and lead: "holds k \<and> refills (stores s i) b = Some n \<or> (\<exists>out. k = Notifying (Some n) out)"
    using assms(1) by (auto simp: leads_def)
  have "tasks t p = Some (Task i b k)" using others_keep [OF assms(3-5) k] .
  moreover have "refills (stores t i) b = Some n" if "holds k" "refills (stores s i) b = Some n"
  proof (rule entry_kept [OF assms(3) that(2) assms(5)])
    fix q k' assume q: "e = Unlock q"
    show "tasks s q \<noteq> Some (Task i b k')"
    proof
      assume "tasks s q = Some (Task i b k')"
      then have "holder s q i b" using q assms(3) by (auto simp: fire_iff holder_def)
      moreover have "holder s p i b" using k that by (auto simp: holder_def)
      ultimately have "q = p" using assms(2) unfolding single_flight_def by blast
      then show False using q assms(4) by simp
    qed
  qed
  ultimately show ?thesis using lead by (auto simp: leads_def)
qed

text \<open>
  Every entry has a request that holds it; whoever is about to wait, or waits, for a notify that has
  not been called has a request that will call it.
\<close>
definition heard :: "'r sys \<Rightarrow> bool" where
  "heard s \<longleftrightarrow> single_flight s \<and>
     (\<forall>i b n. refills (stores s i) b = Some n \<longrightarrow> (\<exists>p. holder s p i b)) \<and>
     (\<forall>p i b n. tasks s p = Some (Task i b (Subscribing n)) \<longrightarrow> calls s n = 0 \<longrightarrow> (\<exists>q. leads q i b n s)) \<and>
     (\<forall>p i b n c. tasks s p = Some (Task i b (Waiting n c)) \<longrightarrow>
        c = 0 \<and> (calls s n = 0 \<longrightarrow> (\<exists>q. leads q i b n s)))"

lemma holder_step:
  assumes "holder s p i b" and "fire E ops e s = Some t" and "heeds s e" and "e \<noteq> Crash i" and "e \<noteq> Unlock p"
  shows "holder t p i b"
proof -
  obtain k where k: "tasks s p = Some (Task i b k)" "holds k" using assms(1) by (auto simp: holder_def)
  show ?thesis
  proof (cases "request_of e = Some p")
    case False
    then show ?thesis using others_keep [OF assms(2) False assms(4) k(1)] k(2) by (auto simp: holder_def)
  next
    case True
    then show ?thesis using assms k by (cases e) (auto simp: fire_iff heeds_def holder_def)
  qed
qed

lemma entry_was:
  assumes "refills (stores t i) b = Some n" and "fire E ops e s = Some t"
  shows "e \<noteq> Crash i \<and> (\<forall>p. e = Unlock p \<longrightarrow> \<not> holder s p i b) \<and>
    (refills (stores s i) b = Some n \<or> (\<exists>p. holder t p i b))"
  using assms
  by (cases e) (auto simp: fire_iff step_enter_refills step_unlock_refills step_crash_def store_new_def
      holder_def split: if_splits)

lemma holder_leads: "holder s p i b \<Longrightarrow> refills (stores s i) b = Some n \<Longrightarrow> leads p i b n s"
  by (auto simp: leads_def holder_def)

lemma calling_back:
  assumes "fire E ops e s = Some t" and "request_of e = Some p" and "tasks t p = Some (Task i b k)"
  shows "k = Subscribing n \<Longrightarrow> e = Enter p \<and> refills (stores s i) b = Some n"
    and "k = Waiting n c \<Longrightarrow> e = Subscribe p \<and> tasks s p = Some (Task i b (Subscribing n)) \<and> c = calls s n"
proof -
  have "(k = Subscribing n \<longrightarrow> e = Enter p \<and> refills (stores s i) b = Some n) \<and>
    (k = Waiting n c \<longrightarrow> e = Subscribe p \<and> tasks s p = Some (Task i b (Subscribing n)) \<and> c = calls s n)"
    using assms by (cases e) (auto simp: fire_iff split: sum.splits option.splits if_splits)
  then show "k = Subscribing n \<Longrightarrow> e = Enter p \<and> refills (stores s i) b = Some n"
    "k = Waiting n c \<Longrightarrow> e = Subscribe p \<and> tasks s p = Some (Task i b (Subscribing n)) \<and> c = calls s n"
    by simp_all
qed

lemma heard_step:
  assumes s: "heard s" and e: "fire E ops e s = Some t" and h: "heeds s e"
  shows "heard t"
proof -
  have held: "\<exists>p. holder s p i b" if "refills (stores s i) b = Some n" for i b n
    using s that by (auto simp: heard_def)
  have leads: "\<exists>q. leads q i b n t" if "\<exists>q. leads q i b n s" "calls t n = 0" "e \<noteq> Crash i" for i b n
  proof -
    from that(1) obtain q where "leads q i b n s" ..
    then show ?thesis
      using leads_other [of q i b n s E ops e t] leads_own [of q i b n s E ops e t] e h s that(2,3)
      by (cases "request_of e = Some q") (auto simp: heard_def)
  qed
  have still: "calls s n = 0" if "calls t n = 0" for n using calls_mono [OF e, of n] that by simp
  have "\<exists>p. holder t p i b" if n: "refills (stores t i) b = Some n" for i b n
    using entry_was [OF n e] held holder_step [OF _ e h] by blast
  moreover have "\<exists>q. leads q i b n t"
    if p: "tasks t p = Some (Task i b (Subscribing n))" "calls t n = 0" for p i b n
  proof (cases "request_of e = Some p")
    case False
    then show ?thesis using task_was [OF p(1) e False] leads p(2) still s by (auto simp: heard_def)
  next
    case True
    then have "e = Enter p" "refills (stores s i) b = Some n" using calling_back(1) [OF e _ p(1)] by simp_all
    then show ?thesis using held [of i b n] leads [of i b n] p(2) holder_leads [of s _ i b n] by auto
  qed
  moreover have "c = 0 \<and> (calls t n = 0 \<longrightarrow> (\<exists>q. leads q i b n t))"
    if p: "tasks t p = Some (Task i b (Waiting n c))" for p i b n c
  proof (cases "request_of e = Some p")
    case False
    then show ?thesis using task_was [OF p(1) e False] leads still s by (auto simp: heard_def)
  next
    case True
    then have "e = Subscribe p \<and> tasks s p = Some (Task i b (Subscribing n)) \<and> c = calls s n"
      using calling_back(2) [OF e _ p] by simp
    then show ?thesis using s h leads [of i b n] still by (auto simp: heard_def heeds_def)
  qed
  ultimately show ?thesis
    using single_flight_step [OF _ e] s unfolding heard_def by blast
qed


interpretation heard: invariant_system "starts E" "fires (heeding_fire E ops)" heard for E ops
proof (unfold_locales, goal_cases)
  case (1 s)
  then show ?case by (auto simp: starts_def boot_def store_new_def heard_def single_flight_def holder_def)
next
  case (2 s t)
  then show ?case by (auto simp: fires_def heeding_fire_def split: if_splits intro: heard_step)
qed

lemma heeding_history:
  assumes "history (heeding_fire E ops) es h"
  shows "fire E ops (es m) (h m) = Some (h (Suc m))" "heeds (h m) (es m)"
proof -
  have "heeding_fire E ops (es m) (h m) = Some (h (Suc m))" using assms by (simp add: history_def)
  then show "fire E ops (es m) (h m) = Some (h (Suc m))" "heeds (h m) (es m)"
    by (simp_all add: heeding_fire_def split: if_splits)
qed

text \<open>Who leads a refill gets past it.\<close>
lemma leader_settles:
  assumes hist: "history (heeding_fire E ops) es h" and fair: "weakly_fair request_of ready es h"
    and heard: "\<And>n. heard (h n)" and up: "\<forall>m\<ge>n. es m \<noteq> Crash i"
    and "leads q i b x (h n)"
  shows "\<exists>m\<ge>n. past i q (h m)"
  using up assms(5)
proof (induction "lead_left q (h n)" arbitrary: n rule: less_induct)
  case less
  let ?P = "\<lambda>s. leads q i b x s \<and> lead_left q s = lead_left q (h n)"
  let ?Q = "\<lambda>s. leads q i b x s \<and> lead_left q s < lead_left q (h n) \<or> past i q s"
  note step = heeding_history [OF hist]
  have "\<exists>m\<ge>n. ?Q (h m)"
  proof (rule fair_leads_to [OF fair, of ?P])
    show "?P (h n)" using less.prems by simp
  next
    fix m assume m: "n \<le> m" "?P (h m)"
    then show "ready q (h m)" using leads_ready by blast
    show "?P (h (Suc m))" if "request_of (es m) \<noteq> Some q"
    proof -
      have up: "es m \<noteq> Crash i" using less.prems(1) m(1) by simp
      obtain k where k: "tasks (h m) q = Some (Task i b k)" using m(2) by (auto simp: leads_def)
      have "tasks (h (Suc m)) q = Some (Task i b k)" by (rule others_keep [OF step(1) that up k])
      then show ?thesis
        using leads_other [OF _ _ step(1) that up] m(2) k heard [of m] by (simp add: heard_def lead_left_def)
    qed
    show "?Q (h (Suc m))" if "request_of (es m) = Some q"
      using leads_own [OF _ step that] m(2) by auto
  qed
  then obtain m where "n \<le> m" "?Q (h m)" by blast
  then show ?case using less.hyps [of m] less.prems(1) by (meson order_trans)
qed

section \<open>Everyone's turn comes\<close>

text \<open>What a request has before it while it waits for nobody.\<close>
fun rank :: "pc \<Rightarrow> nat" where
  "rank (Waiting n c) = 10"
| "rank Checking = 9"
| "rank Entering = 8"
| "rank Calling = 7"
| "rank (Leasing u) = 6"
| "rank (Replied u res) = 5"
| "rank (Unlocking out) = 4"
| "rank (Notifying n out) = 3"
| "rank Spending = 2"
| "rank Removing = 1"
| "rank _ = 0"

lemma own_rank:
  assumes "fire E ops e s = Some t" and "heeds s e" and "request_of e = Some p"
    and "tasks s p = Some (Task i b k)" and "\<And>x. k = Subscribing x \<Longrightarrow> 0 < calls s x"
  shows "\<exists>k'. tasks t p = Some (Task i b k') \<and> rank k' < rank k"
proof (cases e)
  case (Cancel q)
  then show ?thesis using assms by (cases k) (auto simp: fire_iff)
qed (use assms in \<open>auto simp: fire_iff heeds_def split: sum.splits option.splits if_splits\<close>)

lemma task_stays:
  assumes "fire E ops e s = Some t" and "e \<noteq> Crash i" and "tasks s p = Some (Task i b k)"
  shows "\<exists>k'. tasks t p = Some (Task i b k') \<and> (settled k \<longrightarrow> settled k')"
proof (cases "request_of e = Some p")
  case False
  then show ?thesis using others_keep [OF assms(1) False assms(2,3)] by simp
next
  case True
  then obtain j c l l' where l: "tasks s p = Some (Task j c l)" "tasks t = (tasks s)(p \<mapsto> Task j c l')"
    using own_tasks [OF assms(1)] by blast
  have "settled k'" if "settled k" "tasks t p = Some (Task i b k')" for k'
    using assms True that by (cases e) (auto simp: fire_iff split: sum.splits option.splits if_splits)
  then show ?thesis using l assms(3) by auto
qed

text \<open>The request slots whose requests at the instance are not past their refill.\<close>
definition unsettled :: "env \<Rightarrow> nat \<Rightarrow> 'r sys \<Rightarrow> nat" where
  "unsettled E i s = card {p. p < n_tasks E \<and> \<not> past i p s}"

lemma past_step:
  "fire E ops e s = Some t \<Longrightarrow> e \<noteq> Crash i \<Longrightarrow> past i q s \<Longrightarrow> past i q t"
  using task_stays [of E ops e s t i q] by (fastforce simp: past_def)

lemma along:
  assumes "history (heeding_fire E ops) es h" and "n \<le> m" and "\<forall>m\<ge>n. es m \<noteq> Crash i"
  shows past_along: "past i q (h n) \<Longrightarrow> past i q (h m)"
    and task_along: "tasks (h n) p = Some (Task i b k) \<Longrightarrow> \<exists>k'. tasks (h m) p = Some (Task i b k')"
    and unsettled_along: "unsettled E i (h m) \<le> unsettled E i (h n)"
proof -
  note step = heeding_history(1) [OF assms(1)]
  have past: "past i q (h n) \<Longrightarrow> past i q (h m)" for q
    using assms(2,3) by (induction m rule: dec_induct) (use past_step [OF step] in auto)
  then show "past i q (h n) \<Longrightarrow> past i q (h m)" .
  show "tasks (h n) p = Some (Task i b k) \<Longrightarrow> \<exists>k'. tasks (h m) p = Some (Task i b k')"
    using assms(2,3) by (induction m rule: dec_induct) (use task_stays [OF step] in blast)+
  show "unsettled E i (h m) \<le> unsettled E i (h n)"
    unfolding unsettled_def by (rule card_mono) (use past in auto)
qed

lemma one_less:
  assumes "history (heeding_fire E ops) es h" and "n \<le> m" and "\<forall>m\<ge>n. es m \<noteq> Crash i"
    and "past i q (h m)" and "\<not> past i q (h n)" and "q < n_tasks E"
  shows "unsettled E i (h m) < unsettled E i (h n)"
  unfolding unsettled_def
  by (rule psubset_card_mono) (use assms past_along [OF assms(1-3)] in auto)

definition ended :: "nat \<Rightarrow> nat \<Rightarrow> bucket_id \<Rightarrow> 'r sys \<Rightarrow> bool" where
  "ended p i b s \<longleftrightarrow> (\<exists>out. tasks s p = Some (Task i b (Finished out))) \<or> tasks s p = Some (Task i b Cancelled)"

definition blocked :: "pc \<Rightarrow> 'r sys \<Rightarrow> bool" where
  "blocked k s = (case k of Subscribing x \<Rightarrow> calls s x = 0 | Waiting x c \<Rightarrow> calls s x = 0 | _ \<Rightarrow> False)"

lemma blocked_leader:
  assumes "heard s" and "tasks s p = Some (Task i b k)" and "blocked k s"
  shows "\<exists>q x. leads q i b x s"
  using assms unfolding heard_def blocked_def by (cases k) fastforce+

lemma waiting_from_start: "heard s \<Longrightarrow> tasks s p = Some (Task i b (Waiting x c)) \<Longrightarrow> c = 0"
  unfolding heard_def by blast

lemma unblocked_moves:
  assumes hist: "history (heeding_fire E ops) es h" and fair: "weakly_fair request_of ready es h"
    and heard: "\<And>n. heard (h n)" and up: "\<forall>m\<ge>n. es m \<noteq> Crash i"
    and k: "tasks (h n) p = Some (Task i b k)" "\<not> blocked k (h n)" "\<not> ended p i b (h n)"
  shows "\<exists>m\<ge>n. \<exists>k'. tasks (h m) p = Some (Task i b k') \<and> rank k' < rank k"
proof (rule fair_leads_to [OF fair, of "\<lambda>s. tasks s p = Some (Task i b k) \<and> \<not> blocked k s"])
  fix m assume m: "n \<le> m" "tasks (h m) p = Some (Task i b k) \<and> \<not> blocked k (h m)"
  note step = heeding_history [OF hist, of m]
  show "ready p (h m)"
    using m k waiting_from_start [OF heard, of m p i b] by (cases k) (auto simp: ready_def blocked_def ended_def)
  show "tasks (h (Suc m)) p = Some (Task i b k) \<and> \<not> blocked k (h (Suc m))" if "request_of (es m) \<noteq> Some p"
  proof -
    have "0 < calls (h (Suc m)) x" if "0 < calls (h m) x" for x
      using calls_mono [OF step(1), of x] that by simp
    then have "\<not> blocked k (h (Suc m))" using m(2) by (cases k) (auto simp: blocked_def)
    then show ?thesis using others_keep [OF step(1) that _ conjunct1 [OF m(2)]] up m(1) by simp
  qed
  show "\<exists>k'. tasks (h (Suc m)) p = Some (Task i b k') \<and> rank k' < rank k" if "request_of (es m) = Some p"
    by (rule own_rank [OF step that]) (use m in \<open>auto simp: blocked_def\<close>)
qed (use k in simp)

lemma request_ends:
  assumes hist: "history (heeding_fire E ops) es h" and fair: "weakly_fair request_of ready es h"
    and heard: "\<And>n. heard (h n)" and wf: "\<And>n. well_formed E (h n)"
    and up: "\<forall>m\<ge>n. es m \<noteq> Crash i" and k: "tasks (h n) p = Some (Task i b k)"
  shows "\<exists>m\<ge>n. ended p i b (h m)"
  using up k
proof (induction "(unsettled E i (h n), rank k)" arbitrary: n k rule: wf_induct_rule [OF wf_lex_prod [OF wf_less wf_less]])
  case 1
  have later: "\<exists>m\<ge>n. ended p i b (h m)"
    if "n \<le> m" "tasks (h m) p = Some (Task i b k')"
      "unsettled E i (h m) < unsettled E i (h n) \<or> unsettled E i (h m) = unsettled E i (h n) \<and> rank k' < rank k" for m k'
    using 1(1) [of m k'] 1(2) that by (auto intro: order_trans)
  show ?case
  proof (cases "ended p i b (h n)")
    case False
    show ?thesis
    proof (cases "blocked k (h n)")
      case True
      then obtain q x where q: "leads q i b x (h n)" using blocked_leader [OF heard 1(3)] by blast
      obtain m where m: "n \<le> m" "past i q (h m)"
        using leader_settles [OF hist fair heard 1(2) q] by blast
      obtain l where l: "tasks (h n) q = Some (Task i b l)" "\<not> settled l"
        using q by (auto simp: leads_def elim: holds.elims)
      have "unsettled E i (h m) < unsettled E i (h n)"
        using one_less [OF hist m(1) 1(2) m(2)] l well_formed_task [OF wf l(1)] by (auto simp: past_def)
      then show ?thesis using later [OF m(1)] task_along [OF hist m(1) 1(2,3)] by blast
    next
      case unblocked: False
      obtain m k' where m: "n \<le> m" "tasks (h m) p = Some (Task i b k')" "rank k' < rank k"
        using unblocked_moves [OF hist fair heard 1(2,3) unblocked False] by blast
      then show ?thesis using later [OF m(1,2)] unsettled_along [OF hist m(1) 1(2), unfolded le_less] by blast
    qed
  qed blast
qed

text \<open>
  C17. Every request is answered: in every infinite run of the system that is weakly fair to its
  requests (any number of them, finite at an instance until it restarts), each ends with an
  answer, unless it is cancelled or its instance crashes, whatever becomes of the calls to Redis
  and whoever else takes the tokens it waited for: nobody waits for good, and nobody loses the
  race to refill for ever. Provided that no leasing request is dropped and
  \<open>notified()\<close> is called before the refill calls \<open>notify_waiters()\<close>;
  the code ensures neither proviso, and without either, requests wait for good
  (\<open>wake_up_lost\<close>, \<open>cancelled_lease_wedges\<close>).
\<close>

theorem requests_are_answered:
  assumes "starts E (h 0)" and "history (heeding_fire E ops) es h" and "weakly_fair request_of ready es h"
    and "tasks (h n) p = Some (Task i b k)" and "\<forall>m\<ge>n. es m \<noteq> Crash i"
  shows "\<exists>m\<ge>n. (\<exists>out. tasks (h m) p = Some (Task i b (Finished out))) \<or> tasks (h m) p = Some (Task i b Cancelled)"
proof -
  have hist: "history (fire E ops) es h" using heeding_history(1) [OF assms(2)] by (simp add: history_def)
  have "well_formed E (h m)" for m
    by (rule shape.reach_inv, rule history_reach [OF hist, of "starts E"]) (rule assms(1))
  moreover have "heard (h m)" for m
    by (rule heard.reach_inv, rule history_reach [OF assms(2), of "starts E"]) (rule assms(1))
  ultimately show ?thesis
    using request_ends [OF assms(2,3) _ _ assms(5,4)] unfolding ended_def by blast
qed

text \<open>The second request waits while the first leases, is woken, and takes the second token.\<close>
definition wake_run :: "event list" where
  "wake_run = [Arrive 0 0 (Protected ''u''), Check 0, Enter 0, Arrive 1 0 (Protected ''u''), Check 1, Enter 1,
     Subscribe 1, Call 0, Serve 0 Delivered, Reply 0 0, Unlock 0, Notify 0, Spend 0, Wake 1, Check 1, Spend 1]"

theorem requests_are_answered_witness:
  "\<exists>es h. history (heeding_fire sample_env mem_ops) es h \<and> weakly_fair request_of ready es h \<and>
     tasks (h 7) 1 = Some (Task 0 (Protected ''u'') (Waiting 0 0)) \<and>
     (\<exists>m\<ge>7. (\<exists>out. tasks (h m) 1 = Some (Task 0 (Protected ''u'') (Finished out))) \<or>
        tasks (h m) 1 = Some (Task 0 (Protected ''u'') Cancelled))"
proof -
  let ?boot = "boot sample_env 0 (\<lambda>_. None)" and ?f = "heeding_fire sample_env mem_ops"
  obtain t where t: "run ?f wake_run ?boot = Some t" "\<forall>p. \<not> ready p t" "clock t = 0"
    by (simp add: wake_run_def heeding_fire_def heeds_def ready_def fire_eval sample_env_def small_config_def)
  have idle: "?f (Tick 0) t = Some t"
    using t(3) by (simp add: heeding_fire_def heeds_def fire.simps sample_env_def)
  let ?es = "\<lambda>n. if n < length wake_run then wake_run ! n else Tick 0"
  obtain h where h: "history ?f ?es h" "\<And>n. run ?f (take n wake_run) ?boot = Some (h n)"
    "\<And>n. length wake_run \<le> n \<Longrightarrow> h n = t"
    using history_of_run [OF t(1) idle] by blast
  have fair: "weakly_fair request_of ready ?es h"
    unfolding weakly_fair_def
  proof (intro allI impI)
    fix p n
    assume "\<forall>m\<ge>n. ready p (h m)"
    then have "ready p (h (n + length wake_run))" by simp
    then show "\<exists>m\<ge>n. request_of (?es m) = Some p" using h(3) t(2) by simp
  qed
  have "h 0 = ?boot" using h(2) [of 0] by simp
  then have start: "starts sample_env (h 0)" by (metis sample_starts)
  obtain u where "run ?f (take 7 wake_run) ?boot = Some u" "tasks u 1 = Some (Task 0 (Protected ''u'') (Waiting 0 0))"
    by (simp add: wake_run_def heeding_fire_def heeds_def fire_eval sample_env_def small_config_def)
  then have wait: "tasks (h 7) 1 = Some (Task 0 (Protected ''u'') (Waiting 0 0))" using h(2) [of 7] by simp
  have up: "\<forall>m\<ge>7. ?es m \<noteq> Crash 0"
  proof (intro allI impI)
    fix m :: nat
    have "Crash 0 \<notin> set wake_run" by (simp add: wake_run_def)
    then show "?es m \<noteq> Crash 0" by (metis event.distinct(47) nth_mem)
  qed
  show ?thesis using requests_are_answered [OF start h(1) fair wait up] h(1) fair wait by blast
qed

end
