(* ===== verification/Wedged.thy ===== *)
theory Wedged
  imports Waiters
begin

text \<open>
  What becomes of a bucket whose first refill is dropped while it leases: its refill entry stays, no other
  request can remove it, and every request that comes for the bucket waits for a notify that nobody calls.
\<close>

section \<open>One notify for each refill\<close>

text \<open>
  The notify of an entry is in no other entry, has not been called, and nobody is about to call it; and a
  request that waits began to wait no later than now.
\<close>
definition own_notifies :: "'r sys \<Rightarrow> bool" where
  "own_notifies s \<longleftrightarrow>
     (\<forall>i b n. refills (stores s i) b = Some n \<longrightarrow> n < fresh s \<and> calls s n = 0 \<and>
        (\<forall>p j c out. tasks s p \<noteq> Some (Task j c (Notifying (Some n) out))) \<and>
        (\<forall>j c. refills (stores s j) c = Some n \<longrightarrow> (j, c) = (i, b))) \<and>
     (\<forall>p i b n out. tasks s p = Some (Task i b (Notifying (Some n) out)) \<longrightarrow> n < fresh s) \<and>
     (\<forall>n\<ge>fresh s. calls s n = 0) \<and>
     (\<forall>p i b n c. tasks s p = Some (Task i b (Waiting n c)) \<longrightarrow> c \<le> calls s n)"

lemma own_notifiesD:
  assumes "own_notifies s"
  shows "refills (stores s i) b = Some n \<Longrightarrow> n < fresh s"
    and "refills (stores s i) b = Some n \<Longrightarrow> calls s n = 0"
    and "refills (stores s i) b = Some n \<Longrightarrow> tasks s p \<noteq> Some (Task j c (Notifying (Some n) out))"
    and "refills (stores s i) b = Some n \<Longrightarrow> refills (stores s j) c = Some n \<Longrightarrow> j = i \<and> c = b"
    and "tasks s p = Some (Task i b (Notifying (Some n) out)) \<Longrightarrow> n < fresh s"
    and "fresh s \<le> n \<Longrightarrow> calls s n = 0"
    and "tasks s p = Some (Task i b (Waiting n k)) \<Longrightarrow> k \<le> calls s n"
  using assms unfolding own_notifies_def by blast+

lemma entry_origin:
  assumes "fire E ops e s = Some t" and "refills (stores t i) b = Some n"
  shows "refills (stores s i) b = Some n \<or>
    n = fresh s \<and> (\<exists>p. e = Enter p \<and> tasks s p = Some (Task i b Entering)) \<and> fresh t = Suc (fresh s) \<and> calls t = calls s"
  using assms
  by (cases e) (auto simp: fire_iff step_enter_refills step_unlock_refills step_crash_def store_new_def split: if_splits)

lemma notifier_origin:
  assumes "fire E ops e s = Some t" and "tasks t p = Some (Task i b (Notifying (Some n) out))"
  shows "tasks s p = Some (Task i b (Notifying (Some n) out)) \<or>
    refills (stores s i) b = Some n \<and> refills (stores t i) b = None"
proof (cases "request_of e = Some p")
  case False
  then show ?thesis using task_was [OF assms(2,1)] by simp
next
  case True
  then show ?thesis using assms
    by (cases e) (auto simp: fire_iff step_unlock_refills split: sum.splits option.splits if_splits)
qed

lemma calls_origin:
  assumes "fire E ops e s = Some t"
  shows "calls t n = calls s n \<or> (\<exists>p i b out. tasks s p = Some (Task i b (Notifying (Some n) out)))"
  using assms by (cases e) (auto simp: fire_iff notify_waiters_def split: option.splits)

lemma own_notifies_step:
  assumes s: "own_notifies s" and e: "fire E ops e s = Some t"
  shows "own_notifies t"
proof -
  note inv = own_notifiesD [OF s]
  note entry = entry_origin [OF e] and notifier = notifier_origin [OF e] and calls = calls_origin [OF e]
  have fresh: "fresh s \<le> fresh t" by (rule fresh_mono [OF e])
  have "n < fresh t" "calls t n = 0" if n: "refills (stores t i) b = Some n" for i b n
  proof -
    show "n < fresh t" using entry [OF n] inv(1) fresh by fastforce
    show "calls t n = 0" using entry [OF n] inv(2,3,6) calls [of n] by (metis order_refl)
  qed
  moreover have "tasks t p \<noteq> Some (Task j c (Notifying (Some n) out))"
    if n: "refills (stores t i) b = Some n" for i b n p j c out
  proof
    assume a: "tasks t p = Some (Task j c (Notifying (Some n) out))"
    from notifier [OF a] entry [OF n] n show False
      by (metis inv(1,3-5) less_irrefl option.distinct(1))
  qed
  moreover have "j = i \<and> c = b"
    if n: "refills (stores t i) b = Some n" "refills (stores t j) c = Some n" for i b n j c
    using entry [OF n(1)] entry [OF n(2)] inv(1,4) by fastforce
  moreover have "n < fresh t" if "tasks t p = Some (Task i b (Notifying (Some n) out))" for p i b n out
    using notifier [OF that] inv(1,5) fresh by fastforce
  moreover have "calls t n = 0" if "fresh t \<le> n" for n
  proof -
    have "fresh s \<le> n" using that fresh by simp
    then show ?thesis using calls [of n] inv(5,6) by (metis leD)
  qed
  moreover have "k \<le> calls t n" if k: "tasks t p = Some (Task i b (Waiting n k))" for p i b n k
  proof -
    have "k \<le> calls s n"
    proof (cases "request_of e = Some p")
      case True
      then show ?thesis using calling_back(2) [OF e True k] by simp
    next
      case False
      then show ?thesis using task_was [OF k e False] inv(7) by blast
    qed
    then show ?thesis using calls_mono [OF e, of n] by simp
  qed
  ultimately show ?thesis unfolding own_notifies_def by blast
qed

interpretation own_notifies: invariant_system "starts E" "fires (fire E ops)" own_notifies for E ops
proof (unfold_locales, goal_cases)
  case (1 s)
  then show ?case by (auto simp: starts_def boot_def store_new_def own_notifies_def)
next
  case (2 s t)
  then show ?case by (auto simp: fires_def intro: own_notifies_step)
qed

section \<open>An entry left behind\<close>

text \<open>Where a request can be that has neither bucket nor entry.\<close>
fun parked :: "pc \<Rightarrow> bool" where
  "parked Checking \<longleftrightarrow> True"
| "parked Entering \<longleftrightarrow> True"
| "parked (Subscribing m) \<longleftrightarrow> True"
| "parked (Waiting m k) \<longleftrightarrow> True"
| "parked Cancelled \<longleftrightarrow> True"
| "parked _ \<longleftrightarrow> False"

text \<open>The bucket has no entry in \<open>buckets\<close>, one in \<open>refills\<close>, and no request that would remove that.\<close>
definition wedged :: "nat \<Rightarrow> bucket_id \<Rightarrow> notify \<Rightarrow> 'r sys \<Rightarrow> bool" where
  "wedged i b n s \<longleftrightarrow> own_notifies s \<and> buckets (stores s i) b = None \<and> refills (stores s i) b = Some n \<and>
     (\<forall>p. \<not> holder s p i b)"

lemma wedged_step:
  assumes s: "wedged i b n s" and e: "fire E ops e s = Some t" and up: "e \<noteq> Crash i"
  shows "wedged i b n t"
proof -
  have at: "buckets (stores s i) b = None" "refills (stores s i) b = Some n"
    and none: "\<And>p k. tasks s p = Some (Task i b k) \<Longrightarrow> \<not> holds k"
    using s by (auto simp: wedged_def holder_def)
  have "buckets (stores t i) b = None \<and> refills (stores t i) b = Some n \<and> (\<forall>p. \<not> holder t p i b)"
  proof (cases "request_of e")
    case None
    then show ?thesis using at none up e
      by (cases e) (auto simp: fire_iff holder_def step_crash_def remove_bucket_def
          split: if_splits option.splits task.splits)
  next
    case (Some q)
    obtain j c k l where q: "tasks s q = Some (Task j c k)" "tasks t = (tasks s)(q \<mapsto> Task j c l)"
      using own_tasks [OF e Some] by blast
    have "buckets (stores t i) b = None \<and> refills (stores t i) b = Some n \<and> ((j, c) = (i, b) \<longrightarrow> \<not> holds l)"
    proof (cases "(j, c) = (i, b)")
      case True
      then have "\<not> holds k" using none q(1) by simp
      then show ?thesis using True e Some q at
        by (cases e) (auto simp: fire_iff step_enter_refills step_spend_def spend_def step_remove_def
            remove_bucket_def dest!: fun_cong [of _ _ q] split: sum.splits if_splits)
    next
      case False
      then show ?thesis using requests_are_isolated [OF e Some q(1) False] at False by auto
    qed
    then show ?thesis using none q by (auto simp: holder_def)
  qed
  then show ?thesis using s own_notifies_step [OF _ e] by (simp add: wedged_def)
qed

section \<open>Where its requests end\<close>

text \<open>How many steps a request still makes before it waits for \<open>n\<close>.\<close>
fun to_wait :: "notify \<Rightarrow> pc \<Rightarrow> nat" where
  "to_wait n (Subscribing x) = (if x = n then 1 else 5)"
| "to_wait n (Waiting x c) = (if x = n then 0 else 4)"
| "to_wait n Checking = 3"
| "to_wait n Entering = 2"
| "to_wait n _ = 0"

lemma wedged_own_step:
  assumes s: "wedged i b n s" and e: "fire E ops e s = Some t" and q: "request_of e = Some q"
    and k: "tasks s q = Some (Task i b k)" "parked k"
  shows "\<exists>l. tasks t q = Some (Task i b l) \<and> parked l \<and> (l = Cancelled \<or> to_wait n l < to_wait n k)"
proof -
  have at: "buckets (stores s i) b = None" "refills (stores s i) b = Some n" and own: "own_notifies s"
    using s by (auto simp: wedged_def)
  have "calls s x = c" if "k = Waiting x c" "x = n" for x c
    using that own_notifiesD(2) [OF own at(2)] own_notifiesD(7) [OF own] k(1) by fastforce
  then show ?thesis using e q k at by (cases e) (auto simp: fire_iff check_def)
qed

lemma fire_history: "history (fire E ops) es h \<Longrightarrow> fire E ops (es m) (h m) = Some (h (Suc m))"
  by (simp add: history_def)

lemma wedged_along:
  assumes "history (fire E ops) es h" and "\<forall>m\<ge>n. es m \<noteq> Crash i" and "wedged i b x (h n)" and "n \<le> m"
  shows "wedged i b x (h m)"
  using assms(4)
proof (induction m rule: dec_induct)
  case (step m)
  then show ?case using wedged_step [OF _ fire_history [OF assms(1)]] assms(2) by simp
qed (rule assms(3))

text \<open>The request waits for good.\<close>
definition waits_for_good :: "nat \<Rightarrow> nat \<Rightarrow> bucket_id \<Rightarrow> (nat \<Rightarrow> 'r sys) \<Rightarrow> nat \<Rightarrow> bool" where
  "waits_for_good q i b h m \<longleftrightarrow> (\<exists>x c. \<forall>m'\<ge>m. tasks (h m') q = Some (Task i b (Waiting x c)))"

lemma waiter_moves:
  assumes hist: "history (fire E ops) es h" and up: "\<forall>m\<ge>n. es m \<noteq> Crash i"
    and k: "tasks (h n) q = Some (Task i b (Waiting x c))" and "\<not> waits_for_good q i b h n"
  shows "\<exists>m\<ge>n. tasks (h m) q = Some (Task i b (Waiting x c)) \<and> request_of (es m) = Some q"
proof (rule ccontr)
  assume none: "\<not> ?thesis"
  have "tasks (h m) q = Some (Task i b (Waiting x c))" if "n \<le> m" for m
    using that
  proof (induction m rule: dec_induct)
    case (step m)
    then show ?case using others_keep [OF fire_history [OF hist] _ _ step.IH] none up by blast
  qed (rule k)
  then show False using assms(4) by (auto simp: waits_for_good_def)
qed

lemma parked_moves:
  assumes hist: "history (fire E ops) es h" and fair: "weakly_fair request_of ready es h"
    and up: "\<forall>m\<ge>n. es m \<noteq> Crash i" and wedged: "wedged i b x (h n)"
    and k: "tasks (h n) q = Some (Task i b k)" "parked k" "k \<noteq> Cancelled" and "\<not> waits_for_good q i b h n"
  shows "\<exists>m\<ge>n. tasks (h m) q = Some (Task i b k) \<and> request_of (es m) = Some q"
proof (cases "\<exists>y c. k = Waiting y c")
  case True
  then show ?thesis using waiter_moves [OF hist up] k assms(8) by blast
next
  case False
  let ?P = "\<lambda>s. tasks s q = Some (Task i b k)"
  have ready: "ready q (h m)" if "?P (h m)" for m
    using that k(2,3) False by (cases k) (auto simp: ready_def)
  show ?thesis
  proof (rule ccontr)
    assume none: "\<not> ?thesis"
    have keep: "?P (h m)" if "n \<le> m" for m
      using that
    proof (induction m rule: dec_induct)
      case (step m)
      then show ?case using others_keep [OF fire_history [OF hist] _ _ step.IH] none up by blast
    qed (rule k(1))
    then have "\<exists>m\<ge>n. request_of (es m) = Some q"
      using fair ready unfolding weakly_fair_def by blast
    then show False using none keep by blast
  qed
qed

lemma parked_ends:
  assumes hist: "history (fire E ops) es h" and fair: "weakly_fair request_of ready es h"
    and up: "\<forall>m\<ge>n. es m \<noteq> Crash i" and wedged: "wedged i b x (h n)"
    and k: "tasks (h n) q = Some (Task i b k)" "parked k"
  shows "\<exists>m\<ge>n. tasks (h m) q = Some (Task i b Cancelled) \<or> waits_for_good q i b h m"
  using up wedged k
proof (induction "to_wait x k" arbitrary: n k rule: less_induct)
  case less
  show ?case
  proof (cases "k = Cancelled \<or> waits_for_good q i b h n")
    case True
    then show ?thesis using less.prems(3) by blast
  next
    case False
    then obtain m where m: "n \<le> m" "tasks (h m) q = Some (Task i b k)" "request_of (es m) = Some q"
      using parked_moves [OF hist fair less.prems] by blast
    have at: "wedged i b x (h m)" "wedged i b x (h (Suc m))"
      using wedged_along [OF hist less.prems(1,2)] m(1) by simp_all
    obtain l where l: "tasks (h (Suc m)) q = Some (Task i b l)" "parked l"
        "l = Cancelled \<or> to_wait x l < to_wait x k"
      using wedged_own_step [OF at(1) fire_history [OF hist] m(3,2) less.prems(4)] by blast
    show ?thesis
    proof (cases "l = Cancelled")
      case True
      then show ?thesis using l(1) m(1) le_SucI by blast
    next
      case False
      then have "\<exists>m'\<ge>Suc m. tasks (h m') q = Some (Task i b Cancelled) \<or> waits_for_good q i b h m'"
        using less.hyps [of l "Suc m"] l at(2) less.prems(1) m(1) by auto
      then show ?thesis using m(1) by (meson Suc_leD order_trans)
    qed
  qed
qed

section \<open>Properties\<close>

text \<open>
  C31. Cancelled lease: when the request that refills a bucket for the first time is dropped
  while it leases (a client disconnect is enough), its refill entry stays behind, and the
  instance serves that bucket no more until it is restarted: in every infinite run that is weakly
  fair to its requests, each request for the bucket that looks for a token, is about to refill it
  or waits then, and each that comes later, ends up waiting for good or is cancelled. None is
  ever admitted or refused, and there never is a bucket again.
\<close>

theorem cancelled_lease_wedges:
  assumes "starts E (h 0)" and "history (fire E ops) es h" and "weakly_fair request_of ready es h"
    and "tasks (h n) p = Some (Task i b k)" and "holds k" and "es n = Cancel p"
    and "buckets (stores (h n) i) b = None" and "\<forall>m\<ge>n. es m \<noteq> Crash i"
    and "n < j" and "tasks (h j) q = Some (Task i b l)" and "parked l"
  shows "buckets (stores (h j) i) b = None \<and>
    (\<exists>m\<ge>j. tasks (h m) q = Some (Task i b Cancelled) \<or>
       (\<exists>x c. \<forall>m'\<ge>m. tasks (h m') q = Some (Task i b (Waiting x c))))"
proof -
  have reach: "reach (starts E) (fires (fire E ops)) (h m)" for m
    by (rule history_reach [OF assms(2), of "starts E"]) (rule assms(1))
  have flight: "single_flight (h n)" by (rule flight.reach_inv [OF reach])
  have p: "holder (h n) p i b" using assms(4,5) by (auto simp: holder_def)
  then obtain x where x: "refills (stores (h n) i) b = Some x"
    using flight unfolding single_flight_def by (metis not_None_eq)
  have "fire E ops (Cancel p) (h n) = Some (h (Suc n))" using fire_history [OF assms(2)] assms(6) by metis
  then have u: "h (Suc n) = goto p i b Cancelled (h n)" using assms(4) by (auto simp: fire_iff)
  have "\<not> holder (h (Suc n)) r i b" for r
    using flight p unfolding u single_flight_def by (auto simp: holder_def split: if_splits)
  moreover have "own_notifies (h (Suc n))" by (rule own_notifies.reach_inv [OF reach])
  ultimately have "wedged i b x (h (Suc n))" using x assms(7) by (simp add: wedged_def u)
  then have j: "wedged i b x (h j)"
    using wedged_along [OF assms(2), of "Suc n" i b x j] assms(8,9) by simp
  have up: "\<forall>m\<ge>j. es m \<noteq> Crash i" using assms(8,9) by simp
  show ?thesis
    using parked_ends [OF assms(2,3) up j assms(10,11)] j by (auto simp: waits_for_good_def wedged_def)
qed

text \<open>The first request is dropped while it leases; the next one waits for good.\<close>
definition dropped_run :: "event list" where
  "dropped_run = [Arrive 0 0 (Protected ''u''), Check 0, Enter 0, Call 0, Cancel 0,
     Arrive 1 0 (Protected ''u''), Check 1, Enter 1, Subscribe 1]"

theorem cancelled_lease_wedges_witness:
  "\<exists>es h. history (fire sample_env mem_ops) es h \<and> weakly_fair request_of ready es h \<and> es 4 = Cancel 0 \<and>
     tasks (h 6) 1 = Some (Task 0 (Protected ''u'') Checking) \<and>
     (\<exists>m\<ge>6. tasks (h m) 1 = Some (Task 0 (Protected ''u'') Cancelled) \<or>
        (\<exists>x c. \<forall>m'\<ge>m. tasks (h m') 1 = Some (Task 0 (Protected ''u'') (Waiting x c))))"
proof -
  let ?boot = "boot sample_env 0 (\<lambda>_. None)" and ?f = "fire sample_env mem_ops" and ?b = "Protected ''u''"
  obtain t where t: "run ?f dropped_run ?boot = Some t" "\<forall>p. \<not> ready p t" "clock t = 0"
    by (simp add: dropped_run_def ready_def fire_eval sample_env_def small_config_def)
  have idle: "?f (Tick 0) t = Some t" using t(3) by (simp add: fire.simps sample_env_def)
  let ?es = "\<lambda>n. if n < length dropped_run then dropped_run ! n else Tick 0"
  obtain h where h: "history ?f ?es h" "\<And>n. run ?f (take n dropped_run) ?boot = Some (h n)"
    "\<And>n. length dropped_run \<le> n \<Longrightarrow> h n = t"
    using history_of_run [OF t(1) idle] by blast
  have fair: "weakly_fair request_of ready ?es h"
    unfolding weakly_fair_def
  proof (intro allI impI)
    fix p n
    assume "\<forall>m\<ge>n. ready p (h m)"
    then have "ready p (h (n + length dropped_run))" by simp
    then show "\<exists>m\<ge>n. request_of (?es m) = Some p" using h(3) t(2) by simp
  qed
  have "h 0 = ?boot" using h(2) [of 0] by simp
  then have start: "starts sample_env (h 0)" by (metis sample_starts)
  obtain u v where "run ?f (take 4 dropped_run) ?boot = Some u" "tasks u 0 = Some (Task 0 ?b (Leasing 0))"
    "buckets (stores u 0) ?b = None"
    "run ?f (take 6 dropped_run) ?boot = Some v" "tasks v 1 = Some (Task 0 ?b Checking)"
    by (simp add: dropped_run_def fire_eval sample_env_def small_config_def)
  then have at: "tasks (h 4) 0 = Some (Task 0 ?b (Leasing 0))" "buckets (stores (h 4) 0) ?b = None"
    "tasks (h 6) 1 = Some (Task 0 ?b Checking)" using h(2) [of 4] h(2) [of 6] by simp_all
  have up: "\<forall>m\<ge>4. ?es m \<noteq> Crash 0"
  proof (intro allI impI)
    fix m :: nat
    have "Crash 0 \<notin> set dropped_run" by (simp add: dropped_run_def)
    then show "?es m \<noteq> Crash 0" by (metis event.distinct(47) nth_mem)
  qed
  have "?es 4 = Cancel 0" by (simp add: dropped_run_def)
  with cancelled_lease_wedges [OF start h(1) fair at(1) _ _ at(2) up _ at(3)] h(1) fair at(3)
  show ?thesis by (intro exI [of _ ?es] exI [of _ h]) simp
qed

end
