(* ===== verification/Loss.thy ===== *)
theory Loss
  imports Safety
begin

text \<open>
  Tokens that are lost. Once a window has begun, what is left of it in Redis and what is on its way or
  spent never grow together again; so the tokens of a bucket that is dropped while it holds some are
  spent by nobody. A cleanup tick can drop such a bucket.
\<close>

section \<open>A window that has begun does not grow\<close>

definition in_play :: "env \<Rightarrow> ('r \<Rightarrow> int \<Rightarrow> string \<Rightarrow> (string \<times> int option) option) \<Rightarrow> 'r sys \<Rightarrow>
    bucket_id \<Rightarrow> int \<Rightarrow> nat" where
  "in_play E live s b w = rem_in (window_of live (redis s) (server_time E s) b) w + used E s b w"

definition begun :: "env \<Rightarrow> ('r \<Rightarrow> int \<Rightarrow> string \<Rightarrow> (string \<times> int option) option) \<Rightarrow> 'r sys \<Rightarrow>
    bucket_id \<Rightarrow> int \<Rightarrow> bool" where
  "begun E live s b w \<longleftrightarrow> w \<le> latest live (redis s) (server_time E s) b"

lemma latest_end:
  "latest live r t b = (case map_option snd (window_of live r t b) of Some e \<Rightarrow> e | None \<Rightarrow> t)"
  by (auto simp: latest_def split: option.split)

context redis_server
begin

lemma begun_clock:
  assumes ok: "counters_ok live (redis s) (server_time E s)" and c: "clock s \<le> c" and w: "begun E live s b w"
  shows "begun E live (s\<lparr>clock := c\<rparr>) b w"
    and "in_play E live (s\<lparr>clock := c\<rparr>) b w \<le> in_play E live s b w"
proof -
  let ?t = "server_time E s" and ?t' = "server_time E (s\<lparr>clock := c\<rparr>)"
  have t: "?t \<le> ?t'" using c by (simp add: server_time_mono)
  have "rem_in (window_of live (redis s) ?t' b) w \<le> rem_in (window_of live (redis s) ?t b) w \<and>
      latest live (redis s) ?t b \<le> latest live (redis s) ?t' b"
  proof (cases "window_of live (redis s) ?t b")
    case None
    then show ?thesis using svc.win_none [OF ok t None] t by (simp add: latest_def)
  next
    case (Some ne)
    then obtain n e where "window_of live (redis s) ?t b = Some (n, e)" by (cases ne) auto
    then show ?thesis using svc.win_time [OF ok t] by (fastforce simp: latest_def)
  qed
  then show "begun E live (s\<lparr>clock := c\<rparr>) b w"
    and "in_play E live (s\<lparr>clock := c\<rparr>) b w \<le> in_play E live s b w"
    using w by (simp_all add: begun_def in_play_def)
qed

lemma begun_serve:
  assumes bal: "balanced E live s" and E: "env_ok E" and wf: "well_formed E s"
    and task: "tasks s p = Some (Task i c (Leasing u))" and w: "begun E live s b w"
  shows "begun E live (step_serve E ops n p i c u s) b w \<and>
    in_play E live (step_serve E ops n p i c u s) b w \<le> in_play E live s b w"
proof (rule served_by [OF wf, of ops c n p i u])
  let ?t = "server_time E s"
  let ?W = "window_of live (redis s) ?t"
  fix res r1 res' r'
  assume cd: "lease_call E ops Delivered s c = (res, r1)"
    and step: "step_serve E ops n p i c u s = goto p i c (Replied u res') (s\<lparr>redis := r'\<rparr>)"
    and "r' = redis s \<and> isl res' \<or> r' = r1 \<and> (isl res' \<or> res' = res)"
  then show ?thesis
  proof (elim disjE)
    assume lost: "r' = redis s \<and> isl res'"
    then show ?thesis using step w well_formed_task [OF wf task] by (auto simp: begun_def in_play_def used_lost)
  next
    assume got: "r' = r1 \<and> (isl res' \<or> res' = res)"
    let ?s = "goto p i c (Replied u res') (s\<lparr>redis := r1\<rparr>)"
    obtain m e where win: "window_of live r1 ?t = ?W(c \<mapsto> (m, e))" and te: "?t \<le> e"
      and rem: "rem_in (Some (m, e)) w + used E ?s c w \<le>
       rem_in (?W c) w + used E s c w + (if ?W c = None \<and> w = e then limit E c else 0)"
      and other: "c \<noteq> b \<Longrightarrow> used E ?s b w = used E s b w"
      and new: "?W c = None \<Longrightarrow> ?t < e" "\<And>k e'. ?W c = Some (k, e') \<Longrightarrow> e' = e"
    proof (rule lease_effect [OF bal E wf task cd, of res'], goal_cases)
      case 1
      then show ?case using got by blast
    next
      case (2 m e)
      show ?case by (rule that [OF 2(3,4,5) 2(7) [of b w] _ 2(9)]) (use 2(8) in auto)
    qed
    show ?thesis
    proof (cases "c = b")
      case True
      have "\<not> (?W c = None \<and> w = e)"
      proof
        assume none: "?W c = None \<and> w = e"
        then have "latest live (redis s) ?t b = ?t" using True by (simp add: latest_def)
        then show False using new(1) none w by (simp add: begun_def)
      qed
      then have "rem_in (Some (m, e)) w + used E ?s c w \<le> rem_in (?W c) w + used E s c w"
        using rem by (simp only: if_False add_0_right)
      moreover have "w \<le> e" using w te new True by (cases "?W c") (auto simp: begun_def latest_def)
      ultimately show ?thesis using step got win True by (simp add: begun_def in_play_def latest_def)
    next
      case False
      then show ?thesis using step got win w other by (simp add: begun_def in_play_def latest_def)
    qed
  qed
qed

lemma begun_step:
  assumes bal: "balanced E live s" and E: "env_ok E" and wf: "well_formed E s"
    and e: "fire E ops e s = Some t" and q: "quiet s e" and w: "begun E live s b w"
  shows "begun E live t b w \<and> in_play E live t b w \<le> in_play E live s b w"
proof -
  have ok: "counters_ok live (redis s) (server_time E s)" using bal by (simp add: balanced_def)
  have other: ?thesis if "\<forall>p n. e \<noteq> Serve p n" "\<forall>i k n. e \<noteq> Return i k n"
  proof -
    let ?s = "s\<lparr>clock := clock t\<rparr>"
    have step: "redis t = redis s" "clock s \<le> clock t" "used E t b w \<le> used E s b w"
      using quiet_step_used [OF wf e q that, of b w] by auto
    moreover have "server_time E t = server_time E ?s" by (simp add: server_time_def)
    ultimately show ?thesis
      using begun_clock [OF ok step(2) w] by (simp add: begun_def in_play_def)
  qed
  have return: "begun E live (step_return E ops n i k l s) b w \<and>
      in_play E live (step_return E ops n i k l s) b w \<le> in_play E live s b w"
    if "cleaners s i = Returning l" "k < length l" for n i k l
  proof -
    let ?s = "step_return E ops n i k l s" and ?t = "server_time E s"
    have t: "server_time E ?s = ?t" by (simp add: server_time_def step_return_def split: prod.split)
    note r = return_effect [OF bal E wf that, of n]
    have "latest live (redis ?s) ?t b = latest live (redis s) ?t b"
      unfolding latest_end using r by simp
    then show ?thesis using r w unfolding begun_def in_play_def t by simp
  qed
  show ?thesis
  proof (cases e)
    case Serve then show ?thesis using e begun_serve [OF bal E wf _ w] by (auto simp: fire_iff)
  next
    case Return then show ?thesis using e return by (auto simp: fire_iff)
  qed (rule other; simp)+
qed

end

context deployment
begin

lemma reach_ok: "reach (booted E live) (fires (quiet_fire E ops)) s \<Longrightarrow> well_formed E s \<and> balanced E live s"
  by (rule accounts.reach_inv)

lemma begun_run:
  assumes "reach (booted E live) (fires (quiet_fire E ops)) s" and "run (quiet_fire E ops) es s = Some t"
    and "begun E live s b w"
  shows "in_play E live t b w \<le> in_play E live s b w"
proof -
  let ?I = "\<lambda>u. (well_formed E u \<and> balanced E live u) \<and> begun E live u b w \<and>
    in_play E live u b w \<le> in_play E live s b w"
  have "?I t"
  proof (rule run_keeps [OF assms(2), of ?I])
    fix e u v
    assume u: "?I u" and "quiet_fire E ops e u = Some v"
    then have v: "fire E ops e u = Some v" "quiet u e" by (auto simp: quiet_fire_def split: if_splits)
    have "begun E live v b w \<and> in_play E live v b w \<le> in_play E live u b w"
      using begun_step [OF _ env _ v] u by blast
    then show "?I v" using u well_formed_step [OF _ v(1)] balanced_step [OF _ env _ v] by auto
  qed (use reach_ok [OF assms(1)] assms(3) in simp)
  then show ?thesis by simp
qed

text \<open>What an event drops is gone for good.\<close>

lemma dropped:
  assumes re: "reach (booted E live) (fires (quiet_fire E ops)) s"
    and t: "run (quiet_fire E ops) (e # es) s = Some t" and u: "fire E ops e s = Some u"
    and same: "redis u = redis s" "clock s \<le> clock u"
    and drop: "used E u b w + m \<le> used E s b w" and some: "0 < m"
  shows "spent t b w + m \<le> unat (quota (policy_for (conf E) b))"
proof -
  note ok = reach_ok [OF re]
  have f: "quiet_fire E ops e s = Some u" "quiet s e"
    using t u by (auto simp: quiet_fire_def split: if_splits)
  then have "fires (quiet_fire E ops) s u" by (auto simp: fires_def)
  with re have reach: "reach (booted E live) (fires (quiet_fire E ops)) u" by (rule reach_step)
  have "begun E live s b w" using ok drop some by (auto simp: balanced_def begun_def)
  then have "begun E live u b w" using begun_step [OF _ env _ u f(2)] ok by blast
  then have "in_play E live t b w \<le> in_play E live u b w" using begun_run [OF reach] t f(1) by simp
  moreover have "rem_in (window_of live (redis u) (server_time E u) b) w \<le>
      rem_in (window_of live (redis s) (server_time E s) b) w"
  proof -
    have "counters_ok live (redis s) (server_time E s)" using ok by (simp add: balanced_def)
    from begun_clock(2) [OF this same(2) \<open>begun E live s b w\<close>] show ?thesis
      using same(1) by (simp add: in_play_def server_time_def)
  qed
  moreover have "in_play E live s b w \<le> unat (quota (policy_for (conf E) b))"
    using conserved [OF re, of b w] by (simp add: in_play_def limit_def)
  moreover have "spent t b w \<le> in_play E live t b w" by (simp add: in_play_def used_def)
  ultimately show ?thesis using drop by (simp add: in_play_def)
qed

end

section \<open>Properties\<close>


text \<open>
  The first window has ended when a tick marks its bucket; before the tick goes on to remove it, a request
  leases two tokens of the next window into a new bucket and takes one. The sweep drops the other.
\<close>
definition sweep_run :: "event list" where
  "sweep_run = sample_run @ [Tick 60000000000, Sweep_start 0, Mark 0 (Protected ''u''), Mark_done 0,
     Arrive 1 0 (Protected ''u''), Check 1, Enter 1, Call 1, Serve 1 Delivered, Reply 1 0,
     Unlock 1, Notify 1, Spend 1]"


end
