(* ===== verification/Stale.thy ===== *)
theory Stale
  imports Loss Races
begin

text \<open>
  A refill of a bucket that has been refilled since. \<open>ensure_refilled\<close> looks at the bucket, and at
  \<open>refills\<close> only afterwards; when another request has ended its own refill in between, the entry is vacant
  again and the bucket full. The second lease then drops the tokens of the first, or, when Redis has none left,
  marks the full bucket as exhausted.
\<close>

section \<open>A lease that finds tokens in the bucket\<close>

lemma used_overwrite:
  assumes task: "tasks s p = Some (Task i b (Replied u (Inr (n, d, e))))" and n: "n \<noteq> 0"
    and p: "p < n_tasks E" "i < n_insts E"
    and x: "buckets (stores s i) b = Some x" "\<not> visited s i b"
  shows "used E (step_reply E gap p i b u (Inr (n, d, e)) s) b w + in_bucket (Some x) w = used E s b w"
proof -
  let ?s = "s\<lparr>clock := clock s + gap\<rparr>" and ?res = "Inr (n, d, e) :: cache_error + u64 \<times> u64 \<times> i64"
  obtain out st where ap: "apply_lease (local_time E ?s i) (stores s i) b
      (lease_answer u (local_time E s i) ?res) = (out, st)" by fastforce
  have "in_bucket (buckets st b) w = in_reply (Replied u ?res) w"
    using ap n by (auto simp: apply_lease_def lease_answer_def bucket_new_def)
  then have "used E (set_store i st ?s) b w + in_bucket (Some x) w = used E ?s b w + in_reply (Replied u ?res) w"
    using used_set_store [OF p(2), of st ?s b w] x by (simp add: held_def)
  moreover have "used E (goto p i b (Unlocking out) (set_store i st ?s)) b w + in_reply (Replied u ?res) w =
      used E (set_store i st ?s) b w"
    using used_goto [OF p(1), of i b "Unlocking out" "set_store i st ?s" b w] task by simp
  ultimately show ?thesis using ap by (simp add: step_reply_def Let_def)
qed



text \<open>
  Both requests find no bucket; the first leases two of the three tokens and is done before the second
  enters, and the second leases the third into a bucket of its own.
\<close>
definition stale_run :: "event list" where
  "stale_run = [Arrive 0 0 (Protected ''u''), Check 0, Arrive 1 0 (Protected ''u''), Check 1,
     Enter 0, Call 0, Serve 0 Delivered, Reply 0 0, Unlock 0, Notify 0, Spend 0,
     Enter 1, Call 1, Serve 1 Delivered]"


section \<open>A lease that finds nothing left\<close>

text \<open>Where a request can be that has passed no check and does no refill.\<close>
fun aside :: "pc \<Rightarrow> bool" where
  "aside Checking \<longleftrightarrow> True"
| "aside (Subscribing n) \<longleftrightarrow> True"
| "aside (Waiting n c) \<longleftrightarrow> True"
| "aside (Finished out) \<longleftrightarrow> True"
| "aside Cancelled \<longleftrightarrow> True"
| "aside _ \<longleftrightarrow> False"

definition shut :: "nat \<Rightarrow> bucket_id \<Rightarrow> bucket \<Rightarrow> 'r sys \<Rightarrow> bool" where
  "shut i b y s \<longleftrightarrow> buckets (stores s i) b = Some y \<and> exhausted y \<and>
     (\<forall>q k. tasks s q = Some (Task i b k) \<longrightarrow> aside k)"

lemma shut_step:
  assumes s: "shut i b y s" and e: "fire E ops e s = Some t" and no: "e \<noteq> Crash i" "e \<noteq> Sweep i b"
  shows "shut i b y t"
proof (cases "request_of e")
  case None
  then show ?thesis
    using assms by (cases e) (auto simp: fire_iff shut_def step_crash_def remove_bucket_def split: if_splits option.splits task.splits)
next
  case (Some q)
  obtain j c k l where q: "tasks s q = Some (Task j c k)" "tasks t = (tasks s)(q \<mapsto> Task j c l)"
    using own_tasks [OF e Some] by blast
  have "buckets (stores t i) b = buckets (stores s i) b \<and> ((j, c) = (i, b) \<longrightarrow> aside l)"
  proof (cases "(j, c) = (i, b)")
    case True
    then have "aside k" "buckets (stores s i) b = Some y" "exhausted y" using s q(1) by (auto simp: shut_def)
    then show ?thesis using True e Some q
      by (cases e) (auto simp: fire_iff check_def is_exhausted_def dest!: fun_cong [of _ _ q])
  next
    case False
    then show ?thesis using requests_are_isolated [OF e Some q(1) False] by auto
  qed
  then show ?thesis using s q by (auto simp: shut_def)
qed


lemma shut_run:
  "shut i b y s \<Longrightarrow> run (fire E ops) es s = Some t \<Longrightarrow> Crash i \<notin> set es \<Longrightarrow> Sweep i b \<notin> set es \<Longrightarrow>
   shut i b y t"
  by (rule run_keeps) (auto intro: shut_step)

text \<open>Nothing is leased from a window that is used up.\<close>

context redis_server
begin

lemma lease_nothing:
  assumes "counters_ok live r t" and "lease_args t sz q ttl" and "window_of live r t b = Some (0, w)"
  shows "\<exists>d e r'. lease_request ops Delivered r t b sz q ttl = (Inr (0, d, e), r')"
proof -
  have "abs_lease t (uint sz) (uint q) (uint (as_secs ttl)) (window_of live r t b) =
      ((0, w - t, w), Some (0, w))"
    using assms(3) by (simp add: abs_lease_def)
  from svc.lease_abs [OF assms(1,2) this] show ?thesis by auto
qed

end

text \<open>
  C8. A refill that comes too late shuts a full bucket: a request that saw no usable bucket, but
  looks at \<open>refills\<close> only after another request has refilled the bucket and removed
  its entry, leases again. If Redis has nothing left then, and no other request there for the
  bucket is past its check or in a refill (each is checking, waiting, answered or cancelled:
  \<open>aside\<close>), it marks the bucket as exhausted and is refused, and under every later
  event but the removal of the bucket by a cleanup tick and a restart the tokens in it are never
  spent and no request there passes the check. One instance alone then refuses with its quota
  unspent.
\<close>

theorem stale_lease_exhausts:
  assumes "redis_server ops live" and "env_ok E" and "reach (booted E live) (fires (quiet_fire E ops)) s"
    and "tasks s p = Some (Task i b Entering)" and "refills (stores s i) b = None"
    and "\<forall>q k. q \<noteq> p \<longrightarrow> tasks s q = Some (Task i b k) \<longrightarrow> aside k"
    and "buckets (stores s i) b = Some x" and "window_of live (redis s) (server_time E s) b = Some (0, w)"
  shows "\<exists>t. run (fire E ops) [Enter p, Call p, Serve p Delivered, Reply p 0, Unlock p, Notify p] s = Some t \<and>
    tasks t p = Some (Task i b (Finished (Inl (Exhausted b (duration_since (expires_at x) (local_time E s i)))))) \<and>
    (\<forall>es u. run (fire E ops) es t = Some u \<longrightarrow> Crash i \<notin> set es \<longrightarrow> Sweep i b \<notin> set es \<longrightarrow>
       buckets (stores u i) b = Some (set_exhausted x) \<and> (\<forall>q. tasks u q \<noteq> Some (Task i b Spending)))"
proof -
  have dep: "deployment ops live E" using assms(1,2) by (simp add: deployment_def deployment_axioms_def)
  have wf: "well_formed E s" and bal: "balanced E live s" using deployment.reach_ok [OF dep assms(3)] by auto
  let ?u = "local_time E s i" and ?q = "policy_for (conf E) b"
  let ?s1 = "step_enter p i b s"
  let ?s2 = "goto p i b (Leasing ?u) ?s1"
  have ok: "counters_ok live (redis s) (server_time E s)" using bal by (simp add: balanced_def)
  obtain d e r' where call: "lease_request ops Delivered (redis s) (server_time E s) b (lease_size ?q) (quota ?q)
      (reset_in ?q) = (Inr (0, d, e), r')"
    using redis_server.lease_nothing [OF assms(1) ok env_ok_lease_args [OF assms(2) wf, of b] assms(8)] by blast
  let ?s3 = "goto p i b (Replied ?u (Inr (0, d, e))) (?s2\<lparr>redis := r'\<rparr>)"
  let ?err = "Exhausted b (duration_since (expires_at x) ?u)"
  let ?s4 = "step_reply E 0 p i b ?u (Inr (0, d, e)) ?s3"
  let ?s5 = "step_unlock p i b (Inl ?err) ?s4"
  let ?s6 = "step_notify p i b (refills (stores ?s4 i) b) (Inl ?err) ?s5"
  have f1: "fire E ops (Enter p) s = Some ?s1" and t1: "tasks ?s1 = (tasks s)(p \<mapsto> Task i b Calling)"
    using assms(4,5) by (simp_all add: fire.simps)
  have time: "local_time E ?s1 i = ?u" by (simp add: local_time_def)
  have f2: "fire E ops (Call p) ?s1 = Some ?s2" using t1 time by (simp add: fire.simps)
  have "step_serve E ops Delivered p i b ?u ?s2 = ?s3"
    using call well_formed_cfg [OF well_formed_step [OF wf f1]] by (simp add: step_serve_def Let_def server_time_def)
  then have f3: "fire E ops (Serve p Delivered) ?s2 = Some ?s3" by (simp add: fire.simps)
  have f4: "fire E ops (Reply p 0) ?s3 = Some ?s4" using wf by (simp add: fire.simps well_formed_def)
  have r4: "tasks ?s4 = (tasks ?s3)(p \<mapsto> Task i b (Unlocking (Inl ?err)))"
    "buckets (stores ?s4 i) b = Some (set_exhausted x)"
    using assms(7) by (simp_all add: step_reply_def lease_answer_def apply_lease_def Let_def local_time_def)
  then have f5: "fire E ops (Unlock p) ?s4 = Some ?s5" by (simp add: fire.simps)
  have f6: "fire E ops (Notify p) ?s5 = Some ?s6" by (simp add: fire.simps)
  have run: "run (fire E ops) [Enter p, Call p, Serve p Delivered, Reply p 0, Unlock p, Notify p] s = Some ?s6"
    using f1 f2 f3 f4 f5 f6 by simp
  have t6: "tasks ?s6 = (tasks s)(p \<mapsto> Task i b (Finished (Inl ?err)))" using t1 r4(1) by simp
  have shut: "shut i b (set_exhausted x) ?s6"
    using t6 r4(2) assms(6) by (auto simp: shut_def set_exhausted_def)
  have "buckets (stores u i) b = Some (set_exhausted x) \<and> (\<forall>q. tasks u q \<noteq> Some (Task i b Spending))"
    if "run (fire E ops) es ?s6 = Some u" "Crash i \<notin> set es" "Sweep i b \<notin> set es" for es u
    using shut_run [OF shut that] by (fastforce simp: shut_def)
  moreover have "tasks ?s6 p = Some (Task i b (Finished (Inl ?err)))" unfolding t6 by simp
  ultimately show ?thesis using run by blast
qed

text \<open>
  One instance that leases the whole quota of three at once. The first request is admitted; then the second,
  which had found no bucket either, shuts the bucket with the two tokens left in it.
\<close>
definition whole_env :: env where
  "whole_env = sample_env\<lparr>n_insts := 1, conf := small_config\<lparr>protected_policy :=
     (protected_policy small_config)\<lparr>lease_size := 3\<rparr>\<rparr>\<rparr>"

theorem stale_lease_exhausts_witness:
  "\<exists>s t. run (quiet_fire whole_env mem_ops) (take 11 stale_run) (boot whole_env 0 (\<lambda>_. None)) = Some s \<and>
     n_insts whole_env = 1 \<and> check 0 (stores s 0) (Protected ''u'') = Inr True \<and>
     run (fire whole_env mem_ops) [Enter 1, Call 1, Serve 1 Delivered, Reply 1 0, Unlock 1, Notify 1] s = Some t \<and>
     tasks t 1 = Some (Task 0 (Protected ''u'') (Finished (Inl (Exhausted (Protected ''u'') 60000000000)))) \<and>
     (\<forall>es u. run (fire whole_env mem_ops) es t = Some u \<longrightarrow> Crash 0 \<notin> set es \<longrightarrow>
        Sweep 0 (Protected ''u'') \<notin> set es \<longrightarrow> map_option tokens (buckets (stores u 0) (Protected ''u'')) = Some 2)"
proof -
  let ?b = "Protected ''u''"
  obtain s x where s: "run (quiet_fire whole_env mem_ops) (take 11 stale_run) (boot whole_env 0 (\<lambda>_. None)) = Some s"
    "tasks s 1 = Some (Task 0 ?b Entering)" "refills (stores s 0) ?b = None"
    "\<forall>q k. q \<noteq> 1 \<longrightarrow> tasks s q = Some (Task 0 ?b k) \<longrightarrow> aside k"
    "buckets (stores s 0) ?b = Some x" "window_of mem_live (redis s) (server_time whole_env s) ?b = Some (0, 60000)"
    "tokens x = 2" "expires_at x = 60000000000" "local_time whole_env s 0 = 0"
    "check 0 (stores s 0) ?b = Inr True"
    by (simp add: stale_run_def quiet_fire_def quiet_def fire_eval whole_env_def sample_env_def small_config_def
        bucket_new_def window_of_def)
  have ok: "env_ok whole_env"
    by (simp add: env_ok_def whole_env_def sample_env_def valid_config_def valid_policy_def small_config_def)
  have "booted whole_env mem_live (boot whole_env 0 (\<lambda>_. None))"
    by (auto simp: booted_def counters_ok_def window_of_def mem_live_def boot_def server_time_def
        whole_env_def sample_env_def intro!: exI [of _ 0])
  then have r: "reach (booted whole_env mem_live) (fires (quiet_fire whole_env mem_ops)) s"
    by (intro reach_run [OF reach_start s(1)])
  obtain t where t: "run (fire whole_env mem_ops)
      [Enter 1, Call 1, Serve 1 Delivered, Reply 1 0, Unlock 1, Notify 1] s = Some t"
    "tasks t 1 = Some (Task 0 ?b (Finished (Inl (Exhausted ?b (duration_since (expires_at x) 0)))))"
    "\<And>es u. run (fire whole_env mem_ops) es t = Some u \<Longrightarrow> Crash 0 \<notin> set es \<Longrightarrow>
       Sweep 0 ?b \<notin> set es \<Longrightarrow> buckets (stores u 0) ?b = Some (set_exhausted x)"
    using stale_lease_exhausts [OF mem.redis_server_axioms ok r s(2-6)] s(9) by auto
  have "duration_since (expires_at x) 0 = 60000000000" "tokens (set_exhausted x) = 2"
    using s(7,8) by (simp_all add: duration_since_def saturating_sub_def set_exhausted_def)
  moreover have "n_insts whole_env = 1" by (simp add: whole_env_def)
  ultimately show ?thesis using s(1,10) t by auto
qed

section \<open>Without a cleanup task\<close>

lemma no_sweep:
  assumes "\<not> enabled (cleanup (conf E))" and "cleaners s i = Idle" and "fire E ops e s = Some t" and "e \<noteq> Crash i"
  shows "cleaners t i = Idle \<and> e \<noteq> Sweep i b"
proof (cases "request_of e")
  case (Some p)
  then show ?thesis using assms by (cases e; auto simp: fire_iff)+
next
  case None
  then show ?thesis using assms by (cases e) (auto simp: fire_iff has_cleaner_def step_visit_def step_return_def step_crash_def split: prod.split)
qed

text \<open>
  C36. A bucket that is marked as exhausted at an instance without cleanup, while no request
  there is past its check or refilling it, refuses for good: after every run of the whole system
  in which the instance is not restarted the same bucket is there, no request may spend, and each
  that checks is answered \<open>Exhausted\<close> with the time to the end of its window, which
  is zero once the window is over. So a client is never admitted again, though Redis would grant
  a new window: \<open>check\<close> looks at \<open>exhausted\<close> before it looks at the
  expiry.
\<close>

theorem exhausted_for_good:
  assumes "\<not> enabled (cleanup (conf E))" and "cleaners s i = Idle"
    and "buckets (stores s i) b = Some x" and "exhausted x"
    and "\<forall>q k. tasks s q = Some (Task i b k) \<longrightarrow> aside k"
    and "run (fire E ops) es s = Some t" and "Crash i \<notin> set es"
  shows "buckets (stores t i) b = Some x \<and> (\<forall>q. tasks t q \<noteq> Some (Task i b Spending)) \<and>
    (\<forall>p. tasks t p = Some (Task i b Checking) \<longrightarrow>
       fire E ops (Check p) t =
         Some (goto p i b (Finished (Inl (Exhausted b (duration_since (expires_at x) (local_time E t i))))) t))"
proof -
  let ?I = "\<lambda>s. cleaners s i = Idle \<and> shut i b x s"
  have "?I t"
  proof (rule run_keeps [OF assms(6), of ?I])
    show "?I s" using assms(2-5) by (auto simp: shut_def)
  next
    fix e u v assume "e \<in> set es" and u: "?I u" and e: "fire E ops e u = Some v"
    then have "e \<noteq> Crash i" using assms(7) by auto
    with u no_sweep [OF assms(1) _ e this] show "?I v" using shut_step [OF _ e] by blast
  qed
  then have t: "buckets (stores t i) b = Some x" "exhausted x" "\<And>q k. tasks t q = Some (Task i b k) \<Longrightarrow> aside k"
    by (auto simp: shut_def)
  have "check u (stores t i) b = Inl (Exhausted b (duration_since (expires_at x) u))" for u
    using t(1,2) by (simp add: check_def is_exhausted_def)
  then show ?thesis using t(1) t(3) by (fastforce simp: fire.simps step_check_def)
qed

text \<open>The bucket shut above, without cleanup, a minute after the end of its window.\<close>
definition unswept_env :: env where
  "unswept_env = whole_env\<lparr>conf := (conf whole_env)\<lparr>cleanup := \<lparr>enabled = False, interval = from_secs 60\<rparr>\<rparr>\<rparr>"

theorem exhausted_for_good_witness:
  "\<exists>s t. run (fire unswept_env mem_ops)
       (take 11 stale_run @ [Enter 1, Call 1, Serve 1 Delivered, Reply 1 0, Unlock 1, Notify 1])
       (boot unswept_env 0 (\<lambda>_. None)) = Some s \<and>
     run (fire unswept_env mem_ops) [Tick 120000000000, Arrive 2 0 (Protected ''u'')] s = Some t \<and>
     window_of mem_live (redis t) (server_time unswept_env t) (Protected ''u'') = None \<and>
     fire unswept_env mem_ops (Check 2) t =
       Some (goto 2 0 (Protected ''u'') (Finished (Inl (Exhausted (Protected ''u'') 0))) t)"
proof -
  let ?b = "Protected ''u''"
  obtain s t x where s: "run (fire unswept_env mem_ops)
       (take 11 stale_run @ [Enter 1, Call 1, Serve 1 Delivered, Reply 1 0, Unlock 1, Notify 1])
       (boot unswept_env 0 (\<lambda>_. None)) = Some s"
    "cleaners s 0 = Idle" "buckets (stores s 0) ?b = Some x" "exhausted x" "expires_at x = 60000000000"
    "\<forall>q k. tasks s q = Some (Task 0 ?b k) \<longrightarrow> aside k"
    "run (fire unswept_env mem_ops) [Tick 120000000000, Arrive 2 0 ?b] s = Some t"
    "window_of mem_live (redis t) (server_time unswept_env t) ?b = None"
    "tasks t 2 = Some (Task 0 ?b Checking)" "local_time unswept_env t 0 = 120000000000"
    by (simp add: stale_run_def fire_eval unswept_env_def whole_env_def sample_env_def small_config_def
        bucket_new_def window_of_def set_exhausted_def)
  have "\<not> enabled (cleanup (conf unswept_env))" by (simp add: unswept_env_def)
  from exhausted_for_good [OF this s(2-4,6,7)] s(5,9,10)
  have "fire unswept_env mem_ops (Check 2) t = Some (goto 2 0 ?b (Finished (Inl (Exhausted ?b 0))) t)"
    by (simp add: duration_since_def saturating_sub_def)
  then show ?thesis using s(1,7,8) by blast
qed

end
