(* ===== verification/Conserve.thy ===== *)
theory Conserve
  imports Loss
begin

text \<open>
  The converse of \<open>Safety\<close>: no token of a window goes missing but by the events that are known to drop some.
  These are a lost reply to a lease, a request dropped with a reply in hand, a refill or removal of a bucket that
  still holds tokens, a shutdown that comes past an expired bucket, a release that does not arrive, and a crash.
  All other steps only move tokens.
\<close>

section \<open>Moves\<close>

lemma used_refilling:
  assumes task: "tasks s p = Some (Task i b (Replied u res))" and p: "p < n_tasks E" "i < n_insts E"
    and bare: "b = c \<longrightarrow> \<not> visited s i b \<and> in_bucket (buckets (stores s i) b) w = 0"
  shows "used E (step_reply E gap p i b u res s) c w = used E s c w"
proof -
  let ?s = "s\<lparr>clock := clock s + gap\<rparr>"
  obtain out st where ap: "apply_lease (local_time E ?s i) (stores s i) b
      (lease_answer u (local_time E s i) res) = (out, st)" by fastforce
  have "in_bucket (buckets st c) w = in_bucket (buckets (stores s i) c) w +
      (if b = c then in_reply (Replied u res) w else 0)"
    using ap bare by (cases res) (auto simp: apply_lease_def lease_answer_def set_exhausted_def bucket_new_def
        split: option.splits if_splits)
  then have "used E (set_store i st ?s) c w = used E ?s c w + (if b = c then in_reply (Replied u res) w else 0)"
    using used_set_store [OF p(2), of st ?s c w] bare by (auto simp: held_def split: if_splits)
  moreover have "used E (goto p i b (Unlocking out) (set_store i st ?s)) c w +
      (if b = c then in_reply (Replied u res) w else 0) = used E (set_store i st ?s) c w"
    using used_goto [OF p(1), of i b "Unlocking out" "set_store i st ?s" c w] task
    by (cases "b = c") simp_all
  ultimately show ?thesis using ap by (simp add: step_reply_def Let_def)
qed


lemma used_sweep_other:
  assumes i: "i < n_insts E" and lots: "lots c = lots (cleaners s i)"
    and bare: "d = b \<longrightarrow> held (visited s i) (stores s i) b w = 0"
  shows "used E (set_cleaner i c (set_store i (remove_bucket (stores s i) b) s)) d w = used E s d w"
proof -
  let ?s = "set_store i (remove_bucket (stores s i) b) s"
  have "used E (set_cleaner i c ?s) d w = used E ?s d w"
    using lots by (intro used_set_cleaner_eq [OF i]) simp
  moreover have "held (visited s i) (remove_bucket (stores s i) b) d w = held (visited s i) (stores s i) d w"
    using bare by (auto simp: held_def remove_bucket_def)
  then have "used E ?s d w = used E s d w"
    using used_set_store [OF i, of "remove_bucket (stores s i) b" s d w] by simp
  ultimately show ?thesis by simp
qed

lemma used_visit_live:
  assumes i: "i < n_insts E" and c: "cleaners s i = Collecting l"
    and x: "buckets (stores s i) b = Some x" "\<not> visited s i b"
    and kept: "d = b \<longrightarrow> \<not> is_expired (local_time E s i) x \<or> in_bucket (Some x) w = 0"
  shows "used E (step_visit E i b x l s) d w = used E s d w"
proof -
  let ?s = "s\<lparr>visited := (visited s)(i := (visited s i)(b := True))\<rparr>"
  let ?c = "Collecting (if is_empty x \<or> is_expired (local_time E s i) x then l
                        else l @ [(b, tokens x, window x)])"
  have "used E ?s d w + (if d = b then in_bucket (Some x) w else 0) = used E s d w"
    using used_visited [OF i, of s "(visited s i)(b := True)" d w] x by (simp add: held_def split: if_splits)
  moreover have "used E (set_cleaner i ?c ?s) d w = used E ?s d w + (if d = b then in_bucket (Some x) w else 0)"
    using used_set_cleaner [OF i, of ?c ?s d w] c kept by (auto simp: is_empty_def split: if_splits)
  ultimately show ?thesis by (simp add: step_visit_def)
qed

lemma used_crash_bare:
  assumes "held (visited s i) (stores s i) b w = 0" and "in_lots (lots (cleaners s i)) b w = 0"
    and "\<forall>p<n_tasks E. case tasks s p of
      Some (Task j c k) \<Rightarrow> j = i \<longrightarrow> in_task (tasks s p) b w = 0 | None \<Rightarrow> True"
  shows "used E (step_crash E i s) b w = used E s b w"
proof -
  have "in_task (tasks (step_crash E i s) p) b w = in_task (tasks s p) b w" if "p < n_tasks E" for p
    using assms(3) that by (auto simp: step_crash_def split: option.splits task.splits)
  moreover have "held (visited (step_crash E i s) j) (stores (step_crash E i s) j) b w =
      held (visited s j) (stores s j) b w" for j
    using assms(1) by (auto simp: step_crash_def held_def store_new_def split: if_splits)
  moreover have "in_lots (lots (cleaners (step_crash E i s) j)) b w = in_lots (lots (cleaners s j)) b w" for j
    using assms(2) by (simp add: step_crash_def)
  moreover have "spent (step_crash E i s) = spent s" by (simp add: step_crash_def)
  ultimately show ?thesis unfolding used_def by simp
qed

section \<open>Events that lose nothing\<close>

text \<open>
  The event drops no token of window \<open>w\<close> of the bucket. A refill of a bucket that a shutdown has come past
  is not such an event: what it puts there, the shutdown will not give back.
\<close>
definition spares :: "env \<Rightarrow> bucket_id \<Rightarrow> int \<Rightarrow> 'r sys \<Rightarrow> event \<Rightarrow> bool" where
  "spares E b w s e \<longleftrightarrow>
     (case e of
        Serve p n \<Rightarrow>
          (case (n, tasks s p) of (Reply_Lost m, Some (Task i c k)) \<Rightarrow> c \<noteq> b | _ \<Rightarrow> True)
      | Reply p gap \<Rightarrow>
          (case tasks s p of
             Some (Task i c k) \<Rightarrow> c = b \<longrightarrow> \<not> visited s i b \<and> in_bucket (buckets (stores s i) b) w = 0
           | None \<Rightarrow> True)
      | Cancel p \<Rightarrow> in_task (tasks s p) b w = 0
      | Remove p \<Rightarrow>
          (case tasks s p of
             Some (Task i c k) \<Rightarrow> c = b \<longrightarrow> held (visited s i) (stores s i) b w = 0
           | None \<Rightarrow> True)
      | Sweep i c \<Rightarrow> c = b \<longrightarrow> held (visited s i) (stores s i) b w = 0
      | Visit i c \<Rightarrow>
          (case buckets (stores s i) c of
             Some x \<Rightarrow> c = b \<longrightarrow> \<not> is_expired (local_time E s i) x \<or> in_bucket (Some x) w = 0
           | None \<Rightarrow> True)
      | Return i k n \<Rightarrow>
          (case (n, cleaners s i) of
             (Request_Lost m, Returning l) \<Rightarrow> in_lots [l ! k] b w = 0
           | _ \<Rightarrow> True)
      | Crash i \<Rightarrow>
          held (visited s i) (stores s i) b w = 0 \<and> in_lots (lots (cleaners s i)) b w = 0 \<and>
          (\<forall>p<n_tasks E. case tasks s p of
             Some (Task j c k) \<Rightarrow> j = i \<longrightarrow> in_task (tasks s p) b w = 0
           | None \<Rightarrow> True)
      | _ \<Rightarrow> True)"

lemma used_spared:
  assumes wf: "well_formed E s" and e: "fire E ops e s = Some t" and q: "quiet s e" "spares E b w s e"
    and "\<forall>p n. e \<noteq> Serve p n" and "\<forall>i k n. e \<noteq> Return i k n"
  shows "used E t b w = used E s b w"
proof -
  note task = well_formed_task [OF wf]
  note cleaner = well_formed_cleaner [OF wf]
  have idle: "used E (goto p i c k s) b w = used E s b w"
    if "p < n_tasks E" "\<And>w. in_reply k w = 0" "in_task (tasks s p) b w = 0" for p i c k
    using used_goto_eq [OF that(1,2), of i c s b w] that(3) by simp
  have lots: "used E (set_cleaner i c s) b w = used E s b w"
    if "i < n_insts E" "lots c = lots (cleaners s i)" for i c
    using used_set_cleaner_eq [OF that] by simp
  have still: "used E (step_check E p i c s) b w = used E s b w" "used E (step_enter p i c s) b w = used E s b w"
    "used E (step_unlock p i c out s) b w = used E s b w" "used E (step_notify p i c m out s) b w = used E s b w"
    "c = b \<longrightarrow> held (visited s i) (stores s i) b w = 0 \<Longrightarrow> used E (step_remove p i c s) b w = used E s b w"
    "\<not> visited s i c \<Longrightarrow> used E (step_spend E p i c s) b w = used E s b w"
    if "tasks s p = Some (Task i c k)" "in_reply k w = 0" for p i c k m out
    using used_moving(1,2,5) [where p = p and i = i and b = c and s = s and c = b and w = w and E = E]
      used_moving(3) [where p = p and i = i and b = c and s = s and c = b and w = w and E = E and out = out]
      used_moving(4) [where p = p and i = i and b = c and s = s and c = b and w = w and E = E and out = out and m = m]
      used_spending [where p = p and i = i and b = c and s = s and c = b and w = w and E = E]
      task [OF that(1)] that
    by (auto split: if_splits)
  show ?thesis
  proof (cases e)
    case Check then show ?thesis using e by (auto simp: fire_iff still)
  next
    case Enter then show ?thesis using e by (auto simp: fire_iff still)
  next
    case Unlock then show ?thesis using e by (auto simp: fire_iff still)
  next
    case Notify then show ?thesis using e by (auto simp: fire_iff still)
  next
    case Remove then show ?thesis using e q by (auto simp: fire_iff spares_def intro!: still(5))
  next
    case Spend then show ?thesis using e q by (auto simp: fire_iff spares_def quiet_def intro!: still(6))
  next
    case (Reply p gap)
    then obtain i c u res where r: "tasks s p = Some (Task i c (Replied u res))" "t = step_reply E gap p i c u res s"
      using e by (auto simp: fire_iff)
    then show ?thesis
      using used_refilling [OF r(1)] task [OF r(1)] q Reply by (auto simp: spares_def)
  next
    case Sweep then show ?thesis
      using e q cleaner by (auto simp: fire_iff spares_def intro!: used_sweep_other)
  next
    case Visit then show ?thesis
      using e q cleaner by (auto simp: fire_iff spares_def intro!: used_visit_live)
  next
    case Crash then show ?thesis
      using e q by (auto simp: fire_iff spares_def intro!: used_crash_bare)
  next
    case Cancel then show ?thesis
      using e q by (auto simp: fire_iff spares_def dest: task intro!: idle)
  qed (use e assms(5,6) cleaner in \<open>auto simp: fire_iff has_cleaner_def dest: task intro!: idle lots\<close>)
qed


section \<open>Calls\<close>

lemma reply_lost_runs:
  "snd (cache_release ops (Reply_Lost m) r t b toks x) = snd (cache_release ops Delivered r t b toks x)"
  by (auto simp: cache_release_def script_execute_def split: sum.splits prod.splits)

lemma request_lost_stays:
  "lease_request ops (Request_Lost m) r t b sz q ttl = (Inl (Redis m), r)"
  "snd (cache_release ops (Request_Lost m) r t b toks x) = r"
  by (simp_all add: lease_request_def cache_release_def script_execute_def)

definition batch :: "env \<Rightarrow> bucket_id \<Rightarrow> nat" where
  "batch E b = unat (lease_size (policy_for (conf E) b))"

text \<open>While window \<open>w\<close> of the bucket lasts, at most \<open>d\<close> of its tokens are missing.\<close>
definition accounted ::
    "env \<Rightarrow> ('r \<Rightarrow> int \<Rightarrow> string \<Rightarrow> (string \<times> int option) option) \<Rightarrow> bucket_id \<Rightarrow> int \<Rightarrow> nat \<Rightarrow> 'r sys \<Rightarrow> bool" where
  "accounted E live b w d s \<longleftrightarrow>
     (\<forall>n. window_of live (redis s) (server_time E s) b = Some (n, w) \<longrightarrow> limit E b \<le> nat n + used E s b w + d)"

lemma accounted_more: "accounted E live b w d s \<Longrightarrow> d \<le> d' \<Longrightarrow> accounted E live b w d' s"
  by (fastforce simp: accounted_def)

context redis_server
begin

lemma lease_result:
  assumes ok: "counters_ok live r t" and args: "lease_args t sz q ttl"
    and call: "lease_request ops Delivered r t b sz q ttl = (Inr (n, d, e), r')"
  shows "unat n \<le> unat sz \<and> (n = 0 \<longrightarrow> window_of live r t b = Some (0, sint e))"
proof -
  obtain k p x v where abs: "abs_lease t (uint sz) (uint q) (uint (as_secs ttl)) (window_of live r t b) = ((k, p, x), v)"
    by (metis prod_cases3 surj_pair)
  then have n: "n = word_of_int k" and e: "e = word_of_int x" using svc.lease_abs [OF ok args abs] call by auto
  have sz: "sz \<noteq> 0" and t: "0 \<le> t" using args by (auto simp: lease_args_def)
  show ?thesis
  proof (cases "window_of live r t b")
    case None
    then have "k = uint sz" using abs by (simp add: abs_lease_def)
    then show ?thesis using n sz by simp
  next
    case (Some mx)
    then obtain m x' where w: "window_of live r t b = Some (m, x')" by (cases mx) auto
    note bnd = svc.win_bounds [OF ok w]
    show ?thesis
    proof (cases "m \<le> 0")
      case True
      then have "m = 0" "k = 0" "x = x'" using bnd abs w by (simp_all add: abs_lease_def)
      moreover have "sint e = x'" using e bnd t \<open>x = x'\<close> by (simp add: sint_of_int_small)
      ultimately show ?thesis using n w by simp
    next
      case False
      then have k: "k = min m (uint sz)" using abs w by (simp add: abs_lease_def)
      moreover have "0 < uint sz" using sz uint_0_iff [of sz] uint_ge_0 [of sz] by linarith
      ultimately have "0 < k" "k \<le> uint sz" "k \<le> 2 ^ 53" using False bnd by auto
      then have "unat n = nat k" using n by (simp add: unat_word_of_int)
      then show ?thesis using \<open>0 < k\<close> \<open>k \<le> uint sz\<close> by (auto simp: nat_le_iff)
    qed
  qed
qed

lemma lease_fits:
  assumes "counters_ok live r t" and "lease_args t sz q ttl"
    and "lease_request ops Delivered r t b sz q ttl = (res, r')"
  shows "in_reply (Replied u res) w \<le> unat sz"
  using lease_result [OF assms(1,2), of b _ _ _ r'] assms(3) by (cases res) auto

text \<open>What a lease takes from a window is in the reply.\<close>
lemma lease_counts:
  assumes ok: "counters_ok live r t" and args: "lease_args t sz q ttl"
    and call: "lease_request ops Delivered r t b sz q ttl = (res, r')"
    and before: "\<And>n. window_of live r t b = Some (n, w) \<Longrightarrow> unat q \<le> nat n + m"
    and after: "window_of live r' t b = Some (n, w)"
  shows "unat q \<le> nat n + m + in_reply (Replied u res) w"
proof -
  obtain k pt e l where res: "res = Inr (word_of_int k, word_of_int pt, word_of_int e)"
    and win: "window_of live r' t = (window_of live r t)(b \<mapsto> (l, e))"
    and k: "0 \<le> k" "k \<le> 2 ^ 53" "t \<le> e" "e \<le> 2 ^ 53"
    and rem: "\<And>x. rem_in (Some (l, e)) x + (if x = e then nat k else 0) =
         rem_in (window_of live r t b) x + (if window_of live r t b = None \<and> x = e then unat q else 0)"
    and new: "\<And>j e'. window_of live r t b = Some (j, e') \<Longrightarrow> e' = e"
    by (rule svc.lease_accounts [OF ok args call]) (rule that)
  have "0 \<le> t" using args by (simp add: lease_args_def)
  then have "sint (word_of_int e :: i64) = e" using k by (intro sint_of_int_small) auto
  moreover have "unat (word_of_int k :: u64) = nat k" using k by (simp add: unat_word_of_int)
  moreover have "l = n" "e = w" using win after by auto
  ultimately have reply: "in_reply (Replied u res) w = nat k" using res by simp
  show ?thesis
  proof (cases "window_of live r t b")
    case None
    then show ?thesis using rem [of w] reply \<open>l = n\<close> \<open>e = w\<close> by simp
  next
    case (Some je)
    then obtain j where j: "window_of live r t b = Some (j, w)" using new \<open>e = w\<close> by (cases je) auto
    then show ?thesis using before [OF j] rem [of w] reply \<open>l = n\<close> \<open>e = w\<close> by simp
  qed
qed

lemma lease_elsewhere:
  assumes "counters_ok live r t" and "lease_args t sz q ttl"
    and "lease_request ops Delivered r t c sz q ttl = (res, r')" and "b \<noteq> c"
  shows "window_of live r' t b = window_of live r t b"
  by (rule svc.lease_accounts [OF assms(1-3)]) (use assms(4) in simp)

lemma accounted_serve:
  assumes bal: "balanced E live s" and E: "env_ok E" and wf: "well_formed E s"
    and task: "tasks s p = Some (Task i c (Leasing u))" and q: "spares E b w s (Serve p n) \<or> batch E b \<le> m"
    and acc: "accounted E live b w d s"
  shows "accounted E live b w (d + m) (step_serve E ops n p i c u s)"
proof (rule served_by [OF wf, of ops c n p i u])
  fix res r1 res' r'
  assume cd: "lease_call E ops Delivered s c = (res, r1)" and c': "lease_call E ops n s c = (res', r')"
    and step: "step_serve E ops n p i c u s = goto p i c (Replied u res') (s\<lparr>redis := r'\<rparr>)"
    and net: "r' = redis s \<and> isl res' \<or> r' = r1 \<and> (isl res' \<or> res' = res)"
  let ?t = "server_time E s"
  have ok: "counters_ok live (redis s) ?t" using bal by (simp add: balanced_def)
  note args = env_ok_lease_args [OF E wf]
  have p: "p < n_tasks E" using well_formed_task [OF wf task] by simp
  have used: "used E (step_serve E ops n p i c u s) b w =
      used E s b w + (if c = b then in_reply (Replied u res') w else 0)"
    using used_goto [OF p, of i c "Replied u res'" "s\<lparr>redis := r'\<rparr>" b w] task step by (cases "c = b") simp_all
  show ?thesis
  proof (cases "r' = redis s \<or> c \<noteq> b")
    case True
    then have "window_of live r' ?t b = window_of live (redis s) ?t b"
      using net lease_elsewhere [OF ok args cd] by auto
    then show ?thesis using accounted_more [OF acc, of "d + m"] used step by (fastforce simp: accounted_def)
  next
    case False
    then have r: "r' = r1" "c = b" using net by auto
    have "in_reply (Replied u res) w \<le> in_reply (Replied u res') w + m"
    proof (cases n)
      case Delivered
      then show ?thesis using cd c' by simp
    next
      case (Request_Lost e)
      then show ?thesis using c' False by (simp add: request_lost_stays)
    next
      case (Reply_Lost e)
      then have "batch E b \<le> m" using q task r(2) by (simp add: spares_def)
      then show ?thesis using lease_fits [OF ok args cd, of u w] r(2) by (simp add: batch_def)
    qed
    moreover have "limit E b \<le> nat k + (used E s b w + d) + in_reply (Replied u res) w"
      if "window_of live r1 ?t b = Some (k, w)" for k
      unfolding limit_def
      using cd r(2) acc that by (intro lease_counts [OF ok args]) (auto simp: accounted_def limit_def add.assoc)
    ultimately show ?thesis using step used r by (fastforce simp: accounted_def)
  qed
qed

text \<open>What comes back to its window is counted there.\<close>
lemma release_counts:
  assumes ok: "counters_ok live r t" and x: "0 \<le> sint x" "exact (sint x)"
    and room: "rem_in (window_of live r t b) (sint x) + unat toks \<le> 2 ^ 53"
    and before: "\<And>j. window_of live r t b = Some (j, w) \<Longrightarrow> q \<le> nat j + m"
    and after: "window_of live (snd (cache_release ops Delivered r t b toks x)) t b = Some (k, w)"
  shows "q + (if sint x = w then unat toks else 0) \<le> nat k + m"
proof -
  obtain released v where abs: "abs_release (uint toks) (sint x) (window_of live r t b) = (released, v)" by fastforce
  from svc.release_abs [OF ok x room abs] have "v = Some (k, w)" using after by auto
  then obtain j where j: "window_of live r t b = Some (j, w)" "k = (if w = sint x then j + uint toks else j)"
    using abs by (auto simp: abs_release_def split: option.splits if_splits)
  then have "0 \<le> j" using svc.win_bounds [OF ok] by blast
  then have "nat (j + uint toks) = nat j + unat toks" by (simp add: nat_add_distrib)
  then show ?thesis using before [OF j(1)] j(2) by (cases "sint x = w") simp_all
qed

lemma release_elsewhere:
  assumes "counters_ok live r t" and "0 \<le> sint x" and "exact (sint x)"
    and "rem_in (window_of live r t a) (sint x) + unat toks \<le> 2 ^ 53" and "b \<noteq> a"
  shows "window_of live (snd (cache_release ops Delivered r t a toks x)) t b = window_of live r t b"
proof -
  obtain released v where abs: "abs_release (uint toks) (sint x) (window_of live r t a) = (released, v)" by fastforce
  from svc.release_abs [OF assms(1-4) abs] show ?thesis using assms(5) by auto
qed

lemma accounted_return:
  assumes bal: "balanced E live s" and E: "env_ok E" and wf: "well_formed E s"
    and c: "cleaners s i = Returning l" "k < length l"
    and q: "spares E b w s (Return i k n) \<or> in_lots [l ! k] b w \<le> m"
    and acc: "accounted E live b w d s"
  shows "accounted E live b w (d + m) (step_return E ops n i k l s)"
proof -
  let ?t = "server_time E s" and ?c = "Returning (take k l @ drop (Suc k) l)"
  obtain a toks x r' where lot: "l ! k = (a, toks, x)" "toks \<noteq> 0"
    and step: "step_return E ops n i k l s = set_cleaner i ?c (s\<lparr>redis := r'\<rparr>)"
    and r': "r' = snd (cache_release ops n (redis s) ?t a toks x)"
    and used: "\<And>r b w. used E (set_cleaner i ?c (s\<lparr>redis := r\<rparr>)) b w +
       (if a = b \<and> sint x = w then unat toks else 0) = used E s b w"
    by (rule returned_by [OF wf c, of n]) (rule that)
  have ok: "counters_ok live (redis s) ?t" using bal by (simp add: balanced_def)
  have "unat toks \<le> used E s a (sint x)" using used [of "redis s" a "sint x"] by simp
  from return_fits [OF bal E wf this lot(2)]
  have x: "0 \<le> sint x" "exact (sint x)" "rem_in (window_of live (redis s) ?t a) (sint x) + unat toks \<le> 2 ^ 53"
    by auto
  show ?thesis
  proof (cases "(\<exists>e. n = Request_Lost e) \<or> a \<noteq> b")
    case True
    have "in_lots [l ! k] b w \<le> m \<or> a \<noteq> b" using q c(1) True by (auto simp: spares_def)
    then have "used E s b w \<le> used E (step_return E ops n i k l s) b w + m"
      using used [of r' b w] step lot(1) by (auto split: if_splits)
    moreover have "window_of live r' ?t b = window_of live (redis s) ?t b"
      using True r' release_elsewhere [OF ok x, of b] by (cases n) (auto simp: request_lost_stays reply_lost_runs)
    ultimately show ?thesis using acc step by (fastforce simp: accounted_def)
  next
    case False
    then have "r' = snd (cache_release ops Delivered (redis s) ?t b toks x)"
      using r' by (cases n) (auto simp: reply_lost_runs)
    moreover have "limit E b \<le> nat j + (used E s b w + d)"
      if "window_of live (redis s) ?t b = Some (j, w)" for j using acc that by (simp add: accounted_def)
    ultimately have "limit E b + (if sint x = w then unat toks else 0) \<le> nat z + (used E s b w + d)"
      if "window_of live r' ?t b = Some (z, w)" for z
      using release_counts [OF ok x(1,2), of b toks w] x(3) False that by blast
    then show ?thesis using step used [of r' b w] False by (fastforce simp: accounted_def split: if_splits)
  qed
qed

lemma accounted_other:
  assumes bal: "balanced E live s" and wf: "well_formed E s"
    and e: "fire E ops e s = Some t" and q: "quiet s e" and no: "\<forall>p n. e \<noteq> Serve p n" "\<forall>i k n. e \<noteq> Return i k n"
    and drop: "used E s b w \<le> used E t b w + m" and acc: "accounted E live b w d s"
  shows "accounted E live b w (d + m) t"
  unfolding accounted_def
proof (intro allI impI)
  fix n assume n: "window_of live (redis t) (server_time E t) b = Some (n, w)"
  have ok: "counters_ok live (redis s) (server_time E s)" using bal by (simp add: balanced_def)
  have step: "redis t = redis s" "server_time E s \<le> server_time E t"
    using quiet_step_used [OF wf e q no] by (auto intro: server_time_mono)
  have "window_of live (redis s) (server_time E s) b = Some (n, w)"
  proof (cases "window_of live (redis s) (server_time E s) b")
    case None
    then show ?thesis using svc.win_none [OF ok step(2)] n step(1) by simp
  next
    case (Some me)
    then show ?thesis using svc.win_time [OF ok step(2)] n step(1) by (cases me) force
  qed
  then have "limit E b \<le> nat n + used E s b w + d" using acc by (simp add: accounted_def)
  then show "limit E b \<le> nat n + used E t b w + (d + m)" using drop by simp
qed

lemma accounted_step:
  assumes bal: "balanced E live s" and E: "env_ok E" and wf: "well_formed E s"
    and e: "fire E ops e s = Some t" and q: "quiet s e" "spares E b w s e" and acc: "accounted E live b w d s"
  shows "accounted E live b w d t"
proof -
  have other: ?thesis if "\<forall>p n. e \<noteq> Serve p n" "\<forall>i k n. e \<noteq> Return i k n"
    using accounted_other [OF bal wf e q(1) that, of b w 0 d] used_spared [OF wf e q that] acc by simp
  show ?thesis
  proof (cases e)
    case Serve
    then show ?thesis using e q accounted_serve [OF bal E wf _ _ acc, of _ _ _ _ _ 0] by (auto simp: fire_iff)
  next
    case Return
    then show ?thesis using e q accounted_return [OF bal E wf _ _ _ acc, of _ _ _ _ 0] by (auto simp: fire_iff)
  qed (rule other; simp)+
qed

end

text \<open>
  The runs of the system in which no event drops a token of the window, and none spends from a bucket that
  a shutdown has come past.
\<close>
definition sparing_fire :: "env \<Rightarrow> 'r redis_ops \<Rightarrow> bucket_id \<Rightarrow> int \<Rightarrow> event \<Rightarrow> 'r sys \<Rightarrow> 'r sys option" where
  "sparing_fire E ops b w e s = (if quiet s e \<and> spares E b w s e then fire E ops e s else None)"

context deployment
begin

lemma booted_ok: "booted E live s \<Longrightarrow> well_formed E s \<and> balanced E live s"
  using accounts.reach_inv [OF reach_start] .

lemma accounted_run:
  assumes "run (sparing_fire E ops b w) es s = Some t" and "well_formed E s" and "balanced E live s"
    and "accounted E live b w d s"
  shows "balanced E live t \<and> accounted E live b w d t"
proof -
  let ?I = "\<lambda>s. well_formed E s \<and> balanced E live s \<and> accounted E live b w d s"
  have "?I t"
  proof (rule run_keeps [OF assms(1), of ?I])
    fix e u v
    assume "?I u" and "sparing_fire E ops b w e u = Some v"
    moreover from this have v: "fire E ops e u = Some v" "quiet u e" "spares E b w u e"
      by (auto simp: sparing_fire_def split: if_splits)
    ultimately show "?I v"
      using well_formed_step [OF _ v(1)] balanced_step [OF _ env _ v(1,2)] accounted_step [OF _ env _ v]
      by blast
  qed (use assms in simp)
  then show ?thesis by simp
qed

end

section \<open>Properties\<close>

text \<open>
  C5. No token goes missing: while a window that opened in the run lasts, the tokens in Redis, in
  local buckets that no shutdown has come past, in replies on their way, on their way back, and
  spent add up to exactly the quota, in every run of the whole system in which an instance
  neither spends from a bucket its shutdown has come past (\<open>quiet\<close>) nor refills one,
  and without the events that drop tokens of that window (\<open>spares\<close>): a lost reply to
  a lease, a request dropped with its reply in hand, a refill, removal or sweep of a bucket that
  still holds such tokens, a shutdown past an expired one, a release that does not arrive, a
  crash of an instance that holds some.
\<close>

theorem no_token_missing:
  assumes "redis_server ops live" and "env_ok E" and "booted E live s0"
    and "window_of live (redis s0) (server_time E s0) b = None"
    and "run (sparing_fire E ops b w) es s0 = Some s"
    and "window_of live (redis s) (server_time E s) b = Some (n, w)"
  shows "nat n + (\<Sum>i \<in> {i. i < n_insts E \<and> \<not> visited s i b}. in_bucket (buckets (stores s i) b) w) +
      (\<Sum>p<n_tasks E. in_task (tasks s p) b w) +
      (\<Sum>i<n_insts E. in_lots (lots (cleaners s i)) b w) + spent s b w =
    unat (quota (policy_for (conf E) b))"
proof -
  have dep: "deployment ops live E"
    using assms(1,2) by (simp add: deployment_def deployment_axioms_def)
  have start: "well_formed E s0 \<and> balanced E live s0"
    by (rule deployment.booted_ok [OF dep assms(3)])
  have "accounted E live b w 0 s0" using assms(4) by (simp add: accounted_def)
  then have run: "balanced E live s \<and> accounted E live b w 0 s"
    using deployment.accounted_run [OF dep assms(5)] start by blast
  then have "rem_in (window_of live (redis s) (server_time E s) b) w + used E s b w \<le> limit E b"
    by (simp add: balanced_def)
  then have "nat n + used E s b w \<le> limit E b" using assms(6) by simp
  moreover have "limit E b \<le> nat n + used E s b w" using run assms(6) by (simp add: accounted_def)
  ultimately show ?thesis by (simp add: used_eq limit_def)
qed

text \<open>Two of three tokens leased, one of them taken.\<close>

theorem no_token_missing_witness:
  "\<exists>s. run (sparing_fire sample_env mem_ops (Protected ''u'') 60000) sample_run (boot sample_env 0 (\<lambda>_. None)) =
     Some s \<and>
   1 + (\<Sum>i \<in> {i. i < 2 \<and> \<not> visited s i (Protected ''u'')}.
        in_bucket (buckets (stores s i) (Protected ''u'')) 60000) +
      (\<Sum>p<4. in_task (tasks s p) (Protected ''u'') 60000) +
      (\<Sum>i<2. in_lots (lots (cleaners s i)) (Protected ''u'') 60000) + spent s (Protected ''u'') 60000 = 3"
proof -
  let ?b = "Protected ''u''" and ?s0 = "boot sample_env 0 (\<lambda>_. None)"
  obtain s where s: "run (sparing_fire sample_env mem_ops ?b 60000) sample_run ?s0 = Some s"
    "window_of mem_live (redis s) (server_time sample_env s) ?b = Some (1, 60000)"
    by (simp add: sample_run_def sparing_fire_def spares_def quiet_def fire_eval sample_env_def small_config_def
        window_of_def)
  have "window_of mem_live (redis ?s0) (server_time sample_env ?s0) ?b = None"
    by (simp add: window_of_def mem_live_def boot_def)
  from no_token_missing [OF mem.redis_server_axioms sample_env_ok sample_booted this s]
  show ?thesis using s(1) by (auto simp: sample_env_def small_config_def)
qed

end
