(* ===== verification/Batches.thy ===== *)
theory Batches
  imports Conserve Flight
begin

text \<open>
  How many tokens of a window instances can keep from each other.
\<close>

section \<open>The tokens at one instance\<close>

text \<open>In the bucket of an instance, or on their way back from it.\<close>
definition kept :: "'r sys \<Rightarrow> nat \<Rightarrow> bucket_id \<Rightarrow> int \<Rightarrow> nat" where
  "kept s j b w = held (visited s j) (stores s j) b w + in_lots (lots (cleaners s j)) b w"

text \<open>In replies to its requests.\<close>
definition in_flight :: "env \<Rightarrow> 'r sys \<Rightarrow> nat \<Rightarrow> bucket_id \<Rightarrow> int \<Rightarrow> nat" where
  "in_flight E s j b w =
     (\<Sum>p<n_tasks E. case tasks s p of Some (Task i c k) \<Rightarrow> if i = j then in_task (tasks s p) b w else 0 | None \<Rightarrow> 0)"

lemma used_by_instance:
  assumes "well_formed E s"
  shows "used E s b w = (\<Sum>j<n_insts E. kept s j b w + in_flight E s j b w) + spent s b w"
proof -
  let ?at = "\<lambda>p j. case tasks s p of Some (Task i c k) \<Rightarrow> if i = j then in_task (tasks s p) b w else 0 | None \<Rightarrow> 0"
  have "in_task (tasks s p) b w = (\<Sum>j<n_insts E. ?at p j)" for p
  proof (cases "tasks s p")
    case (Some x)
    then obtain i c k where "tasks s p = Some (Task i c k)" by (cases x) auto
    then show ?thesis using well_formed_task [OF assms, of p i c k] by simp
  qed simp
  then have "(\<Sum>p<n_tasks E. in_task (tasks s p) b w) = (\<Sum>j<n_insts E. in_flight E s j b w)"
    unfolding in_flight_def by (subst sum.swap) simp
  then show ?thesis by (simp add: used_def kept_def sum.distrib)
qed

text \<open>A request that is leasing and has not yet made its bucket.\<close>
fun fetching :: "pc \<Rightarrow> bool" where
  "fetching Calling \<longleftrightarrow> True"
| "fetching (Leasing u) \<longleftrightarrow> True"
| "fetching (Replied u res) \<longleftrightarrow> True"
| "fetching _ \<longleftrightarrow> False"

lemma fetching_holds: "fetching k \<Longrightarrow> holds k"
  by (cases k) simp_all

lemma not_fetching: "\<not> fetching k \<Longrightarrow> in_reply k w = 0"
  by (cases k) simp_all

lemma only_fetcher:
  assumes "single_flight s" and "tasks s q = Some (Task j b k)" and "fetching k" and "q < n_tasks E"
  shows "in_flight E s j b w = in_reply k w"
proof -
  have "(case tasks s p of Some (Task i c k) \<Rightarrow> if i = j then in_task (tasks s p) b w else 0 | None \<Rightarrow> 0) =
      (if p = q then in_reply k w else 0)" for p
  proof (cases "tasks s p")
    case (Some x)
    then obtain i c l where p: "tasks s p = Some (Task i c l)" by (cases x) auto
    have "p = q" if "i = j" "c = b" "in_reply l w \<noteq> 0"
    proof -
      have "fetching l" using that(3) by (cases l) auto
      then have "holder s p j b" using p that(1,2) fetching_holds by (auto simp: holder_def)
      moreover have "holder s q j b" using assms(2) fetching_holds [OF assms(3)] by (auto simp: holder_def)
      ultimately show ?thesis using assms(1) unfolding single_flight_def by blast
    qed
    then show ?thesis using p assms(2) by (cases "p = q") auto
  qed (use assms(2) in auto)
  then show ?thesis using assms(4) by (simp add: in_flight_def)
qed

lemma no_fetcher:
  assumes "\<And>q k. tasks s q = Some (Task j b k) \<Longrightarrow> \<not> fetching k"
  shows "in_flight E s j b w = 0"
  using assms not_fetching by (auto simp: in_flight_def in_task_def split: option.split task.split)

section \<open>One batch at each instance\<close>

text \<open>No bucket, reply or returned lot holds more than one lease.\<close>
definition small :: "env \<Rightarrow> bucket_id \<Rightarrow> 'r sys \<Rightarrow> bool" where
  "small E b s \<longleftrightarrow>
     (\<forall>j x. buckets (stores s j) b = Some x \<longrightarrow> unat (tokens x) \<le> batch E b) \<and>
     (\<forall>j w. in_lots (lots (cleaners s j)) b w \<le> (if visited s j b then batch E b else 0)) \<and>
     (\<forall>p j k w. tasks s p = Some (Task j b k) \<longrightarrow> in_reply k w \<le> batch E b)"

lemma small_reply: "small E b s \<Longrightarrow> tasks s p = Some (Task j b k) \<Longrightarrow> in_reply k w \<le> batch E b"
  unfolding small_def by blast

lemma small_kept:
  assumes "small E b s"
  shows "kept s j b w \<le> batch E b"
proof -
  have "in_bucket (buckets (stores s j) b) w \<le> batch E b"
    using assms by (cases "buckets (stores s j) b") (auto simp: small_def)
  moreover have "in_lots (lots (cleaners s j)) b w \<le> (if visited s j b then batch E b else 0)"
    using assms by (simp add: small_def)
  ultimately show ?thesis by (auto simp: kept_def held_def split: if_splits)
qed

lemma small_flight:
  assumes "small E b s" and "single_flight s" and "well_formed E s"
  shows "in_flight E s j b w \<le> batch E b"
proof (cases "\<exists>q k. tasks s q = Some (Task j b k) \<and> fetching k")
  case True
  then obtain q k where q: "tasks s q = Some (Task j b k)" "fetching k" by blast
  then have "in_flight E s j b w = in_reply k w"
    using only_fetcher [OF assms(2) q] well_formed_task [OF assms(3) q(1)] by simp
  then show ?thesis using assms(1) q(1) by (auto simp: small_def)
next
  case False
  then show ?thesis using no_fetcher [of s j b E w] by auto
qed

text \<open>While a request fetches tokens of the window, its instance has none.\<close>
definition lone :: "bucket_id \<Rightarrow> int \<Rightarrow> 'r sys \<Rightarrow> bool" where
  "lone b w s \<longleftrightarrow> (\<forall>j p k. tasks s p = Some (Task j b k) \<longrightarrow> fetching k \<longrightarrow> kept s j b w = 0)"

lemma lone_bound:
  assumes "lone b w s" and "small E b s" and "single_flight s" and "well_formed E s"
  shows "kept s j b w + in_flight E s j b w \<le> batch E b"
proof (cases "\<exists>q k. tasks s q = Some (Task j b k) \<and> fetching k")
  case True
  then show ?thesis using assms(1) small_flight [OF assms(2-4), of j w] by (auto simp: lone_def)
next
  case False
  then show ?thesis using small_kept [OF assms(2)] no_fetcher [of s j b E w] by auto
qed

text \<open>
  An event that drops no token of the window, does not begin a refill of a bucket that holds some, and does
  not spend from a bucket that a shutdown has come past.
\<close>
definition orderly :: "env \<Rightarrow> bucket_id \<Rightarrow> int \<Rightarrow> 'r sys \<Rightarrow> event \<Rightarrow> bool" where
  "orderly E b w s e \<longleftrightarrow> quiet s e \<and> spares E b w s e \<and>
     (case e of
        Enter p \<Rightarrow>
          (case tasks s p of
             Some (Task i c k) \<Rightarrow> c = b \<longrightarrow> refills (stores s i) b = None \<longrightarrow> kept s i b w = 0
           | None \<Rightarrow> True)
      | _ \<Rightarrow> True)"

lemma in_bucket_spend:
  "in_bucket (buckets (stores (step_spend E p i c s) j) b) w \<le> in_bucket (buckets (stores s j) b) w"
proof -
  have "unat (n - 1) \<le> unat n" if "n \<noteq> 0" for n :: u64
    using unat_dec [of n] unat_pos_iff [of n] that by simp
  then show ?thesis
    by (auto simp: step_spend_def spend_def bucket_consume_eq is_empty_def split: option.split)
qed

lemma kept_le:
  assumes e: "fire E ops e s = Some t"
    and no: "\<And>p gap k. e = Reply p gap \<Longrightarrow> tasks s p \<noteq> Some (Task j b k)"
  shows "kept t j b w \<le> kept s j b w"
proof -
  have held: "kept t j b w \<le> kept s j b w" if "cleaners t = cleaners s" "visited t = visited s"
    "in_bucket (buckets (stores t j) b) w \<le> in_bucket (buckets (stores s j) b) w"
    using that by (simp add: kept_def held_def)
  show ?thesis
  proof (cases e)
    case (Reply p gap)
    then obtain i c u res where r: "tasks s p = Some (Task i c (Replied u res))" "t = step_reply E gap p i c u res s"
      using e by (auto simp: fire_iff)
    then have "(i, c) \<noteq> (j, b)" using no Reply by auto
    then show ?thesis using r(2) by (intro held) (simp_all add: steps_other_bucket)
  next
    case (Spend p)
    then obtain i c where "t = step_spend E p i c s" using e by (auto simp: fire_iff)
    then show ?thesis by (intro held) (simp_all add: in_bucket_spend)
  next
    case (Remove p) then show ?thesis using e
      by (auto simp: fire_iff step_remove_def remove_bucket_def kept_def held_def)
  next
    case (Visit i c)
    then obtain l x where "cleaners s i = Collecting l" "buckets (stores s i) c = Some x" "\<not> visited s i c"
      "t = step_visit E i c x l s" using e by (auto simp: fire_iff)
    then show ?thesis by (cases "j = i"; cases "b = c") (simp_all add: step_visit_def kept_def held_def)
  next
    case (Return i k n)
    then obtain l where l: "cleaners s i = Returning l" "k < length l" "t = step_return E ops n i k l s"
      using e by (auto simp: fire_iff)
    obtain d m x where "l ! k = (d, m, x)" by (cases "l ! k") auto
    with l in_lots_remove [OF l(2) this, of b w] show ?thesis
      by (auto simp: step_return_def kept_def)
  next
    case (Sweep i c) then show ?thesis using e by (auto simp: fire_iff remove_bucket_def kept_def held_def)
  next
    case (Crash i) then show ?thesis using e by (auto simp: fire_iff step_crash_def store_new_def kept_def held_def)
  qed (use e in \<open>auto simp: fire_iff kept_def held_def\<close>)
qed


context redis_server
begin

lemma serve_batch:
  assumes bal: "balanced E live s" and E: "env_ok E" and wf: "well_formed E s"
    and task: "tasks s p = Some (Task i b (Leasing u))"
    and t: "tasks (step_serve E ops n p i b u s) p = Some (Task i b k)"
  shows "in_reply k w \<le> batch E b"
proof (rule served_by [OF wf, of ops b n p i u])
  fix res r1 res' r'
  assume cd: "lease_call E ops Delivered s b = (res, r1)"
    and step: "step_serve E ops n p i b u s = goto p i b (Replied u res') (s\<lparr>redis := r'\<rparr>)"
    and net: "r' = redis s \<and> isl res' \<or> r' = r1 \<and> (isl res' \<or> res' = res)"
  have "counters_ok live (redis s) (server_time E s)" using bal by (simp add: balanced_def)
  from lease_fits [OF this env_ok_lease_args [OF E wf] cd] show ?thesis
    using step net t by (cases res') (auto simp: batch_def)
qed

lemma bucket_was:
  assumes e: "fire E ops e s = Some t" and x: "buckets (stores t j) b = Some x"
  shows "(\<exists>y. buckets (stores s j) b = Some y \<and> unat (tokens x) \<le> unat (tokens y)) \<or>
    (\<exists>p u d e'. tasks s p = Some (Task j b (Replied u (Inr (tokens x, d, e')))))"
proof (cases e)
  case (Reply p gap)
  then obtain i c u res where r: "tasks s p = Some (Task i c (Replied u res))" "t = step_reply E gap p i c u res s"
    using e by (auto simp: fire_iff)
  show ?thesis
  proof (cases "(i, c) = (j, b)")
    case True
    let ?s = "s\<lparr>clock := clock s + gap\<rparr>"
    obtain out st where ap: "apply_lease (local_time E ?s j) (stores s j) b
        (lease_answer u (local_time E s j) res) = (out, st)" by fastforce
    then have "buckets st b = Some x" using r(2) True x by (simp add: step_reply_def Let_def)
    then show ?thesis using ap r(1) True
      by (cases res) (auto simp: apply_lease_def lease_answer_def set_exhausted_def bucket_new_def
          split: option.splits if_splits)
  next
    case False
    then show ?thesis using x r(2) by (auto simp: steps_other_bucket)
  qed
next
  case (Spend p)
  then obtain i c where t: "t = step_spend E p i c s" using e by (auto simp: fire_iff)
  have "unat (n - 1) \<le> unat n" if "n \<noteq> 0" for n :: u64
    using unat_dec [of n] unat_pos_iff [of n] that by simp
  then show ?thesis using x unfolding t
    by (auto simp: step_spend_def spend_def bucket_consume_eq is_empty_def split: option.splits if_splits)
next
  case (Remove p) then show ?thesis using e x
    by (auto simp: fire_iff step_remove_def remove_bucket_def split: if_splits)
next
  case (Sweep i c) then show ?thesis using e x by (auto simp: fire_iff remove_bucket_def split: if_splits)
next
  case (Crash i) then show ?thesis using e x by (auto simp: fire_iff step_crash_def store_new_def split: if_splits)
qed (use e x in \<open>auto simp: fire_iff\<close>)

lemma lots_small:
  assumes "small E b s" and e: "fire E ops e s = Some t"
  shows "in_lots (lots (cleaners t j)) b w \<le> (if visited t j b then batch E b else 0)"
proof -
  have was: "in_lots (lots (cleaners s j)) b w \<le> (if visited s j b then batch E b else 0)"
    using assms(1) by (simp add: small_def)
  show ?thesis
  proof (cases "request_of e")
    case (Some p)
    then have "cleaners t = cleaners s" "visited t = visited s" using e by (cases e; auto simp: fire_iff)+
    then show ?thesis using was by simp
  next
    case None
    show ?thesis
    proof (cases e)
      case (Visit i c)
      then obtain l x where v: "cleaners s i = Collecting l" "buckets (stores s i) c = Some x" "\<not> visited s i c"
        "t = step_visit E i c x l s" using e by (auto simp: fire_iff)
      moreover have "c = b \<Longrightarrow> unat (tokens x) \<le> batch E b" using v(2) assms(1) by (auto simp: small_def)
      ultimately show ?thesis using was by (cases "j = i"; cases "c = b") (auto simp: step_visit_def)
    next
      case (Return i k n)
      then obtain l where l: "cleaners s i = Returning l" "k < length l" "t = step_return E ops n i k l s"
        using e by (auto simp: fire_iff)
      obtain d m x where "l ! k = (d, m, x)" by (cases "l ! k") auto
      with l in_lots_remove [OF l(2) this, of b w] was show ?thesis
        by (cases "j = i") (simp_all add: step_return_def)
    next
      case (Crash i) then show ?thesis using e was by (auto simp: fire_iff step_crash_def)
    qed (use e was None in \<open>auto simp: fire_iff\<close>)
  qed
qed

lemma small_step:
  assumes bal: "balanced E live s" and E: "env_ok E" and wf: "well_formed E s"
    and small: "small E b s" and e: "fire E ops e s = Some t"
  shows "small E b t"
proof -
  have bucket: "unat (tokens x) \<le> batch E b" if x: "buckets (stores t j) b = Some x" for j x
  proof -
    have "unat n \<le> batch E b" if "tasks s p = Some (Task j b (Replied u (Inr (n, d, e'))))" for p u n d e'
      using small_reply [OF small that, of "sint e'"] by simp
    moreover have "unat (tokens y) \<le> batch E b" if "buckets (stores s j) b = Some y" for y
      using small that by (auto simp: small_def)
    ultimately show ?thesis using bucket_was [OF e x] by (meson order_trans)
  qed
  have reply: "in_reply k w \<le> batch E b" if k: "tasks t p = Some (Task j b k)" for p j k w
  proof (cases "\<exists>u res. k = Replied u res")
    case False
    then show ?thesis by (cases k) auto
  next
    case True
    show ?thesis
    proof (cases "request_of e = Some p")
      case False
      then show ?thesis using task_was [OF k e False] True small_reply [OF small] by blast
    next
      case own: True
      show ?thesis
      proof (cases e)
        case (Serve q n)
        then obtain u where u: "tasks s p = Some (Task j b (Leasing u))" "t = step_serve E ops n p j b u s"
          using e own k own_tasks [OF e own] by (auto simp: fire_iff)
        then show ?thesis using serve_batch [OF bal E wf u(1)] k by simp
      next
        case (Reply q gap)
        then obtain i c u res where "t = step_reply E gap p i c u res s" using e own by (auto simp: fire_iff)
        then show ?thesis using k True by auto
      qed (use e own k True in \<open>auto simp: fire_iff split: sum.splits option.splits if_splits\<close>)
    qed
  qed
  show ?thesis using bucket lots_small [OF small e] reply by (simp add: small_def)
qed

lemma lone_step:
  assumes single: "single_flight s" and lone: "lone b w s" and e: "fire E ops e s = Some t"
    and o': "orderly E b w s e"
  shows "lone b w t"
  unfolding lone_def
proof (intro allI impI)
  fix j p k assume k: "tasks t p = Some (Task j b k)" "fetching k"
  have was: "kept s j b w = 0" if "tasks s p = Some (Task j b k)" "fetching k" for p k
    using lone that by (auto simp: lone_def)
  show "kept t j b w = 0"
  proof (cases "request_of e = Some p")
    case False
    have "k \<noteq> Checking" using k(2) by auto
    then have p: "tasks s p = Some (Task j b k)" using task_was [OF k(1) e False] by simp
    have "kept t j b w \<le> kept s j b w"
    proof (rule kept_le [OF e])
      fix q gap l assume q: "e = Reply q gap"
      show "tasks s q \<noteq> Some (Task j b l)"
      proof
        assume "tasks s q = Some (Task j b l)"
        then have "holder s q j b" using q e by (auto simp: fire_iff holder_def)
        moreover have "holder s p j b" using p fetching_holds [OF k(2)] by (auto simp: holder_def)
        ultimately have "q = p" using single unfolding single_flight_def by blast
        then show False using q False by simp
      qed
    qed
    then show ?thesis using was [OF p k(2)] by simp
  next
    case True
    have no: "e \<noteq> Reply p gap" for gap
    proof
      assume "e = Reply p gap"
      then obtain i c u res where "t = step_reply E gap p i c u res s" using e by (auto simp: fire_iff)
      then show False using k by auto
    qed
    have le: "kept t j b w \<le> kept s j b w"
      by (rule kept_le [OF e]) (use True no in auto)
    show ?thesis
    proof (cases e)
      case (Serve q n)
      then obtain u where u: "tasks s p = Some (Task j b (Leasing u))"
        using e True k own_tasks [OF e True] by (auto simp: fire_iff)
      then show ?thesis using was le by simp
    next
      case (Reply q gap)
      then show ?thesis using no [of gap] True by simp
    qed (use e True k le was o' in \<open>auto simp: fire_iff orderly_def split: sum.splits option.splits if_splits\<close>)
  qed
qed

end

section \<open>What an event can drop\<close>

lemma used_reply_drop:
  assumes wf: "well_formed E s" and small: "small E b s"
    and task: "tasks s p = Some (Task i c (Replied u res))"
  shows "used E s b w \<le> used E (step_reply E gap p i c u res s) b w + batch E b"
proof -
  have p: "p < n_tasks E" "i < n_insts E" using well_formed_task [OF wf task] by simp_all
  let ?s = "s\<lparr>clock := clock s + gap\<rparr>"
  obtain out st where ap: "apply_lease (local_time E ?s i) (stores s i) c
      (lease_answer u (local_time E s i) res) = (out, st)" by fastforce
  let ?r = "if c = b then in_reply (Replied u res) w else 0"
  have "used E (goto p i c (Unlocking out) (set_store i st ?s)) b w + ?r = used E (set_store i st ?s) b w"
    using used_goto [OF p(1), of i c "Unlocking out" "set_store i st ?s" b w] task
    by (cases "c = b") simp_all
  moreover have "used E (set_store i st ?s) b w + held (visited s i) (stores s i) b w =
      used E s b w + held (visited s i) st b w"
    using used_set_store [OF p(2), of st ?s b w] by simp
  moreover have "?r + held (visited s i) (stores s i) b w \<le> held (visited s i) st b w + batch E b"
  proof (cases "c = b")
    case False
    then show ?thesis using ap apply_lease_other [OF ap, of b] by (simp add: held_def)
  next
    case True
    have "?r \<le> batch E b" using small_reply [OF small] task True by simp
    moreover have "in_bucket (buckets (stores s i) b) w \<le> batch E b"
      using small by (cases "buckets (stores s i) b") (auto simp: small_def)
    ultimately show ?thesis using ap True
      by (cases res) (auto simp: apply_lease_def lease_answer_def set_exhausted_def bucket_new_def held_def
          split: option.splits if_splits)
  qed
  ultimately show ?thesis using ap by (simp add: step_reply_def Let_def)
qed

lemma used_crash_drop:
  assumes wf: "well_formed E s" and small: "small E b s" and single: "single_flight s" and i: "i < n_insts E"
  shows "used E s b w \<le> used E (step_crash E i s) b w + 2 * batch E b"
proof -
  let ?t = "step_crash E i s"
  let ?at = "\<lambda>s j. kept s j b w + in_flight E s j b w"
  have same: "?at ?t j = ?at s j" if "j \<noteq> i" for j
    using that by (auto simp: kept_def in_flight_def step_crash_def intro!: sum.cong split: option.split task.split)
  have "(\<Sum>j<n_insts E. ?at s j) = ?at s i + (\<Sum>j\<in>{..<n_insts E} - {i}. ?at s j)"
    using i by (subst sum.remove [of _ i]) auto
  also have "(\<Sum>j\<in>{..<n_insts E} - {i}. ?at s j) = (\<Sum>j\<in>{..<n_insts E} - {i}. ?at ?t j)"
    using same by (intro sum.cong) auto
  also have "\<dots> \<le> (\<Sum>j<n_insts E. ?at ?t j)"
    using i by (subst (2) sum.remove [of _ i]) auto
  finally have "(\<Sum>j<n_insts E. ?at s j) \<le> ?at s i + (\<Sum>j<n_insts E. ?at ?t j)" by simp
  moreover have "?at s i \<le> 2 * batch E b"
    using small_kept [OF small, of i w] small_flight [OF small single wf, of i w] by simp
  moreover have "spent ?t b w = spent s b w" by (simp add: step_crash_def)
  ultimately show ?thesis
    unfolding used_by_instance [OF wf] used_by_instance [OF well_formed_crash [OF wf]] by simp
qed

lemma used_sweep_drop:
  assumes c: "cleaners s i = Sweeping l" and wf: "well_formed E s"
  shows "used E s b w \<le> used E (set_cleaner i (Sweeping l') (set_store i (remove_bucket (stores s i) c) s)) b w +
    held (visited s i) (stores s i) b w"
proof -
  let ?s = "set_store i (remove_bucket (stores s i) c) s"
  have i: "i < n_insts E" using well_formed_cleaner [OF wf c] by simp
  have "used E (set_cleaner i (Sweeping l') ?s) b w = used E ?s b w"
    by (rule used_set_cleaner_eq [OF i]) (simp add: c)
  then show ?thesis using used_set_store [OF i, of "remove_bucket (stores s i) c" s b w] by simp
qed

lemma used_visit_drop:
  assumes c: "cleaners s i = Collecting l" and wf: "well_formed E s"
  shows "used E s b w \<le> used E (step_visit E i c x l s) b w + held (visited s i) (stores s i) b w"
proof -
  let ?s = "s\<lparr>visited := (visited s)(i := (visited s i)(c := True))\<rparr>"
  let ?c = "Collecting (if is_empty x \<or> is_expired (local_time E s i) x then l else l @ [(c, tokens x, window x)])"
  have i: "i < n_insts E" using well_formed_cleaner [OF wf assms(1)] by simp
  have "in_lots l b w \<le> in_lots (lots ?c) b w" by simp
  then have "used E ?s b w \<le> used E (step_visit E i c x l s) b w"
    using used_set_cleaner [OF i, of ?c ?s b w] assms(1) by (simp add: step_visit_def)
  then show ?thesis using used_visited [OF i, of s "(visited s i)(c := True)" b w] by simp
qed

text \<open>How many leases an event can cost the window.\<close>
definition cost :: "env \<Rightarrow> bucket_id \<Rightarrow> int \<Rightarrow> 'r sys \<Rightarrow> event \<Rightarrow> nat" where
  "cost E b w s e = (if spares E b w s e then 0 else case e of Crash i \<Rightarrow> 2 | _ \<Rightarrow> 1)"

lemma used_dropped:
  assumes wf: "well_formed E s" and small: "small E b s" and single: "single_flight s"
    and e: "fire E ops e s = Some t" and q: "quiet s e"
    and no: "\<forall>p n. e \<noteq> Serve p n" "\<forall>i k n. e \<noteq> Return i k n"
  shows "used E s b w \<le> used E t b w + batch E b * cost E b w s e"
proof (cases "spares E b w s e")
  case True
  then show ?thesis using used_spared [OF wf e q True no] by simp
next
  case False
  note kept = small_kept [OF small]
  note task = well_formed_task [OF wf]
  show ?thesis
  proof (cases e)
    case (Reply p gap)
    then show ?thesis using e False used_reply_drop [OF wf small] by (auto simp: fire_iff cost_def)
  next
    case (Cancel p)
    then obtain i c k where t: "tasks s p = Some (Task i c k)" "t = goto p i c Cancelled s"
      using e by (auto simp: fire_iff)
    have "in_task (tasks s p) b w \<le> batch E b" using small_reply [OF small] t(1) by auto
    then show ?thesis
      using used_goto [of p E i c Cancelled s b w] task [OF t(1)] t(2) False Cancel by (simp add: cost_def)
  next
    case (Remove p)
    then obtain i c where t: "tasks s p = Some (Task i c Removing)" "t = step_remove p i c s"
      using e by (auto simp: fire_iff)
    have "held (visited s i) (stores s i) b w \<le> batch E b" using kept [of i w] by (simp add: kept_def)
    then show ?thesis
      using used_moving(5) [of p E i c s b w] task [OF t(1)] t False Remove by (auto simp: cost_def split: if_splits)
  next
    case (Sweep i c)
    then obtain l where l: "cleaners s i = Sweeping l"
      "t = set_cleaner i (Sweeping (remove1 c l)) (set_store i (remove_bucket (stores s i) c) s)"
      using e by (auto simp: fire_iff)
    then show ?thesis using used_sweep_drop [OF l(1) wf, of b w "remove1 c l" c] kept [of i w] False Sweep
      by (simp add: cost_def kept_def)
  next
    case (Visit i c)
    then obtain l x where v: "cleaners s i = Collecting l" "t = step_visit E i c x l s" using e by (auto simp: fire_iff)
    then show ?thesis using used_visit_drop [OF v(1) wf, of b w c x] kept [of i w] False Visit
      by (simp add: cost_def kept_def)
  next
    case (Crash i)
    then show ?thesis using e False used_crash_drop [OF wf small single] by (auto simp: fire_iff cost_def mult.commute)
  qed (use False q no in \<open>simp_all add: spares_def\<close>)
qed


context redis_server
begin

lemma accounted_dropping:
  assumes bal: "balanced E live s" and E: "env_ok E" and wf: "well_formed E s"
    and small: "small E b s" and single: "single_flight s"
    and e: "fire E ops e s = Some t" and q: "quiet s e" and acc: "accounted E live b w d s"
  shows "accounted E live b w (d + batch E b * cost E b w s e) t"
proof -
  let ?m = "batch E b * cost E b w s e"
  have m: "spares E b w s e \<or> batch E b \<le> ?m" by (auto simp: cost_def split: event.split)
  show ?thesis
  proof (cases e)
    case (Serve p n)
    then show ?thesis using e m accounted_serve [OF bal E wf _ _ acc, of p _ _ _ n ?m] by (auto simp: fire_iff)
  next
    case (Return i k n)
    then obtain l where l: "cleaners s i = Returning l" "k < length l" "t = step_return E ops n i k l s"
      using e by (auto simp: fire_iff)
    obtain a x y where lot: "l ! k = (a, x, y)" by (cases "l ! k") auto
    have "in_lots [l ! k] b w \<le> in_lots (lots (cleaners s i)) b w"
      using in_lots_remove [OF l(2) lot, of b w] lot l(1) by simp
    also have "\<dots> \<le> batch E b" using small_kept [OF small, of i w] by (simp add: kept_def)
    finally have "spares E b w s (Return i k n) \<or> in_lots [l ! k] b w \<le> ?m" using m Return by (meson order_trans)
    then show ?thesis using accounted_return [OF bal E wf l(1,2) _ acc, of n ?m] l(3) by simp
  qed (rule accounted_other [OF bal wf e q _ _ used_dropped [OF wf small single e q] acc]; simp)+
qed

end

text \<open>The leases that the events of a run can cost the window.\<close>
fun run_cost :: "env \<Rightarrow> 'r redis_ops \<Rightarrow> bucket_id \<Rightarrow> int \<Rightarrow> event list \<Rightarrow> 'r sys \<Rightarrow> nat" where
  "run_cost E ops b w [] s = 0"
| "run_cost E ops b w (e # es) s =
     cost E b w s e + (case fire E ops e s of Some t \<Rightarrow> run_cost E ops b w es t | None \<Rightarrow> 0)"


definition orderly_fire :: "env \<Rightarrow> 'r redis_ops \<Rightarrow> bucket_id \<Rightarrow> int \<Rightarrow> event \<Rightarrow> 'r sys \<Rightarrow> 'r sys option" where
  "orderly_fire E ops b w e s = (if orderly E b w s e then fire E ops e s else None)"

text \<open>Redis refuses only when its window is empty, and then the rest is at the instances or spent.\<close>

lemma refused_window:
  assumes redis: "redis_server ops live" and E: "env_ok E" and wf: "well_formed E s" and bal: "balanced E live s"
    and e: "fire E ops (Serve p Delivered) s = Some t"
    and t: "tasks t p = Some (Task i b (Replied u (Inr (0, d, x))))" and w: "sint x = w"
  shows "tasks s p = Some (Task i b (Leasing u)) \<and> window_of live (redis s) (server_time E s) b = Some (0, w)"
proof -
  obtain j c u' where leasing: "tasks s p = Some (Task j c (Leasing u'))" "t = step_serve E ops Delivered p j c u' s"
    using e by (auto simp: fire_iff)
  obtain res r' where call: "lease_call E ops Delivered s c = (res, r')"
    and "step_serve E ops Delivered p j c u' s = goto p j c (Replied u' res) (s\<lparr>redis := r'\<rparr>)"
    by (rule served_by [OF wf, of ops c Delivered p j u']) auto
  then have same: "j = i" "c = b" "u' = u" "res = Inr (0, d, x)" using t leasing(2) by auto
  then show ?thesis
    using leasing(1) redis_server.lease_result [OF redis _ env_ok_lease_args [OF E wf]] bal w call
    by (auto simp: balanced_def)
qed

lemma refused_used:
  assumes wf: "well_formed E s" and single: "single_flight s"
    and acc: "accounted E live b w d s" and empty: "window_of live (redis s) (server_time E s) b = Some (0, w)"
    and p: "tasks s p = Some (Task i b (Leasing u))"
    and each: "\<And>j. kept s j b w + in_flight E s j b w \<le> m" and here: "kept s i b w \<le> m0"
  shows "limit E b \<le> spent s b w + ((n_insts E - 1) * m + m0) + d"
proof -
  let ?at = "\<lambda>j. kept s j b w + in_flight E s j b w"
  have i: "i \<in> {..<n_insts E}" "p < n_tasks E" using well_formed_task [OF wf p] by simp_all
  have "?at i \<le> m0" using only_fetcher [OF single p _ i(2)] here by simp
  moreover have "(\<Sum>j<n_insts E. ?at j) = ?at i + (\<Sum>j\<in>{..<n_insts E} - {i}. ?at j)"
    using i by (subst sum.remove [of _ i]) auto
  moreover have "(\<Sum>j\<in>{..<n_insts E} - {i}. ?at j) \<le> of_nat (card ({..<n_insts E} - {i})) * m"
    by (rule sum_bounded_above) (rule each)
  ultimately have "(\<Sum>j<n_insts E. ?at j) \<le> (n_insts E - 1) * m + m0" using i by simp
  moreover have "limit E b \<le> used E s b w + d" using acc empty by (simp add: accounted_def)
  ultimately show ?thesis using used_by_instance [OF wf, of b w] by simp
qed

context deployment
begin

lemma booted_small:
  assumes "booted E live s"
  shows "single_flight s \<and> small E b s \<and> lone b w s"
proof -
  obtain c r where "s = boot E c r" using assms by (auto simp: booted_def)
  then show ?thesis by (simp add: boot_def single_flight_def holder_def small_def lone_def store_new_def)
qed

lemma orderly_run:
  assumes "run (orderly_fire E ops b w) es s = Some t"
    and "booted E live s" and "window_of live (redis s) (server_time E s) b = None"
  shows "well_formed E t \<and> balanced E live t \<and> single_flight t \<and> small E b t \<and> lone b w t \<and> accounted E live b w 0 t"
    (is "?I t")
proof (rule run_keeps [OF assms(1), of ?I])
  show "?I s" using booted_ok [OF assms(2)] booted_small [OF assms(2)] assms(3) by (simp add: accounted_def)
next
  fix e u v
  assume u: "?I u" and "orderly_fire E ops b w e u = Some v"
  then have v: "fire E ops e u = Some v" "orderly E b w u e" "spares E b w u e" "quiet u e"
    by (auto simp: orderly_fire_def orderly_def split: if_splits)
  show "?I v"
    using u well_formed_step [OF _ v(1)] balanced_step [OF _ env _ v(1,4)] single_flight_step [OF _ v(1)]
      small_step [OF _ env _ _ v(1)] lone_step [OF _ _ v(1,2)] accounted_step [OF _ env _ v(1,4,3)] by blast
qed

lemma costly_run:
  "run (quiet_fire E ops) es s = Some t \<Longrightarrow>
   well_formed E s \<and> balanced E live s \<and> single_flight s \<and> small E b s \<and> accounted E live b w d s \<Longrightarrow>
   well_formed E t \<and> balanced E live t \<and> single_flight t \<and> small E b t \<and>
   accounted E live b w (d + batch E b * run_cost E ops b w es s) t"
proof (induction es arbitrary: s d)
  case (Cons e es)
  from Cons.prems(1) obtain v where "quiet_fire E ops e s = Some v" and rest: "run (quiet_fire E ops) es v = Some t"
    by (auto split: option.splits)
  then have v: "fire E ops e s = Some v" "quiet s e" by (auto simp: quiet_fire_def split: if_splits)
  have "well_formed E v \<and> balanced E live v \<and> single_flight v \<and> small E b v \<and>
      accounted E live b w (d + batch E b * cost E b w s e) v"
    using Cons.prems(2) well_formed_step [OF _ v(1)] balanced_step [OF _ env _ v] single_flight_step [OF _ v(1)]
      small_step [OF _ env _ _ v(1)] accounted_dropping [OF _ env _ _ _ v] by blast
  from Cons.IH [OF rest this] show ?case using v(1) by (simp add: algebra_simps)
qed simp

end

section \<open>Properties\<close>

text \<open>
  C6. How many tokens a client can be denied: when Redis answers a request for a lease with
  nothing, at least \<open>quota\<close> less \<open>lease_size\<close> for every other instance
  of the window's tokens have been spent, as the README says, in every run of the whole system
  (any instances, requests, skews and interleavings, shutdowns and failed calls included) with
  three provisos (\<open>orderly\<close>): no event drops a token of the window
  (\<open>spares\<close>); no instance spends from a bucket its shutdown has come past
  (\<open>quiet\<close>) or refills one; and no request begins a refill of a bucket that holds
  some of the tokens. The code does not ensure the last (\<open>stale_lease_exhausts\<close>,
  \<open>stale_refill_loses_tokens\<close>), nor that an instance that shuts down leaves its
  buckets alone (\<open>shutdown_spends_twice\<close>).
\<close>

theorem refusal_bound:
  assumes "redis_server ops live" and "env_ok E" and "booted E live s0"
    and "window_of live (redis s0) (server_time E s0) b = None"
    and "run (orderly_fire E ops b w) es s0 = Some s"
    and "fire E ops (Serve p Delivered) s = Some t"
    and "tasks t p = Some (Task i b (Replied u (Inr (0, d, e))))" and "sint e = w"
  shows "unat (quota (policy_for (conf E) b)) \<le>
    spent s b w + (n_insts E - 1) * unat (lease_size (policy_for (conf E) b))"
proof -
  have "deployment ops live E" using assms(1,2) by (simp add: deployment_def deployment_axioms_def)
  then have s: "well_formed E s" "balanced E live s" "single_flight s" "small E b s" "lone b w s"
    "accounted E live b w 0 s"
    using deployment.orderly_run [OF _ assms(5,3,4)] by auto
  note refused = refused_window [OF assms(1,2) s(1,2) assms(6-8)]
  then have "kept s i b w = 0" using s(5) by (auto simp: lone_def)
  then have "limit E b \<le> spent s b w + ((n_insts E - 1) * batch E b + 0) + 0"
    using refused lone_bound [OF s(5,4,3,1)] by (intro refused_used [OF s(1,3,6)]) auto
  then show ?thesis by (simp add: limit_def batch_def)
qed

text \<open>
  Two instances and a window of three: one instance leases two tokens and spends none, the other leases the
  third, spends it and asks again.
\<close>
definition refused_run :: "event list" where
  "refused_run = [Arrive 0 0 (Protected ''u''), Check 0, Enter 0, Call 0, Serve 0 Delivered, Reply 0 0,
     Arrive 1 1 (Protected ''u''), Check 1, Enter 1, Call 1, Serve 1 Delivered, Reply 1 0, Unlock 1, Notify 1,
     Spend 1, Arrive 2 1 (Protected ''u''), Check 2, Enter 2, Call 2]"

theorem refusal_bound_witness:
  "\<exists>s t u d e. run (orderly_fire sample_env mem_ops (Protected ''u'') 60000) refused_run
       (boot sample_env 0 (\<lambda>_. None)) = Some s \<and>
     fire sample_env mem_ops (Serve 2 Delivered) s = Some t \<and>
     tasks t 2 = Some (Task 1 (Protected ''u'') (Replied u (Inr (0, d, e)))) \<and>
     spent s (Protected ''u'') 60000 = 1 \<and> 3 \<le> 1 + (2 - 1) * (2 :: nat)"
proof -
  let ?b = "Protected ''u''" and ?s0 = "boot sample_env 0 (\<lambda>_. None)"
  obtain s t u d where s: "run (orderly_fire sample_env mem_ops ?b 60000) refused_run ?s0 = Some s"
    "fire sample_env mem_ops (Serve 2 Delivered) s = Some t"
    "tasks t 2 = Some (Task 1 ?b (Replied u (Inr (0, d, 60000))))" "spent s ?b 60000 = 1"
    by (simp add: refused_run_def orderly_fire_def orderly_def kept_def held_def in_bucket_def spares_def quiet_def
        fire_eval sample_env_def small_config_def bucket_new_def)
  have "window_of mem_live (redis ?s0) (server_time sample_env ?s0) ?b = None"
    by (simp add: window_of_def mem_live_def boot_def)
  from refusal_bound [OF mem.redis_server_axioms sample_env_ok sample_booted this s(1-3)] s(4)
  have "3 \<le> 1 + (2 - 1) * (2 :: nat)" by (simp add: sample_env_def small_config_def)
  then show ?thesis using s by blast
qed

text \<open>
  C7. The same with every proviso lifted but that of \<open>no_over_spend\<close>: in any run of
  the whole system (any instances, requests, skews and interleavings, shutdowns, crashes,
  cancellations, failed calls and lost replies, stale refills and late sweeps), when Redis
  answers a request for a lease with nothing, the tokens of the window have been spent but for
  one lease at the instance that asks, two at each other instance, and one for each event of the
  run that can drop some, two for a crash (\<open>cost\<close>). No other step denies a client
  any of its quota.
\<close>

theorem under_admission:
  assumes "redis_server ops live" and "env_ok E" and "booted E live s0"
    and "window_of live (redis s0) (server_time E s0) b = None"
    and "run (quiet_fire E ops) es s0 = Some s"
    and "fire E ops (Serve p Delivered) s = Some t"
    and "tasks t p = Some (Task i b (Replied u (Inr (0, d, e))))" and "sint e = w"
  shows "unat (quota (policy_for (conf E) b)) \<le> spent s b w +
    (2 * (n_insts E - 1) + 1 + run_cost E ops b w es s0) * unat (lease_size (policy_for (conf E) b))"
proof -
  have dep: "deployment ops live E" using assms(1,2) by (simp add: deployment_def deployment_axioms_def)
  have "well_formed E s0 \<and> balanced E live s0 \<and> single_flight s0 \<and> small E b s0 \<and> accounted E live b w 0 s0"
    using deployment.booted_ok [OF dep assms(3)] deployment.booted_small [OF dep assms(3)] assms(4)
    by (simp add: accounted_def)
  from deployment.costly_run [OF dep assms(5) this]
  have s: "well_formed E s" "balanced E live s" "single_flight s" "small E b s"
    "accounted E live b w (batch E b * run_cost E ops b w es s0) s" by simp_all
  have each: "kept s j b w + in_flight E s j b w \<le> 2 * batch E b" for j
    using small_kept [OF s(4), of j w] small_flight [OF s(4,3,1), of j w] by simp
  have "limit E b \<le> spent s b w + ((n_insts E - 1) * (2 * batch E b) + batch E b) +
      batch E b * run_cost E ops b w es s0"
    using refused_window [OF assms(1,2) s(1,2) assms(6-8)] each small_kept [OF s(4)]
    by (intro refused_used [OF s(1,3,5)]) auto
  then show ?thesis by (simp add: limit_def batch_def algebra_simps)
qed

text \<open>Here the first lease is granted in a reply that is lost; the other instance gets and spends the third token.\<close>
definition denied_run :: "event list" where
  "denied_run = [Arrive 0 0 (Protected ''u''), Check 0, Enter 0, Call 0, Serve 0 (Reply_Lost ''timed out''), Reply 0 0,
     Arrive 1 1 (Protected ''u''), Check 1, Enter 1, Call 1, Serve 1 Delivered, Reply 1 0, Unlock 1, Notify 1,
     Spend 1, Arrive 2 1 (Protected ''u''), Check 2, Enter 2, Call 2]"

theorem under_admission_witness:
  "\<exists>s t u d e. run (quiet_fire sample_env mem_ops) denied_run (boot sample_env 0 (\<lambda>_. None)) = Some s \<and>
     fire sample_env mem_ops (Serve 2 Delivered) s = Some t \<and>
     tasks t 2 = Some (Task 1 (Protected ''u'') (Replied u (Inr (0, d, e)))) \<and>
     spent s (Protected ''u'') 60000 = 1 \<and>
     3 \<le> 1 + (2 * (2 - 1) + 1 + run_cost sample_env mem_ops (Protected ''u'') 60000 denied_run
       (boot sample_env 0 (\<lambda>_. None))) * (2 :: nat)"
proof -
  let ?b = "Protected ''u''" and ?s0 = "boot sample_env 0 (\<lambda>_. None)"
  obtain s t u d where s: "run (quiet_fire sample_env mem_ops) denied_run ?s0 = Some s"
    "fire sample_env mem_ops (Serve 2 Delivered) s = Some t"
    "tasks t 2 = Some (Task 1 ?b (Replied u (Inr (0, d, 60000))))" "spent s ?b 60000 = 1"
    by (simp add: denied_run_def quiet_fire_def quiet_def fire_eval sample_env_def small_config_def bucket_new_def)
  have "window_of mem_live (redis ?s0) (server_time sample_env ?s0) ?b = None"
    by (simp add: window_of_def mem_live_def boot_def)
  from under_admission [OF mem.redis_server_axioms sample_env_ok sample_booted this s(1-3)] s(4)
  have "3 \<le> 1 + (2 * (2 - 1) + 1 + run_cost sample_env mem_ops ?b 60000 denied_run ?s0) * (2 :: nat)"
    by (simp add: sample_env_def small_config_def)
  then show ?thesis using s by blast
qed

end
