(* ===== verification/Cleaner.thy ===== *)
theory Cleaner
  imports Safety
begin

text \<open>
  The cleanup task of \<open>Store::new\<close> (\<open>crates/core/src/store.rs\<close>) as a function of what its \<open>select!\<close> loop
  receives: interval ticks, which remove the expired buckets, and the shutdown command, which
  returns unspent tokens. The order in which a \<open>DashMap\<close> iterates is an argument.
\<close>

section \<open>Data\<close>

text \<open>\<open>Command\<close> of \<open>integration.rs\<close>.\<close>
datatype command = Shutdown | CleanupComplete

definition CHUNK_SIZE :: nat where
  "CHUNK_SIZE = 2000"

text \<open>\<open>slice::chunks\<close>: consecutive pieces of \<open>n\<close> elements, the last one possibly shorter.\<close>
function chunks :: "nat \<Rightarrow> 'a list \<Rightarrow> 'a list list" where
  "chunks n xs = (if xs = [] \<or> n = 0 then [] else take n xs # chunks n (drop n xs))"
  by pat_completeness auto
termination
  by (relation "measure (\<lambda>(n, xs). length xs)") auto

declare chunks.simps [simp del]

lemma chunks_concat: "0 < n \<Longrightarrow> concat (chunks n xs) = xs"
  by (induction n xs rule: chunks.induct) (subst chunks.simps, simp)

lemma chunks_size: "c \<in> set (chunks n xs) \<Longrightarrow> c \<noteq> [] \<and> length c \<le> n"
proof (induction n xs rule: chunks.induct)
  case (1 n xs)
  then show ?case by (subst (asm) (2) chunks.simps) (auto split: if_splits)
qed

section \<open>Interval tick\<close>

definition expired_keys :: "instant \<Rightarrow> store \<Rightarrow> bucket_id list \<Rightarrow> bucket_id list" where
  "expired_keys now s order =
     filter (\<lambda>k. case buckets s k of Some x \<Rightarrow> is_expired now x | None \<Rightarrow> False) order"

text \<open>A task of the \<open>JoinSet\<close> removes the keys of a chunk.\<close>
definition remove_chunk :: "bucket_id list \<Rightarrow> store \<Rightarrow> store" where
  "remove_chunk c s = fold (\<lambda>k s. remove_bucket s k) c s"

definition on_tick :: "instant \<Rightarrow> bucket_id list \<Rightarrow> store \<Rightarrow> store" where
  "on_tick now order s =
     (if order = [] then s
      else (let keys = expired_keys now s order
            in (if keys = [] then s else fold remove_chunk (chunks CHUNK_SIZE keys) s)))"

section \<open>Shutdown\<close>

definition replenish :: "instant \<Rightarrow> store \<Rightarrow> bucket_id list \<Rightarrow> lot list" where
  "replenish now s order =
     map (\<lambda>k. case buckets s k of Some x \<Rightarrow> (k, tokens x, window x) | None \<Rightarrow> (k, 0, 0))
       (filter (\<lambda>k. case buckets s k of Some x \<Rightarrow> \<not> is_empty x \<and> \<not> is_expired now x | None \<Rightarrow> False)
         order)"

text \<open>The releases, each with what happens to it and when it reaches Redis; failures are logged.\<close>
fun release_lots :: "'r redis_ops \<Rightarrow> (net \<times> int) list \<Rightarrow> lot list \<Rightarrow> 'r \<Rightarrow> 'r" where
  "release_lots ops ((n, t) # outcomes) ((k, left, w) # ls) r =
     release_lots ops outcomes ls (snd (cache_release ops n r t k left w))"
| "release_lots ops _ _ r = r"

definition on_shutdown ::
    "'r redis_ops \<Rightarrow> instant \<Rightarrow> bucket_id list \<Rightarrow> (net \<times> int) list \<Rightarrow> store \<Rightarrow> 'r \<Rightarrow> 'r" where
  "on_shutdown ops now order outcomes s r =
     (if order = [] then r
      else (let ls = replenish now s order
            in (if ls = [] then r
                else release_lots ops outcomes (concat (chunks CHUNK_SIZE ls)) r)))"

section \<open>The loop\<close>

text \<open>
  What \<open>select!\<close> takes: a tick, or a received command, with the clock and the contents of the map then. A
  command other than \<open>Shutdown\<close> does not match the pattern, so the loop goes on.
\<close>
datatype input =
    Interval_tick instant "bucket_id list"
  | Received command instant "bucket_id list" "(net \<times> int) list"

text \<open>The store, Redis, and what the task sends when it is through.\<close>
fun cleanup_task :: "'r redis_ops \<Rightarrow> input list \<Rightarrow> store \<Rightarrow> 'r \<Rightarrow> store \<times> 'r \<times> command option" where
  "cleanup_task ops [] s r = (s, r, None)"
| "cleanup_task ops (Interval_tick now order # is) s r =
     cleanup_task ops is (on_tick now order s) r"
| "cleanup_task ops (Received Shutdown now order outcomes # is) s r =
     (s, on_shutdown ops now order outcomes s r, Some CleanupComplete)"
| "cleanup_task ops (Received CleanupComplete now order outcomes # is) s r = cleanup_task ops is s r"

section \<open>What a tick removes\<close>

lemma remove_chunk_buckets:
  "buckets (remove_chunk c s) k = (if k \<in> set c then None else buckets s k)"
  unfolding remove_chunk_def by (induction c arbitrary: s) (auto simp: remove_bucket_def)

lemma fold_remove_chunk_buckets:
  "buckets (fold remove_chunk cs s) k = (if k \<in> set (concat cs) then None else buckets s k)"
  by (induction cs arbitrary: s) (auto simp: remove_chunk_buckets)

lemma on_tick_buckets:
  assumes "set order = dom (buckets s)"
  shows "buckets (on_tick now order s) k =
    (case buckets s k of Some x \<Rightarrow> if is_expired now x then None else Some x | None \<Rightarrow> None)"
proof (cases "expired_keys now s order = []")
  case True
  then have "on_tick now order s = s" by (simp add: on_tick_def)
  moreover have "\<not> is_expired now x" if "buckets s k = Some x" for x
  proof
    assume "is_expired now x"
    then have "k \<in> set (expired_keys now s order)"
      using that assms domI [of "buckets s" k x] by (simp add: expired_keys_def)
    then show False using True by simp
  qed
  ultimately show ?thesis by (auto split: option.split)
next
  case False
  then have ne: "order \<noteq> []" by (auto simp: expired_keys_def)
  have "on_tick now order s = fold remove_chunk (chunks CHUNK_SIZE (expired_keys now s order)) s"
    using False ne by (simp add: on_tick_def Let_def)
  moreover have "k \<in> set (expired_keys now s order) \<longleftrightarrow> (\<exists>x. buckets s k = Some x \<and> is_expired now x)"
    using assms by (auto simp: expired_keys_def split: option.split)
  moreover have "0 < CHUNK_SIZE" by (simp add: CHUNK_SIZE_def)
  ultimately show ?thesis
    by (auto simp: fold_remove_chunk_buckets chunks_concat split: option.split)
qed

section \<open>What a shutdown gives back\<close>

text \<open>The tokens of the lots of a bucket that belong to window \<open>x\<close>.\<close>
definition lot_sum :: "bucket_id \<Rightarrow> int \<Rightarrow> lot list \<Rightarrow> nat" where
  "lot_sum b x ls = in_lots ls b x"

text \<open>What the bucket gives back to window \<open>x\<close>: its tokens, when it has not expired.\<close>
definition given_back :: "instant \<Rightarrow> store \<Rightarrow> bucket_id \<Rightarrow> int \<Rightarrow> nat" where
  "given_back now s b x =
     (case buckets s b of
        Some y \<Rightarrow> if is_expired now y then 0 else in_bucket (Some y) x
      | None \<Rightarrow> 0)"

lemma lot_sum_replenish:
  assumes "distinct order" and "b \<in> set order"
  shows "lot_sum b x (replenish now s order) = given_back now s b x"
proof -
  have other: "lot_sum b x (replenish now s ks) = 0" if "b \<notin> set ks" for ks
    using that by (induction ks) (auto simp: lot_sum_def replenish_def split: option.splits)
  show ?thesis using assms
  proof (induction order)
    case (Cons k ks)
    have "lot_sum b x (replenish now s (k # ks)) =
        (if k = b then given_back now s b x else 0) + lot_sum b x (replenish now s ks)"
      by (auto simp: lot_sum_def replenish_def given_back_def is_empty_def split: option.splits)
    then show ?case using Cons other [of ks] by auto
  qed simp
qed

lemma lot_sum_replenish_le:
  "distinct order \<Longrightarrow> lot_sum b x (replenish now s order) \<le> in_bucket (buckets s b) x"
proof (cases "b \<in> set order")
  case True
  then show "distinct order \<Longrightarrow> ?thesis"
    by (auto simp: lot_sum_replenish given_back_def split: option.split)
next
  case False
  then have "lot_sum b x (replenish now s order) = 0"
    by (induction order) (auto simp: lot_sum_def replenish_def split: option.splits)
  then show ?thesis by simp
qed

context redis_server
begin

lemma release_lots_delivered:
  assumes "counters_ok live r t" and "\<forall>(k, left, w)\<in>set ls. 0 \<le> sint w \<and> exact (sint w)"
    and "\<And>b x. rem_in (window_of live r t b) x + lot_sum b x ls \<le> 2 ^ 53"
  shows "counters_ok live (release_lots ops (map (\<lambda>_. (Delivered, t)) ls) ls r) t \<and>
    window_of live (release_lots ops (map (\<lambda>_. (Delivered, t)) ls) ls r) t b =
      (case window_of live r t b of
         None \<Rightarrow> None | Some (n, e) \<Rightarrow> Some (n + int (lot_sum b e ls), e))"
  using assms
proof (induction ls arbitrary: r)
  case Nil
  then show ?case by (simp add: lot_sum_def split: option.split prod.split)
next
  case (Cons lot ls)
  obtain k left w where lot: "lot = (k, left, w)" by (cases lot) auto
  let ?W = "window_of live r t"
  obtain released v where abs: "abs_release (uint left) (sint w) (?W k) = (released, v)" by fastforce
  have "rem_in (?W k) (sint w) + unat left \<le> 2 ^ 53"
    using Cons.prems(3) [of k "sint w"] by (simp add: lot_sum_def lot)
  moreover have "0 \<le> sint w" "exact (sint w)" using Cons.prems(2) lot by auto
  ultimately obtain r' where r': "cache_release ops Delivered r t k left w = (Inr released, r')"
    "counters_ok live r' t" "window_of live r' t = ?W(k := v)"
    using svc.release_abs [OF Cons.prems(1) _ _ _ abs] by blast
  have v: "v = (case ?W k of None \<Rightarrow> None
      | Some (n, e) \<Rightarrow> Some (n + int (lot_sum k e [lot]), e))"
    using abs by (auto simp: abs_release_def lot_sum_def lot split: option.split)
  have v_le: "rem_in v x \<le> rem_in (?W k) x + lot_sum k x [lot]" for x
    using abs_release_rem [OF abs, of x] by (auto simp: lot_sum_def lot split: if_splits)
  have room: "rem_in (window_of live r' t c) x + lot_sum c x ls \<le> 2 ^ 53" for c x
  proof -
    have "lot_sum c x (lot # ls) = lot_sum c x [lot] + lot_sum c x ls" by (simp add: lot_sum_def lot)
    moreover have "rem_in (window_of live r' t c) x \<le> rem_in (?W c) x + lot_sum c x [lot]"
      using v_le [of x] r'(3) by (cases "c = k") simp_all
    ultimately show ?thesis using Cons.prems(3) [of c x] by linarith
  qed
  from Cons.IH [OF r'(2) _ room] Cons.prems(2) have
    "counters_ok live (release_lots ops (map (\<lambda>_. (Delivered, t)) ls) ls r') t \<and>
     window_of live (release_lots ops (map (\<lambda>_. (Delivered, t)) ls) ls r') t b =
      (case window_of live r' t b of
         None \<Rightarrow> None | Some (n, e) \<Rightarrow> Some (n + int (lot_sum b e ls), e))" by simp
  moreover have "release_lots ops (map (\<lambda>_. (Delivered, t)) (lot # ls)) (lot # ls) r =
      release_lots ops (map (\<lambda>_. (Delivered, t)) ls) ls r'" using r'(1) lot by simp
  moreover have "(case window_of live r' t b of None \<Rightarrow> None
       | Some (n, e) \<Rightarrow> Some (n + int (lot_sum b e ls), e)) =
      (case ?W b of None \<Rightarrow> None | Some (n, e) \<Rightarrow> Some (n + int (lot_sum b e (lot # ls)), e))"
    using r'(3) v by (cases "b = k"; cases "?W b") (auto simp: lot_sum_def lot)
  ultimately show ?case by (simp only:)
qed

end

section \<open>Properties\<close>

text \<open>
  C26. A cleanup tick removes exactly the expired buckets, whatever the order of iteration and
  however the keys fall into chunks, and touches no refill entry.
\<close>

theorem tick_removes_expired:
  assumes "set order = dom (buckets s)"
  shows "buckets (on_tick now order s) k =
      (case buckets s k of Some x \<Rightarrow> if expires_at x \<le> now then None else Some x | None \<Rightarrow> None) \<and>
    refills (on_tick now order s) = refills s"
proof -
  have "refills (remove_chunk c s) = refills s" for c s
    unfolding remove_chunk_def by (induction c arbitrary: s) (auto simp: remove_bucket_def)
  then have "refills (fold remove_chunk cs s) = refills s" for cs by (induction cs arbitrary: s) auto
  then show ?thesis
    using on_tick_buckets [OF assms, of now k]
    by (simp add: is_expired_def on_tick_def Let_def split: option.splits if_splits)
qed

theorem tick_removes_expired_witness:
  "buckets (on_tick 75 [Protected ''jora'', Protected ''valera'']
     (store_add 0 (store_add 0 (store_new small_config) (Protected ''valera'') 3 50)
       (Protected ''jora'') 3 100)) (Protected ''valera'') = None"
  using tick_removes_expired [of "[Protected ''jora'', Protected ''valera'']"
      "store_add 0 (store_add 0 (store_new small_config) (Protected ''valera'') 3 50) (Protected ''jora'') 3 100"
      75 "Protected ''valera''"]
  by (auto simp: store_add_def store_new_def)

text \<open>
  C21. A shutdown whose calls all reach Redis gives back exactly what is unspent: for each
  unexpired bucket, the window it was leased from, if still current, grows by the tokens the
  bucket holds; a window that has ended or been replaced is left as it is.
\<close>

theorem shutdown_returns_unspent:
  assumes "redis_server ops live" and "counters_ok live r t"
    and "distinct order" and "set order = dom (buckets s)"
    and "\<forall>k x. buckets s k = Some x \<longrightarrow> 0 \<le> sint (window x) \<and> sint (window x) \<le> 2 ^ 53"
    and "\<forall>k w. rem_in (window_of live r t k) w + in_bucket (buckets s k) w \<le> 2 ^ 53"
    and "buckets s b = Some x" and "now < expires_at x"
  shows "window_of live (on_shutdown ops now order
      (map (\<lambda>_. (Delivered, t)) (replenish now s order)) s r) t b =
    (case window_of live r t b of
       None \<Rightarrow> None
     | Some (n, e) \<Rightarrow> Some (n + (if sint (window x) = e then int (unat (tokens x)) else 0), e))"
proof -
  let ?ls = "replenish now s order"
  have shut: "on_shutdown ops now order (map (\<lambda>_. (Delivered, t)) ?ls) s r =
      release_lots ops (map (\<lambda>_. (Delivered, t)) ?ls) ?ls r"
    by (auto simp: on_shutdown_def Let_def replenish_def chunks_concat CHUNK_SIZE_def)
  have lots: "\<forall>(k, left, w)\<in>set ?ls. 0 \<le> sint w \<and> exact (sint w)"
    using assms(5) by (auto simp: replenish_def intro!: exactI split: option.splits)
  have room: "rem_in (window_of live r t c) w + lot_sum c w ?ls \<le> 2 ^ 53" for c w
    using assms(6) lot_sum_replenish_le [OF assms(3), of c w now s] by (meson add_le_mono le_refl order_trans)
  have "b \<in> set order" using assms(4,7) by auto
  then have "lot_sum b e ?ls = (if sint (window x) = e then unat (tokens x) else 0)" for e
    using assms(7,8) lot_sum_replenish [OF assms(3)] by (simp add: given_back_def is_expired_def)
  then show ?thesis
    using redis_server.release_lots_delivered [OF assms(1,2) lots room, of b] shut
    by (auto split: option.splits)
qed

theorem shutdown_returns_unspent_witness:
  "window_of mem_live (on_shutdown mem_ops 5 [Protected ''u''] [(Delivered, 0)]
      ((store_new small_config)\<lparr>buckets := [Protected ''u'' \<mapsto> bucket_new 0 2 50 60000]\<rparr>)
      [''sub:u'' \<mapsto> (show_int 1, Some 60000)]) 0 (Protected ''u'') = Some (3, 60000)"
proof -
  let ?s = "(store_new small_config)\<lparr>buckets := [Protected ''u'' \<mapsto> bucket_new 0 2 50 60000]\<rparr>"
  let ?r = "[''sub:u'' \<mapsto> (show_int 1, Some 60000)] :: mem"
  have key: "to_key k = ''sub:u'' \<longleftrightarrow> k = Protected ''u''" for k
    using to_key_inject [of k "Protected ''u''"] by simp
  have ok: "counters_ok mem_live ?r 0" by (auto simp: counters_ok_def mem_live_def)
  have win: "window_of mem_live ?r 0 k = (if k = Protected ''u'' then Some (1, 60000) else None)" for k
    by (simp add: window_of_def mem_live_def key)
  have sel: "replenish 5 ?s [Protected ''u''] = [(Protected ''u'', 2, 60000)]"
    by (simp add: replenish_def is_empty_def is_expired_def)
  show ?thesis
    using shutdown_returns_unspent [OF mem.redis_server_axioms ok, of "[Protected ''u'']" ?s
        "Protected ''u''" "bucket_new 0 2 50 60000" 5] win
    unfolding sel by (auto split: if_splits)
qed

end
