(* ===== verification/Shutdown.thy ===== *)
theory Shutdown
  imports Cleaner Races Conserve
begin

text \<open>
  A shutdown in the system: however its steps are interleaved with the rest, a bucket that nobody uses
  meanwhile gives back to its window what it holds, once. The tokens stay in the bucket, though, and who uses
  it afterwards spends them a second time.
\<close>

section \<open>What a shutdown does to the window of a bucket\<close>

fun stopping :: "cleaner \<Rightarrow> bool" where
  "stopping (Collecting l) \<longleftrightarrow> True"
| "stopping (Returning l) \<longleftrightarrow> True"
| "stopping Complete \<longleftrightarrow> True"
| "stopping _ \<longleftrightarrow> False"

text \<open>
  The event is no step of a request for the bucket, no crash of the instance, and no return of tokens of the
  bucket but a delivered one by this instance.
\<close>
definition apart :: "nat \<Rightarrow> bucket_id \<Rightarrow> 'r sys \<Rightarrow> event \<Rightarrow> bool" where
  "apart i b s e \<longleftrightarrow>
     (\<forall>p j k. request_of e = Some p \<longrightarrow> tasks s p \<noteq> Some (Task j b k)) \<and> e \<noteq> Crash i \<and>
     (\<forall>j k n l. e = Return j k n \<longrightarrow> cleaners s j = Returning l \<longrightarrow> fst (l ! k) = b \<longrightarrow> j = i \<and> n = Delivered)"

definition apart_fire :: "env \<Rightarrow> 'r redis_ops \<Rightarrow> nat \<Rightarrow> bucket_id \<Rightarrow> event \<Rightarrow> 'r sys \<Rightarrow> 'r sys option" where
  "apart_fire E ops i b e s = (if quiet s e \<and> apart i b s e then fire E ops e s else None)"

text \<open>By time \<open>t\<close> the window has got \<open>d\<close> more tokens, unless it has ended.\<close>
definition grown :: "win \<Rightarrow> int \<Rightarrow> (int \<Rightarrow> nat) \<Rightarrow> win \<Rightarrow> bool" where
  "grown w0 t d w \<longleftrightarrow>
     (case w0 of
        None \<Rightarrow> w = None
      | Some (n, e) \<Rightarrow> w = Some (n + int (d e), e) \<or> e \<le> t \<and> w = None)"

lemma grown_release:
  "grown w0 t d w \<Longrightarrow> abs_release (uint toks) x w = (released, w') \<Longrightarrow>
   grown w0 t (\<lambda>y. d y + (if x = y then unat toks else 0)) w'"
  by (auto simp: grown_def abs_release_def split: option.splits if_splits)

lemma grown_eq:
  assumes "grown w0 t d w" and "\<And>y. d y = d' y"
  shows "grown w0 t d' w"
proof -
  have "d = d'" by (rule ext) (rule assms(2))
  then show ?thesis using assms(1) by simp
qed

text \<open>What the shutdown owes the window \<open>w\<close>: what it has collected from the bucket less what it has still to return.\<close>
definition paid :: "nat \<Rightarrow> bucket_id \<Rightarrow> (int \<Rightarrow> nat) \<Rightarrow> 'r sys \<Rightarrow> int \<Rightarrow> nat" where
  "paid i b f s w = (if visited s i b then f w else 0) - in_lots (lots (cleaners s i)) b w"

definition owing :: "nat \<Rightarrow> bucket_id \<Rightarrow> (int \<Rightarrow> nat) \<Rightarrow> 'r sys \<Rightarrow> bool" where
  "owing i b f s \<longleftrightarrow> (\<forall>w. in_lots (lots (cleaners s i)) b w \<le> (if visited s i b then f w else 0))"

text \<open>What the bucket gives, if it expires neither before it is visited nor between the start and then.\<close>
definition gives :: "env \<Rightarrow> nat \<Rightarrow> bucket \<Rightarrow> 'r sys \<Rightarrow> int \<Rightarrow> nat" where
  "gives E i x s w = (if is_expired (local_time E s i) x then 0 else in_bucket (Some x) w)"

lemma clock_step: "fire E ops e s = Some t \<Longrightarrow> clock s \<le> clock t"
  by (cases e) (auto simp: fire_iff step_check_def step_enter_def step_serve_def step_reply_def step_unlock_def
      step_notify_def step_spend_def step_remove_def step_visit_def step_return_def step_crash_def Let_def
      split: sum.split bool.split prod.split)

lemma apart_clock: "run (apart_fire E ops i b) es s = Some t \<Longrightarrow> clock s \<le> clock t"
proof (induction es arbitrary: s)
  case (Cons e es)
  then obtain u where v: "apart_fire E ops i b e s = Some u" "run (apart_fire E ops i b) es u = Some t"
    by (auto split: option.splits)
  then have u: "fire E ops e s = Some u" "run (apart_fire E ops i b) es u = Some t"
    by (auto simp: apart_fire_def split: if_splits)
  then show ?case using clock_step [OF u(1)] Cons.IH [OF u(2)] by simp
qed simp

text \<open>The bucket, its window and what the shutdown owes it, while nobody else has to do with them.\<close>

definition in_order ::
    "env \<Rightarrow> ('r \<Rightarrow> int \<Rightarrow> string \<Rightarrow> (string \<times> int option) option) \<Rightarrow> nat \<Rightarrow> bucket_id \<Rightarrow> bucket \<Rightarrow> (int \<Rightarrow> nat) \<Rightarrow> win \<Rightarrow> 'r sys \<Rightarrow> bool" where
  "in_order E live i b x f w0 s \<longleftrightarrow> owing i b f s \<and>
     grown w0 (server_time E s) (paid i b f s) (window_of live (redis s) (server_time E s) b)"

lemma in_lots_single [simp]: "in_lots [(c, n, x)] b w = (if c = b \<and> sint x = w then unat n else 0)"
  by simp

lemma local_time_le: "clock s \<le> clock t \<Longrightarrow> local_time E s i \<le> local_time E t i"
  by (simp add: local_time_def)

lemma apart_bucket:
  assumes e: "fire E ops e s = Some t" and a: "apart i b s e" and c: "stopping (cleaners s i)"
  shows "buckets (stores t i) b = buckets (stores s i) b \<and> stopping (cleaners t i)"
proof -
  have "stopping (cleaners t i)"
    using e a c by (cases e) (auto simp: fire_iff apart_def step_visit_def step_return_def step_crash_def split: prod.split)
  moreover have "buckets (stores t i) b = buckets (stores s i) b"
  proof (cases "request_of e")
    case None
    then show ?thesis using e a c
      by (cases e) (auto simp: fire_iff apart_def step_crash_def remove_bucket_def)
  next
    case (Some p)
    obtain j d k l where p: "tasks s p = Some (Task j d k)" using own_tasks [OF e Some] by blast
    then have "d \<noteq> b" using a Some unfolding apart_def by blast
    then show ?thesis using requests_are_isolated [OF e Some p] by simp
  qed
  ultimately show ?thesis by simp
qed

text \<open>Only a visit of the bucket and the return of one of its lots change what is owed.\<close>
lemma apart_owing:
  assumes e: "fire E ops e s = Some t" and a: "apart i b s e" and c: "stopping (cleaners s i)"
    and x: "buckets (stores s i) b = Some x" and f: "f = gives E i x s" and o: "owing i b f s"
    and no: "\<And>k n l. e = Return i k n \<Longrightarrow> cleaners s i = Returning l \<Longrightarrow> fst (l ! k) \<noteq> b"
  shows "owing i b f t \<and> paid i b f t w = paid i b f s w"
proof -
  have same: ?thesis if "lots (cleaners t i) = lots (cleaners s i)" "visited t i b = visited s i b"
    using o that by (simp add: owing_def paid_def)
  show ?thesis
  proof (cases e)
    case (Visit j d)
    then obtain l y where v: "cleaners s j = Collecting l" "buckets (stores s j) d = Some y" "\<not> visited s j d"
      "t = step_visit E j d y l s" using e by (auto simp: fire_iff)
    show ?thesis
    proof (cases "j = i \<and> d = b")
      case True
      then have "y = x" using v(2) x by simp
      have none: "in_lots l b w = 0" for w using o v(1,3) True by (auto simp: owing_def)
      have "lots (cleaners t i) = (if is_empty x \<or> is_expired (local_time E s i) x then l else l @ [(b, tokens x, window x)])"
        "visited t i b" using v(4) True \<open>y = x\<close> by (simp_all add: step_visit_def)
      then have "in_lots (lots (cleaners t i)) b w = f w" for w
        using none f by (auto simp: gives_def is_empty_def)
      moreover have "paid i b f s w = 0" using v(3) True by (simp add: paid_def)
      ultimately show ?thesis using \<open>visited t i b\<close> by (simp add: owing_def paid_def)
    next
      case False
      have l: "in_lots (lots (cleaners t i)) b w = in_lots (lots (cleaners s i)) b w" for w
        using v(1,4) False by (auto simp: step_visit_def)
      moreover have "visited t i b = visited s i b" using v(4) False by (auto simp: step_visit_def)
      ultimately show ?thesis using o unfolding owing_def paid_def l by simp
    qed
  next
    case (Return j k n)
    then obtain l where r: "cleaners s j = Returning l" "k < length l" "t = step_return E ops n j k l s"
      using e by (auto simp: fire_iff)
    obtain d y z where lot: "l ! k = (d, y, z)" by (cases "l ! k") auto
    have "in_lots (lots (cleaners t i)) b w = in_lots (lots (cleaners s i)) b w" for w
    proof (cases "j = i")
      case True
      then have "d \<noteq> b" using no Return r(1) lot by force
      then show ?thesis using in_lots_remove [OF r(2) lot, of b w] r True lot by (simp add: step_return_def)
    qed (use r lot in \<open>simp add: step_return_def\<close>)
    moreover have "visited t i b = visited s i b" using r(3) lot by (simp add: step_return_def)
    ultimately show ?thesis using o unfolding owing_def paid_def by simp
  qed (rule same; use e a c in \<open>auto simp: fire_iff apart_def step_crash_def\<close>)+
qed

context redis_server
begin

lemma grown_time:
  assumes "counters_ok live r t" and "t \<le> t'" and "grown w0 t d (window_of live r t b)"
  shows "grown w0 t' d (window_of live r t' b)"
proof (cases "window_of live r t b")
  case None
  then show ?thesis using assms svc.win_none [OF assms(1,2) None] by (auto simp: grown_def split: option.splits)
next
  case (Some ne)
  then obtain n e where "window_of live r t b = Some (n, e)" by (cases ne) auto
  then show ?thesis using assms(3) svc.win_time [OF assms(1,2)] by (fastforce simp: grown_def split: option.splits)
qed

text \<open>A step that returns no lot of the bucket leaves its window alone.\<close>

lemma apart_window:
  assumes bal: "balanced E live s" and E: "env_ok E" and wf: "well_formed E s"
    and e: "fire E ops e s = Some t" and q: "quiet s e" and a: "apart i b s e"
    and no: "\<And>k n l. e = Return i k n \<Longrightarrow> cleaners s i = Returning l \<Longrightarrow> fst (l ! k) \<noteq> b"
    and g: "grown w0 (server_time E s) d (window_of live (redis s) (server_time E s) b)"
  shows "grown w0 (server_time E t) d (window_of live (redis t) (server_time E t) b)"
proof -
  have ok: "counters_ok live (redis s) (server_time E s)" using bal by (simp add: balanced_def)
  have other: ?thesis if "\<forall>p n. e \<noteq> Serve p n" "\<forall>i k n. e \<noteq> Return i k n"
  proof -
    have "redis t = redis s" "server_time E s \<le> server_time E t"
      using quiet_step_used [OF wf e q that] by (auto intro: server_time_mono)
    then show ?thesis using grown_time [OF ok _ g] by simp
  qed
  show ?thesis
  proof (cases e)
    case (Serve p n)
    then obtain j c u where p: "tasks s p = Some (Task j c (Leasing u))" "t = step_serve E ops n p j c u s"
      using e by (auto simp: fire_iff)
    then have "b \<noteq> c" using a Serve by (auto simp: apart_def)
    show ?thesis
    proof (rule served_by [OF wf, of ops c n p j u])
      fix res r1 res' r'
      assume cd: "lease_call E ops Delivered s c = (res, r1)"
        and step: "step_serve E ops n p j c u s = goto p j c (Replied u res') (s\<lparr>redis := r'\<rparr>)"
        and "r' = redis s \<and> isl res' \<or> r' = r1 \<and> (isl res' \<or> res' = res)"
      then have "window_of live r' (server_time E s) b = window_of live (redis s) (server_time E s) b"
        using lease_elsewhere [OF ok env_ok_lease_args [OF E wf] cd \<open>b \<noteq> c\<close>] by auto
      then show ?thesis using g p(2) step by simp
    qed
  next
    case (Return j k n)
    then obtain l where r: "cleaners s j = Returning l" "k < length l" "t = step_return E ops n j k l s"
      using e by (auto simp: fire_iff)
    obtain c toks x r' where lot: "l ! k = (c, toks, x)" "toks \<noteq> 0"
      and step: "step_return E ops n j k l s = set_cleaner j (Returning (take k l @ drop (Suc k) l)) (s\<lparr>redis := r'\<rparr>)"
      and r': "r' = snd (cache_release ops n (redis s) (server_time E s) c toks x)"
      and used: "\<And>r d w. used E (set_cleaner j (Returning (take k l @ drop (Suc k) l)) (s\<lparr>redis := r\<rparr>)) d w +
         (if c = d \<and> sint x = w then unat toks else 0) = used E s d w"
      by (rule returned_by [OF wf r(1,2), of n]) (rule that)
    have "c \<noteq> b"
    proof
      assume b: "c = b"
      then have "j = i" using a Return r(1) lot(1) unfolding apart_def by force
      then show False using no [of k n l] Return r(1) lot(1) b by simp
    qed
    have "unat toks \<le> used E s c (sint x)" using used [of "redis s" c "sint x"] by simp
    from return_fits [OF bal E wf this lot(2)]
    have "window_of live (snd (cache_release ops Delivered (redis s) (server_time E s) c toks x)) (server_time E s) b =
        window_of live (redis s) (server_time E s) b"
      using release_elsewhere [OF ok, of x c toks b] \<open>c \<noteq> b\<close> by simp
    then have "window_of live r' (server_time E s) b = window_of live (redis s) (server_time E s) b"
      using cache_release_net [of ops n "redis s" "server_time E s" c toks x] r' by auto
    then show ?thesis using g r(3) step by simp
  qed (rule other; simp)+
qed

text \<open>The return of a lot of the bucket.\<close>

lemma own_return:
  assumes bal: "balanced E live s" and E: "env_ok E" and wf: "well_formed E s"
    and r: "cleaners s i = Returning l" "k < length l" "fst (l ! k) = b" and o: "owing i b f s"
    and g: "grown w0 (server_time E s) (paid i b f s) (window_of live (redis s) (server_time E s) b)"
    and t: "t = step_return E ops Delivered i k l s"
  shows "owing i b f t \<and> grown w0 (server_time E t) (paid i b f t) (window_of live (redis t) (server_time E t) b)"
proof -
  let ?t = "server_time E s" and ?c = "Returning (take k l @ drop (Suc k) l)"
  obtain c toks x r' where lot: "l ! k = (c, toks, x)" "toks \<noteq> 0"
    and step: "step_return E ops Delivered i k l s = set_cleaner i ?c (s\<lparr>redis := r'\<rparr>)"
    and r': "r' = snd (cache_release ops Delivered (redis s) ?t c toks x)"
    and used: "\<And>r d w. used E (set_cleaner i ?c (s\<lparr>redis := r\<rparr>)) d w +
         (if c = d \<and> sint x = w then unat toks else 0) = used E s d w"
    by (rule returned_by [OF wf r(1,2), of Delivered]) (rule that)
  have c: "c = b" using r(3) lot(1) by simp
  have ok: "counters_ok live (redis s) ?t" using bal by (simp add: balanced_def)
  have "unat toks \<le> used E s c (sint x)" using used [of "redis s" c "sint x"] by simp
  note fits = return_fits [OF bal E wf this lot(2)]
  obtain released v where abs: "abs_release (uint toks) (sint x) (window_of live (redis s) ?t b) = (released, v)"
    by fastforce
  then have "window_of live r' ?t b = v" using svc.release_abs [OF ok _ _ _ abs] fits r' c by auto
  then have grown: "grown w0 ?t (\<lambda>y. paid i b f s y + (if sint x = y then unat toks else 0)) (window_of live r' ?t b)"
    using grown_release [OF g abs] by simp
  have l: "in_lots (lots (cleaners t i)) b w + (if sint x = w then unat toks else 0) =
      in_lots (lots (cleaners s i)) b w" for w
    using in_lots_remove [OF r(2) lot(1), of b w] r(1) c t step by simp
  have v: "visited t = visited s" using t step by simp
  have owed: "in_lots (lots (cleaners s i)) b w \<le> (if visited s i b then f w else 0)" for w
    using o by (simp add: owing_def)
  have "in_lots (lots (cleaners t i)) b w \<le> (if visited s i b then f w else 0)" for w
    using l [of w] owed [of w] by linarith
  then have "owing i b f t" by (simp add: owing_def v)
  moreover have "paid i b f s w + (if sint x = w then unat toks else 0) = paid i b f t w" for w
  proof -
    have "(if visited s i b then f w else 0) - in_lots (lots (cleaners s i)) b w + (if sint x = w then unat toks else 0) =
        (if visited s i b then f w else 0) - in_lots (lots (cleaners t i)) b w" using l [of w] owed [of w] by linarith
    then show ?thesis unfolding paid_def v .
  qed
  then have "grown w0 ?t (paid i b f t) (window_of live r' ?t b)" by (rule grown_eq [OF grown])
  ultimately show ?thesis using t step by simp
qed

lemma in_order_step:
  assumes bal: "balanced E live s" and E: "env_ok E" and wf: "well_formed E s"
    and e: "apart_fire E ops i b e s = Some t" and c: "stopping (cleaners s i)"
    and x: "buckets (stores s i) b = Some x" and f: "f = gives E i x s" and o: "in_order E live i b x f w0 s"
  shows "in_order E live i b x f w0 t"
proof (cases "\<exists>k n l. e = Return i k n \<and> cleaners s i = Returning l \<and> fst (l ! k) = b")
  case True
  have fire: "fire E ops e s = Some t" "apart i b s e" using e by (auto simp: apart_fire_def split: if_splits)
  then obtain k l where r: "e = Return i k Delivered" "cleaners s i = Returning l" "fst (l ! k) = b"
    using True unfolding apart_def by blast
  then have "k < length l" "t = step_return E ops Delivered i k l s" using fire(1) by (auto simp: fire_iff)
  then show ?thesis using own_return [OF bal E wf r(2) _ r(3), of f w0] o unfolding in_order_def by blast
next
  case False
  then have no: "\<And>k n l. e = Return i k n \<Longrightarrow> cleaners s i = Returning l \<Longrightarrow> fst (l ! k) \<noteq> b" by blast
  have fire: "fire E ops e s = Some t" "quiet s e" "apart i b s e"
    using e by (auto simp: apart_fire_def split: if_splits)
  have o': "owing i b f s" "grown w0 (server_time E s) (paid i b f s) (window_of live (redis s) (server_time E s) b)"
    using o by (simp_all add: in_order_def)
  have "owing i b f t \<and> paid i b f t w = paid i b f s w" for w
    by (rule apart_owing [OF fire(1,3) c x f o'(1) no])
  then show ?thesis
    using grown_eq [OF apart_window [OF bal E wf fire no o'(2)], where d' = "paid i b f t"]
    by (simp add: in_order_def)
qed

end

context deployment
begin

lemma apart_run:
  assumes "run (apart_fire E ops i b) es s = Some t" and "well_formed E s" "balanced E live s"
    and "stopping (cleaners s i)" "buckets (stores s i) b = Some x" and "in_order E live i b x f w0 s"
    and "\<And>u :: 'r sys. clock s \<le> clock u \<Longrightarrow> clock u \<le> clock t \<Longrightarrow> f = gives E i x u"
  shows "well_formed E t \<and> balanced E live t \<and> stopping (cleaners t i) \<and> buckets (stores t i) b = Some x \<and>
    in_order E live i b x f w0 t"
  using assms
proof (induction es arbitrary: s)
  case (Cons e es)
  obtain v where v: "apart_fire E ops i b e s = Some v" "run (apart_fire E ops i b) es v = Some t"
    using Cons.prems(1) by (auto split: option.splits)
  then have fire: "fire E ops e s = Some v" "quiet s e" "apart i b s e"
    by (auto simp: apart_fire_def split: if_splits)
  have sv: "clock s \<le> clock v" by (rule clock_step [OF fire(1)])
  have vt: "clock v \<le> clock t" by (rule apart_clock [OF v(2)])
  have "f = gives E i x s" using Cons.prems(7) [of s] sv vt by simp
  then have "in_order E live i b x f w0 v"
    by (rule in_order_step [OF Cons.prems(3) env Cons.prems(2) v(1) Cons.prems(4,5) _ Cons.prems(6)])
  moreover have "f = gives E i x u" if "clock v \<le> clock u" "clock u \<le> clock t" for u :: "'r sys"
    using Cons.prems(7) [of u] sv that by simp
  moreover have "buckets (stores v i) b = Some x" "stopping (cleaners v i)"
    using apart_bucket [OF fire(1,3) Cons.prems(4)] Cons.prems(5) by simp_all
  ultimately show ?case
    using well_formed_step [OF Cons.prems(2) fire(1)] balanced_step [OF Cons.prems(3) env Cons.prems(2) fire(1,2)]
    by (intro Cons.IH [OF v(2)])
qed simp

end

section \<open>Collect, give back, and serve on\<close>

text \<open>Visiting the buckets of an instance in some order collects what \<open>replenish\<close> does.\<close>

lemma visits_collect:
  assumes "cleaners s i = Collecting l" and "distinct order"
    and "\<forall>k\<in>set order. buckets (stores s i) k \<noteq> None \<and> \<not> visited s i k"
  shows "\<exists>t. run (apart_fire E ops i b) (map (Visit i) order) s = Some t \<and>
    cleaners t i = Collecting (l @ replenish (local_time E s i) (stores s i) order) \<and>
    visited t i = (\<lambda>k. k \<in> set order \<or> visited s i k) \<and> stores t = stores s \<and> clock t = clock s \<and>
    tasks t = tasks s \<and> spent t = spent s"
  using assms
proof (induction order arbitrary: s l)
  case (Cons k order)
  obtain x where x: "buckets (stores s i) k = Some x" using Cons.prems(3) by auto
  let ?s = "step_visit E i k x l s"
  let ?l = "if is_empty x \<or> is_expired (local_time E s i) x then l else l @ [(k, tokens x, window x)]"
  have e: "apart_fire E ops i b (Visit i k) s = Some ?s"
    using Cons.prems x by (simp add: apart_fire_def apart_def quiet_def fire.simps)
  have s: "cleaners ?s i = Collecting ?l" "stores ?s = stores s" "clock ?s = clock s" "tasks ?s = tasks s"
    "spent ?s = spent s" "visited ?s i = (visited s i)(k := True)" by (simp_all add: step_visit_def)
  then have "local_time E ?s i = local_time E s i" by (simp add: local_time_def)
  moreover have "\<forall>q\<in>set order. buckets (stores ?s i) q \<noteq> None \<and> \<not> visited ?s i q"
    using Cons.prems(2,3) s by auto
  ultimately obtain t where t: "run (apart_fire E ops i b) (map (Visit i) order) ?s = Some t"
    "cleaners t i = Collecting (?l @ replenish (local_time E s i) (stores s i) order)"
    "visited t i = (\<lambda>q. q \<in> set order \<or> visited ?s i q)"
    "stores t = stores s" "clock t = clock s" "tasks t = tasks s" "spent t = spent s"
    using Cons.IH [OF s(1)] Cons.prems(2) s(2-5) by auto
  have "run (apart_fire E ops i b) (map (Visit i) (k # order)) s = Some t" using e t(1) by simp
  moreover have "?l @ replenish (local_time E s i) (stores s i) order =
      l @ replenish (local_time E s i) (stores s i) (k # order)"
    using x by (simp add: replenish_def)
  moreover have "visited t i = (\<lambda>q. q \<in> set (k # order) \<or> visited s i q)" using t(3) s(6) by auto
  ultimately show ?case using t by auto
qed (simp add: replenish_def)

lemma run_apart: "run (apart_fire E ops i b) es s = Some t \<Longrightarrow> run (fire E ops) es s = Some t"
proof (induction es arbitrary: s)
  case (Cons e es)
  then obtain u where u: "apart_fire E ops i b e s = Some u" "run (apart_fire E ops i b) es u = Some t"
    by (auto split: option.splits)
  from u(1) have "fire E ops e s = Some u" by (simp add: apart_fire_def split: if_splits)
  then show ?case using Cons.IH [OF u(2)] by simp
qed simp

text \<open>A shutdown that has visited every bucket and returned the tokens of one.\<close>

lemma collect_and_return:
  assumes "cleaners s i = Collecting []" and "\<forall>k. \<not> visited s i k"
    and "distinct order" and "set order = dom (buckets (stores s i))"
    and x: "buckets (stores s i) b = Some x" "tokens x \<noteq> 0" "local_time E s i < expires_at x"
  shows "\<exists>es t l. run (apart_fire E ops i b) es s = Some t \<and> cleaners t i = Returning l \<and>
    (\<forall>w. in_lots l b w = 0) \<and> (\<forall>k. visited t i k \<longleftrightarrow> buckets (stores s i) k \<noteq> None) \<and>
    clock t = clock s \<and> tasks t = tasks s \<and> spent t = spent s"
proof -
  let ?l = "replenish (local_time E s i) (stores s i) order"
  have "\<forall>k\<in>set order. buckets (stores s i) k \<noteq> None \<and> \<not> visited s i k" using assms(2,4) by auto
  from visits_collect [OF assms(1,3) this, of E ops b] obtain u where u:
    "run (apart_fire E ops i b) (map (Visit i) order) s = Some u" "cleaners u i = Collecting ?l"
    "visited u i = (\<lambda>k. k \<in> set order \<or> visited s i k)" "stores u = stores s" "clock u = clock s"
    "tasks u = tasks s" "spent u = spent s" by auto
  have "(b, tokens x, window x) \<in> set ?l" using x assms(4) by (force simp: replenish_def is_empty_def is_expired_def)
  then obtain k where k: "k < length ?l" "?l ! k = (b, tokens x, window x)" by (auto simp: in_set_conv_nth)
  let ?m = "take k ?l @ drop (Suc k) ?l" and ?u = "set_cleaner i (Returning ?l) u"
  let ?t = "step_return E ops Delivered i k ?l ?u"
  have "apart_fire E ops i b (Visit_done i) u = Some ?u" "apart_fire E ops i b (Return i k Delivered) ?u = Some ?t"
    using u(2) k(1) by (auto simp: apart_fire_def apart_def quiet_def fire.simps)
  then have "run (apart_fire E ops i b) (map (Visit i) order @ [Visit_done i, Return i k Delivered]) s = Some ?t"
    using u(1) by (simp add: run_append)
  moreover have "b \<in> set order" using assms(4) x(1) by auto
  then have "in_lots ?m b w = 0" for w
    using in_lots_remove [OF k, of b w] lot_sum_replenish [OF assms(3), of b w "local_time E s i" "stores s i"] x assms(4)
    by (auto simp: lot_sum_def given_back_def is_expired_def)
  moreover have "cleaners ?t i = Returning ?m" "clock ?t = clock s" "tasks ?t = tasks s" "spent ?t = spent s"
    "visited ?t i = visited u i"
    using k(2) u(5-7) by (simp_all add: step_return_def)
  moreover have "visited u i q \<longleftrightarrow> buckets (stores s i) q \<noteq> None" for q using u(3) assms(2,4) by auto
  ultimately show ?thesis by metis
qed

section \<open>Properties\<close>

text \<open>
  C25. A shutdown in the system gives back exactly what is unspent, however its steps are
  interleaved with the rest: from when the instance begins to collect until all it has collected
  is returned, and whatever other buckets, instances and the clocks do meanwhile, a bucket the
  iteration has met stays as it is, and its window, unless it ends by then, has grown by the
  tokens of the bucket if that has not expired and the window is the one they were leased from,
  and not changed at all otherwise. Provided that meanwhile no request for the bucket takes a
  step, no other instance returns tokens of it, its own returns arrive and the instance does not
  crash (\<open>apart\<close>), nobody spends from a bucket a shutdown has come past, and the
  bucket does not expire in between.
\<close>

theorem shutdown_gives_back:
  assumes "redis_server ops live" and "env_ok E" and "reach (booted E live) (fires (quiet_fire E ops)) s"
    and "cleaners s i = Collecting []" and "\<not> visited s i b" and "buckets (stores s i) b = Some x"
    and "run (apart_fire E ops i b) es s = Some t"
    and "cleaners t i = Returning [] \<or> cleaners t i = Complete" and "visited t i b"
    and "local_time E t i < expires_at x \<or> expires_at x \<le> local_time E s i"
  shows "buckets (stores t i) b = Some x \<and>
    (case window_of live (redis s) (server_time E s) b of
       None \<Rightarrow> window_of live (redis t) (server_time E t) b = None
     | Some (n, e) \<Rightarrow>
         window_of live (redis t) (server_time E t) b =
           Some (n + (if local_time E t i < expires_at x \<and> sint (window x) = e then uint (tokens x) else 0), e) \<or>
         e \<le> server_time E t \<and> window_of live (redis t) (server_time E t) b = None)"
proof -
  let ?win = "window_of live (redis s) (server_time E s) b" and ?f = "gives E i x s"
  have dep: "deployment ops live E" using assms(1,2) by (simp add: deployment_def deployment_axioms_def)
  have s: "well_formed E s \<and> balanced E live s" by (rule deployment.reach_ok [OF dep assms(3)])
  have st: "clock s \<le> clock t" by (rule apart_clock [OF assms(7)])
  have alive: "?f = gives E i x u" if "clock s \<le> clock u" "clock u \<le> clock t" for u :: "'a sys"
    using assms(10) that local_time_le [OF that(1), of E i] local_time_le [OF that(2), of E i]
    by (auto simp: gives_def is_expired_def fun_eq_iff)
  have "owing i b ?f s" "paid i b ?f s = (\<lambda>_. 0)" using assms(4,5) by (simp_all add: owing_def paid_def fun_eq_iff)
  then have "in_order E live i b x ?f ?win s" by (simp add: in_order_def grown_def split: option.split)
  then have t: "buckets (stores t i) b = Some x" "in_order E live i b x ?f ?win t"
    using deployment.apart_run [OF dep assms(7) _ _ _ assms(6) _ alive, of ?win] s assms(4) by auto
  have "paid i b ?f t e = nat (if local_time E t i < expires_at x \<and> sint (window x) = e then uint (tokens x) else 0)" for e
    using assms(8-10) local_time_le [OF st, of E i] by (auto simp: paid_def gives_def is_expired_def)
  then show ?thesis using t by (auto simp: in_order_def grown_def split: option.splits)
qed

text \<open>
  The first instance stops with one token left while a request of another client leases there and time passes.
\<close>
definition stop_run :: "event list" where
  "stop_run = [Arrive 1 0 (Protected ''v''), Check 1, Visit 0 (Protected ''u''), Enter 1, Tick 5, Call 1,
     Visit_done 0, Serve 1 Delivered, Return 0 0 Delivered]"

theorem shutdown_gives_back_witness:
  "\<exists>s t. run (quiet_fire sample_env mem_ops) (sample_run @ [Stop 0]) (boot sample_env 0 (\<lambda>_. None)) = Some s \<and>
     run (apart_fire sample_env mem_ops 0 (Protected ''u'')) stop_run s = Some t \<and>
     window_of mem_live (redis s) 0 (Protected ''u'') = Some (1, 60000) \<and>
     window_of mem_live (redis t) 0 (Protected ''u'') = Some (2, 60000)"
proof -
  let ?b = "Protected ''u''" and ?boot = "boot sample_env 0 (\<lambda>_. None)"
  obtain s x where s: "run (quiet_fire sample_env mem_ops) (sample_run @ [Stop 0]) ?boot = Some s"
    "cleaners s 0 = Collecting []" "\<not> visited s 0 ?b" "buckets (stores s 0) ?b = Some x"
    "window_of mem_live (redis s) (server_time sample_env s) ?b = Some (1, 60000)" "server_time sample_env s = 0"
    "expires_at x = 60000000005" "tokens x = 1" "window x = 60000"
    by (simp add: sample_run_def quiet_fire_def quiet_def fire_eval sample_env_def small_config_def bucket_new_def
        window_of_def)
  obtain t where t: "run (apart_fire sample_env mem_ops 0 ?b) stop_run s = Some t"
    "cleaners t 0 = Returning []" "visited t 0 ?b" "local_time sample_env t 0 = 10" "server_time sample_env t = 0"
    using s(1) by (auto simp: stop_run_def sample_run_def apart_fire_def apart_def quiet_fire_def quiet_def fire_eval
        sample_env_def small_config_def bucket_new_def)
  have "reach (booted sample_env mem_live) (fires (quiet_fire sample_env mem_ops)) s"
    by (rule reach_run [OF reach_start s(1)]) (rule sample_booted)
  from shutdown_gives_back [OF mem.redis_server_axioms sample_env_ok this s(2-4) t(1) _ t(3)] t s
  show ?thesis by auto
qed



end
