(* ===== verification/Isolation.thy ===== *)
theory Isolation
  imports Shutdown Bank
begin

text \<open>
  Clients do not affect each other: what requests for other buckets do, at any instance and however many there
  are, leaves a bucket, its window in Redis and its own requests as they are.
\<close>

section \<open>Events of other clients\<close>

definition foreign :: "bucket_id \<Rightarrow> 'r sys \<Rightarrow> event \<Rightarrow> bool" where
  "foreign b s e \<longleftrightarrow> quiet s e \<and>
     (case request_of e of
        Some p \<Rightarrow> (case tasks s p of Some (Task j c k) \<Rightarrow> c \<noteq> b | None \<Rightarrow> False)
      | None \<Rightarrow> (case e of Tick d \<Rightarrow> True | Arrive p j c \<Rightarrow> c \<noteq> b | _ \<Rightarrow> False))"

definition foreign_fire :: "env \<Rightarrow> 'r redis_ops \<Rightarrow> bucket_id \<Rightarrow> event \<Rightarrow> 'r sys \<Rightarrow> 'r sys option" where
  "foreign_fire E ops b e s = (if foreign b s e then fire E ops e s else None)"

text \<open>What there is of a bucket: at the instances, among the requests, and of what it has given.\<close>
definition same_bucket :: "bucket_id \<Rightarrow> 'r sys \<Rightarrow> 'r sys \<Rightarrow> bool" where
  "same_bucket b s t \<longleftrightarrow>
     (\<forall>i. buckets (stores t i) b = buckets (stores s i) b \<and> refills (stores t i) b = refills (stores s i) b) \<and>
     (\<forall>p i k. tasks t p = Some (Task i b k) \<longleftrightarrow> tasks s p = Some (Task i b k)) \<and>
     spent t b = spent s b \<and> admitted t b = admitted s b"

lemma foreign_apart: "foreign b s e \<Longrightarrow> apart i b s e"
  unfolding foreign_def apart_def by (cases e) (auto split: option.splits task.splits)

lemma foreign_counts:
  assumes "fire E ops e s = Some t" and "foreign b s e"
  shows "spent t b = spent s b \<and> admitted t b = admitted s b"
  using assms
  by (cases e) (auto simp: foreign_def fire_iff step_check_def step_enter_def step_serve_def step_reply_def
      step_unlock_def step_notify_def notify_waiters_def step_spend_def step_remove_def note_spent_def admit_def
      Let_def
      split: sum.split bool.split prod.split option.split)

lemma foreign_step:
  assumes e: "fire E ops e s = Some t" and f: "foreign b s e"
  shows "same_bucket b s t"
proof -
  have at: "buckets (stores t i) b = buckets (stores s i) b \<and> refills (stores t i) b = refills (stores s i) b \<and>
      (\<forall>p k. tasks t p = Some (Task i b k) \<longleftrightarrow> tasks s p = Some (Task i b k))" for i
  proof (cases "request_of e")
    case None
    then show ?thesis using e f by (cases e) (auto simp: fire_iff foreign_def)
  next
    case (Some p)
    obtain j c k l where p: "tasks s p = Some (Task j c k)" "tasks t = (tasks s)(p \<mapsto> Task j c l)"
      using own_tasks [OF e Some] by blast
    then have "c \<noteq> b" using f Some by (auto simp: foreign_def)
    then show ?thesis using requests_are_isolated [OF e Some p(1), of i b] p by auto
  qed
  then show ?thesis using foreign_counts [OF e f] by (simp add: same_bucket_def)
qed

context deployment
begin

lemma foreign_run:
  assumes "run (foreign_fire E ops b) es s = Some t" and "well_formed E s" and "balanced E live s"
  shows "same_bucket b s t \<and> grown (window_of live (redis s) (server_time E s) b) (server_time E t) (\<lambda>_. 0)
    (window_of live (redis t) (server_time E t) b)"
proof -
  let ?W = "window_of live (redis s) (server_time E s) b"
  let ?I = "\<lambda>u. well_formed E u \<and> balanced E live u \<and> same_bucket b s u \<and>
    grown ?W (server_time E u) (\<lambda>_. 0) (window_of live (redis u) (server_time E u) b)"
  have "?I t"
  proof (rule run_keeps [OF assms(1), of ?I])
    show "?I s" using assms(2,3) by (simp add: same_bucket_def grown_def split: option.split)
  next
    fix e u v
    assume u: "?I u" and "foreign_fire E ops b e u = Some v"
    then have v: "fire E ops e u = Some v" "foreign b u e" "quiet u e"
      by (auto simp: foreign_fire_def foreign_def split: if_splits)
    have no: "e \<noteq> Return i k n" for i k n using v(2) by (auto simp: foreign_def)
    have "same_bucket b s v" using u foreign_step [OF v(1,2)] by (simp add: same_bucket_def)
    moreover have "grown ?W (server_time E v) (\<lambda>_. 0) (window_of live (redis v) (server_time E v) b)"
      using u by (intro apart_window [OF _ env _ v(1,3) foreign_apart [OF v(2)]]) (auto simp: no)
    ultimately show "?I v"
      using u well_formed_step [OF _ v(1)] balanced_step [OF _ env _ v(1,3)] by blast
  qed
  then show ?thesis by simp
qed

end

section \<open>Properties\<close>

text \<open>
  C40. Clients do not affect each other: from any state reached by a run in which no request
  spends from a bucket a shutdown has come past, let time pass and any requests for other buckets
  arrive and take any of their steps (with the same restriction), at any instance, in any order
  and whatever becomes of their calls. Then a bucket is in the end exactly as it was: its tokens
  and the refills in progress at every instance, its requests and where they stand, what was
  spent and admitted for it, and its window in Redis, unless that one has ended meanwhile, and
  then it is gone.
\<close>

theorem clients_are_isolated:
  assumes "redis_server ops live" and "env_ok E" and "reach (booted E live) (fires (quiet_fire E ops)) s"
    and "run (foreign_fire E ops b) es s = Some t"
  shows "(\<forall>i. buckets (stores t i) b = buckets (stores s i) b \<and> refills (stores t i) b = refills (stores s i) b) \<and>
    (\<forall>p i k. tasks t p = Some (Task i b k) \<longleftrightarrow> tasks s p = Some (Task i b k)) \<and>
    spent t b = spent s b \<and> admitted t b = admitted s b \<and>
    (case window_of live (redis s) (server_time E s) b of
       None \<Rightarrow> window_of live (redis t) (server_time E t) b = None
     | Some (n, e) \<Rightarrow> window_of live (redis t) (server_time E t) b = Some (n, e) \<or>
         e \<le> server_time E t \<and> window_of live (redis t) (server_time E t) b = None)"
proof -
  have dep: "deployment ops live E" using assms(1,2) by (simp add: deployment_def deployment_axioms_def)
  have "well_formed E s" "balanced E live s" using deployment.reach_ok [OF dep assms(3)] by simp_all
  from deployment.foreign_run [OF dep assms(4) this] show ?thesis
    by (auto simp: same_bucket_def grown_def split: option.splits)
qed

text \<open>While a request of one client leases, another leases and spends at the same instance.\<close>
definition other_run :: "event list" where
  "other_run = [Arrive 1 0 (Protected ''v''), Check 1, Enter 1, Call 1, Serve 1 Delivered, Tick 3, Reply 1 0, Unlock 1,
     Notify 1, Spend 1]"

theorem clients_are_isolated_witness:
  "\<exists>s t. run (quiet_fire sample_env mem_ops) (take 5 sample_run) (boot sample_env 0 (\<lambda>_. None)) = Some s \<and>
     run (foreign_fire sample_env mem_ops (Protected ''u'')) other_run s = Some t \<and>
     refills (stores t 0) (Protected ''u'') = Some 0 \<and>
     window_of mem_live (redis t) (server_time sample_env t) (Protected ''u'') = Some (1, 60000)"
proof -
  let ?b = "Protected ''u''" and ?boot = "boot sample_env 0 (\<lambda>_. None)"
  obtain s where s: "run (quiet_fire sample_env mem_ops) (take 5 sample_run) ?boot = Some s"
    "refills (stores s 0) ?b = Some 0"
    "window_of mem_live (redis s) (server_time sample_env s) ?b = Some (1, 60000)"
    by (simp add: sample_run_def quiet_fire_def quiet_def fire_eval sample_env_def small_config_def window_of_def)
  obtain t where t: "run (foreign_fire sample_env mem_ops ?b) other_run s = Some t" "server_time sample_env t = 0"
    using s(1) by (auto simp: other_run_def sample_run_def foreign_fire_def foreign_def quiet_fire_def quiet_def fire_eval
        sample_env_def small_config_def bucket_new_def)
  have "reach (booted sample_env mem_live) (fires (quiet_fire sample_env mem_ops)) s"
    by (rule reach_run [OF reach_start s(1)]) (rule sample_booted)
  from clients_are_isolated [OF mem.redis_server_axioms sample_env_ok this t(1)] s t show ?thesis by auto
qed

end
