(* ===== verification/Server.thy ===== *)
theory Server
  imports Cleaner
begin

text \<open>
  Startup and shutdown of the binary (\<open>crates/server/src/main.rs\<close>) with the Redis settings it reads
  (\<open>crates/cache/src/config.rs\<close>). Startup is a function of the environment. Shutdown is a handshake of
  \<open>shutdown_signal\<close> and the cleanup task over a broadcast channel, a step relation.
\<close>

section \<open>Redis settings\<close>

record redis_config =
  redis_host :: string
  redis_port :: u16

definition redis_config_new :: "string \<Rightarrow> u16 \<Rightarrow> redis_config" where
  "redis_config_new host port = \<lparr>redis_host = host, redis_port = port\<rparr>"

definition redis_config_default :: redis_config where
  "redis_config_default = redis_config_new ''127.0.0.1'' 6379"

text \<open>\<open>str::parse::<u16>\<close>: decimal digits after an optional plus sign, in range.\<close>
definition parse_u16 :: "string \<Rightarrow> u16 option" where
  "parse_u16 s =
     (case read_dec (case s of c # cs \<Rightarrow> if c = CHR ''+'' then cs else s | [] \<Rightarrow> []) of
        Some n \<Rightarrow> if n < 65536 then Some (of_nat n) else None
      | None \<Rightarrow> None)"

text \<open>\<open>Config::env\<close>; \<open>var\<close> is \<open>env::var(..).ok()\<close>.\<close>
definition redis_config_env :: "(string \<Rightarrow> string option) \<Rightarrow> redis_config option" where
  "redis_config_env var =
     (let host = var ''REDIS_HOST'';
          port = (case var ''REDIS_PORT'' of
                    None \<Rightarrow> 6379
                  | Some p \<Rightarrow> (case parse_u16 p of Some n \<Rightarrow> n | None \<Rightarrow> 6379))
      in (case host of None \<Rightarrow> None | Some h \<Rightarrow> Some (redis_config_new h port)))"

definition redis_url :: "redis_config \<Rightarrow> string" where
  "redis_url c = ''redis://'' @ redis_host c @ '':'' @ show_nat (unat (redis_port c))"

text \<open>\<open>connect\<close>; \<open>open_client\<close> and \<open>get_manager\<close> are the client library's, and a failure of either panics.\<close>
definition redis_connect ::
    "(string \<Rightarrow> string + 'client) \<Rightarrow> ('client \<Rightarrow> string + 'con) \<Rightarrow> redis_config \<Rightarrow> string + 'con" where
  "redis_connect open_client get_manager c =
     (case open_client (redis_url c) of
        Inl e \<Rightarrow> Inl (''Failed to connect to Redis: '' @ e)
      | Inr client \<Rightarrow>
          (case get_manager client of
             Inl e \<Rightarrow> Inl (''Failed create Redis connection manager: '' @ e)
           | Inr con \<Rightarrow> Inr con))"

section \<open>Startup\<close>

text \<open>How \<open>main\<close> can end before it serves: its \<open>Error\<close>, or a panic.\<close>
datatype start_error = VarError | ConfigFailed config_error | Panic string

text \<open>What \<open>main\<close> hands to the adapter: the store, the connection, and whether there is a channel.\<close>
definition startup ::
    "(string \<Rightarrow> string option) \<Rightarrow> (string \<Rightarrow> config_error + config) \<Rightarrow> (redis_config \<Rightarrow> string + 'con)
     \<Rightarrow> start_error + store \<times> 'con \<times> bool" where
  "startup var get connect =
     (case var ''CFG_PATH'' of
        None \<Rightarrow> Inl VarError
      | Some path \<Rightarrow>
          (case get path of
             Inl e \<Rightarrow> Inl (ConfigFailed e)
           | Inr config \<Rightarrow>
               (case connect (case redis_config_env var of
                                Some c \<Rightarrow> c | None \<Rightarrow> redis_config_default) of
                  Inl e \<Rightarrow> Inl (Panic e)
                | Inr con \<Rightarrow> Inr (store_new config, con, enabled (cleanup config)))))"

section \<open>Shutdown handshake\<close>

text \<open>
  \<open>shutdown_signal\<close>: awaiting a signal, in its loop awaiting \<open>CleanupComplete\<close>, or returned. The cleanup
  task, when there is one: in its loop, returning tokens, through, or panicked, which
  \<open>tokio::time::interval\<close> does for an interval of zero.
\<close>
datatype waiter = Awaiting_signal | Awaiting_cleanup | Returned

fun waiter_phase :: "waiter \<Rightarrow> nat" where
  "waiter_phase Awaiting_signal = 0"
| "waiter_phase Awaiting_cleanup = 1"
| "waiter_phase Returned = 2"

instantiation waiter :: linorder
begin
definition less_eq_waiter :: "waiter \<Rightarrow> waiter \<Rightarrow> bool" where
  "less_eq_waiter w v \<longleftrightarrow> waiter_phase w \<le> waiter_phase v"
definition less_waiter :: "waiter \<Rightarrow> waiter \<Rightarrow> bool" where
  "less_waiter w v \<longleftrightarrow> waiter_phase w < waiter_phase v"
instance
proof
  fix w v :: waiter
  show "w \<le> v \<Longrightarrow> v \<le> w \<Longrightarrow> w = v"
    by (cases w; cases v) (simp_all add: less_eq_waiter_def)
qed (auto simp: less_eq_waiter_def less_waiter_def)
end

datatype cleanup_state = Looping | Returning_tokens | Through | Panicked

record handshake =
  waiter :: waiter
  waiter_rx :: "command list"
  cleaner :: "cleanup_state option"
  cleaner_rx :: "command list"
  serving :: bool

definition handshake_start :: "config \<Rightarrow> handshake" where
  "handshake_start c =
     (if enabled (cleanup c)
      then \<lparr>waiter = Awaiting_signal, waiter_rx = [],
            cleaner = Some (if interval (cleanup c) = 0 then Panicked else Looping),
            cleaner_rx = [], serving = True\<rparr>
      else \<lparr>waiter = Returned, waiter_rx = [], cleaner = None, cleaner_rx = [], serving = True\<rparr>)"

text \<open>
  A sent command reaches every receiver. A received command that does not match a \<open>select!\<close>
  pattern is dropped and the loop goes on with its next tick. The adapter stops serving when
  \<open>shutdown_signal\<close> has returned.
\<close>

inductive handshake_step :: "handshake \<Rightarrow> handshake \<Rightarrow> bool" where
  signal: "waiter h = Awaiting_signal \<Longrightarrow>
    handshake_step h (h\<lparr>waiter := Awaiting_cleanup, waiter_rx := waiter_rx h @ [Shutdown],
      cleaner_rx := cleaner_rx h @ [Shutdown]\<rparr>)"
| waiter_recv: "waiter h = Awaiting_cleanup \<Longrightarrow> waiter_rx h = c # q \<Longrightarrow>
    handshake_step h (h\<lparr>waiter_rx := q, waiter := if c = CleanupComplete then Returned else Awaiting_cleanup\<rparr>)"
| cleaner_recv: "cleaner h = Some Looping \<Longrightarrow> cleaner_rx h = c # q \<Longrightarrow>
    handshake_step h (h\<lparr>cleaner_rx := q, cleaner := Some (if c = Shutdown then Returning_tokens else Looping)\<rparr>)"
| cleaner_done: "cleaner h = Some Returning_tokens \<Longrightarrow>
    handshake_step h (h\<lparr>cleaner := Some Through, waiter_rx := waiter_rx h @ [CleanupComplete],
      cleaner_rx := cleaner_rx h @ [CleanupComplete]\<rparr>)"
| stop: "waiter h = Returned \<Longrightarrow> serving h \<Longrightarrow> handshake_step h (h\<lparr>serving := False\<rparr>)"

inductive_cases handshake_stepE: "handshake_step h h'"

inductive_simps handshake_step_simps: "handshake_step h h'"

section \<open>Invariant and measure\<close>

text \<open>Which command is where, with a cleanup task that has not panicked.\<close>

definition handshake_inv :: "handshake \<Rightarrow> bool" where
  "handshake_inv h \<longleftrightarrow>
     (\<exists>c. cleaner h = Some c \<and> c \<noteq> Panicked \<and>
       (case waiter h of
          Awaiting_signal \<Rightarrow> c = Looping \<and> waiter_rx h = [] \<and> cleaner_rx h = []
        | Awaiting_cleanup \<Rightarrow>
            (c = Looping \<longrightarrow> cleaner_rx h = [Shutdown]) \<and>
            (c = Through \<longleftrightarrow> CleanupComplete \<in> set (waiter_rx h))
        | Returned \<Rightarrow> c = Through)) \<and>
     (\<not> serving h \<longrightarrow> waiter h = Returned)"

lemma handshake_inv_step: "handshake_inv h \<Longrightarrow> handshake_step h h' \<Longrightarrow> handshake_inv h'"
  by (elim handshake_stepE) (auto simp: handshake_inv_def split: waiter.splits)

definition with_cleanup_task :: "config \<Rightarrow> bool" where
  "with_cleanup_task c \<longleftrightarrow> enabled (cleanup c) \<and> interval (cleanup c) \<noteq> 0"

interpretation handshake: invariant_system
  "\<lambda>h. \<exists>c. with_cleanup_task c \<and> h = handshake_start c" handshake_step handshake_inv
proof (unfold_locales, goal_cases)
  case (1 h)
  then show ?case by (auto simp: handshake_start_def with_cleanup_task_def handshake_inv_def)
next
  case 2
  then show ?case by (rule handshake_inv_step)
qed

text \<open>Every step brings the end nearer.\<close>

fun waiter_rank :: "waiter \<Rightarrow> nat" where
  "waiter_rank Awaiting_signal = 8"
| "waiter_rank Awaiting_cleanup = 1"
| "waiter_rank Returned = 0"

fun cleaner_rank :: "cleanup_state option \<Rightarrow> nat" where
  "cleaner_rank (Some Looping) = 6"
| "cleaner_rank (Some Returning_tokens) = 5"
| "cleaner_rank _ = 0"

definition rank :: "handshake \<Rightarrow> nat" where
  "rank h = waiter_rank (waiter h) + length (waiter_rx h) + cleaner_rank (cleaner h) +
     length (cleaner_rx h) + (if serving h then 1 else 0)"

lemma rank_step: "handshake_step h h' \<Longrightarrow> rank h' < rank h"
  by (elim handshake_stepE) (auto simp: rank_def)

text \<open>The waiter goes through its phases in order and never back.\<close>

lemma handshake_forward: "handshake_step h h' \<Longrightarrow> waiter h \<le> waiter h'"
  by (elim handshake_stepE) (auto simp: less_eq_waiter_def)

lemma handshake_goes_on:
  assumes "handshake_inv h" and "serving h"
  shows "\<exists>h'. handshake_step h h'"
proof -
  obtain c where c: "cleaner h = Some c" "c \<noteq> Panicked" using assms(1) by (auto simp: handshake_inv_def)
  show ?thesis
  proof (cases "waiter h")
    case Awaiting_signal
    then show ?thesis by (auto intro: handshake_step.intros)
  next
    case Returned
    then show ?thesis using assms(2) by (auto intro: handshake_step.intros)
  next
    case Awaiting_cleanup
    then show ?thesis using assms(1) c
      by (cases c; cases "waiter_rx h") (auto simp: handshake_inv_def intro: handshake_step.intros)
  qed
qed

section \<open>Properties\<close>

text \<open>
  C23. With a cleanup task running, the adapter stops serving only after the cleanup task has
  returned the unspent tokens, in every order in which commands are sent and received.
\<close>

theorem stops_after_return:
  assumes "reach (\<lambda>h. \<exists>c. with_cleanup_task c \<and> h = handshake_start c) handshake_step h"
    and "\<not> serving h"
  shows "cleaner h = Some Through"
  using handshake.reach_inv [OF assms(1)] assms(2) by (auto simp: handshake_inv_def)

definition stopped :: handshake where
  "stopped = \<lparr>waiter = Returned, waiter_rx = [], cleaner = Some Through, cleaner_rx = [CleanupComplete],
     serving = False\<rparr>"

lemma small_config_stops:
  "reach (\<lambda>h. \<exists>c. with_cleanup_task c \<and> h = handshake_start c) handshake_step stopped"
proof -
  let ?h = "\<lambda>w q c r. \<lparr>waiter = w, waiter_rx = q, cleaner = Some c, cleaner_rx = r, serving = True\<rparr>"
  let ?R = "reach (\<lambda>h. \<exists>c. with_cleanup_task c \<and> h = handshake_start c) handshake_step"
  have "?R (?h Awaiting_signal [] Looping [])"
    by (rule reach_start)
      (auto simp: handshake_start_def with_cleanup_task_def small_config_def from_secs_def
        intro!: exI [of _ small_config])
  then have "?R (?h Awaiting_cleanup [Shutdown] Looping [Shutdown])"
    by (rule reach_step) (auto simp: handshake_step_simps)
  then have "?R (?h Awaiting_cleanup [Shutdown] Returning_tokens [])"
    by (rule reach_step) (auto simp: handshake_step_simps)
  then have "?R (?h Awaiting_cleanup [Shutdown, CleanupComplete] Through [CleanupComplete])"
    by (rule reach_step) (auto simp: handshake_step_simps)
  then have "?R (?h Awaiting_cleanup [CleanupComplete] Through [CleanupComplete])"
    by (rule reach_step) (auto simp: handshake_step_simps)
  then have "?R (?h Returned [] Through [CleanupComplete])"
    by (rule reach_step) (auto simp: handshake_step_simps)
  then show ?thesis unfolding stopped_def
    by (rule reach_step) (auto simp: handshake_step_simps)
qed

theorem stops_after_return_witness: "cleaner stopped = Some Through"
  by (rule stops_after_return [OF small_config_stops]) (simp add: stopped_def)

text \<open>
  C24. With a cleanup task running, every sequence of steps of the shutdown handshake is finite,
  \<open>shutdown_signal\<close> goes through its phases in order and never back, and a sequence
  that cannot go on has stopped serving: once a signal is sent, the server stops.
\<close>

theorem shutdown_completes:
  assumes "reach (\<lambda>h. \<exists>c. with_cleanup_task c \<and> h = handshake_start c) handshake_step h"
  shows "wf {(h', h). handshake_step h h'} \<and>
    (\<forall>h'. handshake_step h h' \<longrightarrow> waiter h \<le> waiter h') \<and>
    ((\<nexists>h'. handshake_step h h') \<longrightarrow> \<not> serving h)"
proof -
  have "{(h', h). handshake_step h h'} \<subseteq> measure rank" by (auto intro: rank_step)
  then have "wf {(h', h). handshake_step h h'}" by (rule wf_subset [OF wf_measure])
  moreover have "handshake_inv h" by (rule handshake.reach_inv [OF assms])
  ultimately show ?thesis using handshake_goes_on handshake_forward by blast
qed

theorem shutdown_completes_witness: "wf {(h', h). handshake_step h h'} \<and> \<not> serving stopped"
  using shutdown_completes [OF small_config_stops] by (auto simp: handshake_step_simps stopped_def)

text \<open>
  C32. Without a running cleanup task the shutdown handshake goes wrong either way. With cleanup
  disabled (the default configuration) the only step there ever is, and it needs no signal, is to
  stop serving: the server stops as soon as it starts. With an interval of zero, which the
  configuration accepts, the task panics when it starts, the server never stops serving, and
  after a signal nothing is left to happen: \<open>shutdown_signal\<close> waits for a
  \<open>CleanupComplete\<close> that nobody sends.
\<close>

theorem handshake_without_task:
  assumes "\<not> with_cleanup_task c" and "reach (\<lambda>h. h = handshake_start c) handshake_step h"
  shows "if enabled (cleanup c)
    then serving h \<and> waiter h \<noteq> Returned \<and>
      ((\<nexists>h'. handshake_step h h') \<longleftrightarrow> waiter h = Awaiting_cleanup \<and> waiter_rx h = [])
    else (serving h \<longrightarrow> handshake_step h (h\<lparr>serving := False\<rparr>)) \<and>
      (\<forall>h'. handshake_step h h' \<longleftrightarrow> serving h \<and> h' = h\<lparr>serving := False\<rparr>)"
proof (cases "enabled (cleanup c)")
  case True
  have "serving h \<and> cleaner h = Some Panicked \<and> CleanupComplete \<notin> set (waiter_rx h) \<and> waiter h \<noteq> Returned"
    using assms(2)
    by (induction rule: reach.induct)
      (use assms(1) True in \<open>auto simp: handshake_start_def with_cleanup_task_def elim!: handshake_stepE\<close>)
  moreover have "waiter h = Awaiting_signal \<or> waiter h = Awaiting_cleanup" if "waiter h \<noteq> Returned"
    using that by (cases "waiter h") auto
  ultimately show ?thesis using True by (cases "waiter_rx h") (auto simp: handshake_step_simps)
next
  case False
  have "waiter h = Returned \<and> cleaner h = None"
    using assms(2)
    by (induction rule: reach.induct) (use False in \<open>auto simp: handshake_start_def elim!: handshake_stepE\<close>)
  then show ?thesis using False by (auto simp: handshake_step_simps)
qed

theorem handshake_without_task_witness:
  "handshake_step (handshake_start default_config) ((handshake_start default_config)\<lparr>serving := False\<rparr>) \<and>
   serving (handshake_start (small_config\<lparr>cleanup := \<lparr>enabled = True, interval = 0\<rparr>\<rparr>))"
proof -
  let ?zero = "small_config\<lparr>cleanup := \<lparr>enabled = True, interval = 0\<rparr>\<rparr>"
  have "serving (handshake_start default_config)" by (simp add: handshake_start_def)
  then show ?thesis
    using handshake_without_task [OF _ reach_start, of default_config "handshake_start default_config"]
      handshake_without_task [OF _ reach_start, of ?zero "handshake_start ?zero"]
    by (simp add: with_cleanup_task_def default_config_def)
qed

text \<open>Where the server connects: the port of the environment counts only together with a host.\<close>

lemma redis_settings:
  "redis_url (case redis_config_env var of Some c \<Rightarrow> c | None \<Rightarrow> redis_config_default) =
    (case var ''REDIS_HOST'' of
       None \<Rightarrow> ''redis://127.0.0.1:6379''
     | Some h \<Rightarrow> ''redis://'' @ h @ '':'' @ show_nat
         (case var ''REDIS_PORT'' of
            None \<Rightarrow> 6379
          | Some p \<Rightarrow> (case parse_u16 p of Some n \<Rightarrow> unat n | None \<Rightarrow> 6379)))"
proof -
  have "show_nat 6379 = ''6379''" by (simp add: show_base.simps digit_char_def)
  then show ?thesis
    by (auto simp: redis_config_env_def redis_config_default_def redis_config_new_def redis_url_def Let_def
        split: option.split)
qed

text \<open>
  C35. A server that starts has read a valid configuration from the file named by CFG_PATH,
  starts with an empty store, has a shutdown channel exactly when cleanup is enabled, and is
  connected to the Redis of REDIS_HOST and REDIS_PORT: port 6379 when the port is missing or no
  u16, and the default host and port, whatever REDIS_PORT says, when the host is missing.
\<close>

theorem startup_validates:
  assumes "startup var (get_config read parse) (redis_connect open_client get_manager) = Inr (s, con, channel)"
  shows "valid_config (cfg s) \<and> buckets s = Map.empty \<and> refills s = Map.empty \<and>
    channel = enabled (cleanup (cfg s)) \<and>
    (\<exists>path. var ''CFG_PATH'' = Some path \<and> get_config read parse path = Inr (cfg s)) \<and>
    (\<exists>client. get_manager client = Inr con \<and> open_client
      (case var ''REDIS_HOST'' of
         None \<Rightarrow> ''redis://127.0.0.1:6379''
       | Some h \<Rightarrow> ''redis://'' @ h @ '':'' @ show_nat
           (case var ''REDIS_PORT'' of
              None \<Rightarrow> 6379
            | Some p \<Rightarrow> (case parse_u16 p of Some n \<Rightarrow> unat n | None \<Rightarrow> 6379))) = Inr client)"
proof -
  obtain path config client where "var ''CFG_PATH'' = Some path" "get_config read parse path = Inr config"
    "open_client (redis_url (case redis_config_env var of Some c \<Rightarrow> c | None \<Rightarrow> redis_config_default)) = Inr client"
    "get_manager client = Inr con" "s = store_new config" "channel = enabled (cleanup config)"
    using assms by (auto simp: startup_def redis_connect_def split: option.splits sum.splits)
  then show ?thesis
    using get_config_valid [of read parse path config] unfolding redis_settings store_new_def by simp
qed

theorem startup_validates_witness:
  "\<exists>s channel. startup (\<lambda>v. if v = ''CFG_PATH'' then Some ''static/config.json'' else None)
     (get_config Inr (\<lambda>_. Inr (raw_config 100))) (redis_connect Inr Inr) =
     Inr (s, ''redis://127.0.0.1:6379'', channel) \<and> valid_config (cfg s) \<and> channel"
proof -
  let ?run = "startup (\<lambda>v. if v = ''CFG_PATH'' then Some ''static/config.json'' else None)
     (get_config Inr (\<lambda>_. Inr (raw_config 100))) (redis_connect Inr Inr)"
  obtain s con where r: "?run = Inr (s, con, True)"
    by (simp add: startup_def get_config_def config_from_raw_def policy_try_from_def raw_config_def
        raw_policy_def store_new_def word_less_nat_alt redis_connect_def)
  have "valid_config (cfg s)" "con = ''redis://127.0.0.1:6379''" using startup_validates [OF r] by simp_all
  then show ?thesis using r by blast
qed

end
