(* ===== verification/Http.thy ===== *)
theory Http
  imports Store
begin

text \<open>
  The HTTP adapter (\<open>crates/http-adapter\<close>): the middleware that reads the claims of a token, the
  extractors of the handler, the handler \<open>consume\<close>, the mapping of errors to responses, and the router. Of
  the framework, the reading of the \<open>Authorization\<close> header, the decoding of a token and the answer to a
  request that no route takes are parameters.
\<close>

section \<open>Requests and responses\<close>

text \<open>A header map: names in lower case, values as bytes; \<open>get\<close> yields the first value of a name.\<close>
type_synonym headers = "(string \<times> string) list"

record claims =
  sub :: string

record request =
  http_method :: string
  path :: string
  headers :: headers
  claims_ext :: "claims option"

record response =
  status :: nat
  out_headers :: headers
  body :: string

definition header_get :: "headers \<Rightarrow> string \<Rightarrow> string option" where
  "header_get hs name = map_of hs name"

text \<open>\<open>HeaderValue::to_str\<close>: visible ASCII, space and tab.\<close>
definition to_str :: "string \<Rightarrow> string option" where
  "to_str v =
     (if list_all (\<lambda>c. let n = of_char c :: nat in 32 \<le> n \<and> n < 127 \<or> n = 9) v then Some v else None)"

definition X_FORWARDED_HOST :: string where "X_FORWARDED_HOST = ''x-forwarded-host''"
definition X_FORWARDED_FOR :: string where "X_FORWARDED_FOR = ''x-forwarded-for''"
definition X_REAL_IP :: string where "X_REAL_IP = ''x-real-ip''"
definition RATE_LIMIT_HEADER_NAME :: string where "RATE_LIMIT_HEADER_NAME = ''ratelimit''"

section \<open>Errors\<close>

datatype http_error =
    Cfg config_error
  | Store store_error
  | Unauthorized
  | InvalidToken
  | MissingHost

definition into_response :: "http_error \<Rightarrow> response" where
  "into_response e =
     (case e of
        Cfg _ \<Rightarrow> \<lparr>status = 500, out_headers = [], body = []\<rparr>
      | Store (Exhausted _ expires) \<Rightarrow>
          \<lparr>status = 429, out_headers = [(''retry-after'', show_nat (unat (as_secs expires)))], body = []\<rparr>
      | Store (Cache _) \<Rightarrow> \<lparr>status = 500, out_headers = [], body = []\<rparr>
      | Unauthorized \<Rightarrow> \<lparr>status = 401, out_headers = [], body = []\<rparr>
      | InvalidToken \<Rightarrow> \<lparr>status = 400, out_headers = [], body = []\<rparr>
      | MissingHost \<Rightarrow> \<lparr>status = 400, out_headers = [], body = []\<rparr>)"

section \<open>Extractors\<close>

text \<open>\<open>&s[i..]\<close> panics (\<open>None\<close>) past the end.\<close>
definition slice_from :: "nat \<Rightarrow> string \<Rightarrow> string option" where
  "slice_from i s = (if i \<le> length s then Some (drop i s) else None)"

definition hostname :: "string \<Rightarrow> string option" where
  "hostname h =
     (if take 1 h = ''['' then
        (case iter_next (split_str (CHR '']'') h) of Some s \<Rightarrow> slice_from 1 s | None \<Rightarrow> Some h)
      else
        (case iter_next (split_str (CHR '':'') h) of Some s \<Rightarrow> Some s | None \<Rightarrow> Some h))"

text \<open>\<open>None\<close> would be a panic of \<open>hostname\<close>; the inner option is that of the code.\<close>
definition domain :: "string \<Rightarrow> string option option" where
  "domain h =
     (case hostname h of None \<Rightarrow> None | Some n \<Rightarrow> Some (iter_next (split_str (CHR ''.'') n)))"

definition host_from_parts :: "request \<Rightarrow> http_error + string" where
  "host_from_parts req =
     (case header_get (headers req) X_FORWARDED_HOST of
        None \<Rightarrow> Inl MissingHost
      | Some h \<Rightarrow>
          if h = [] then Inl MissingHost
          else (case to_str h of None \<Rightarrow> Inl MissingHost | Some s \<Rightarrow> Inr s))"

definition identifier_from_parts :: "request \<Rightarrow> http_error + bucket_id" where
  "identifier_from_parts req =
     (case claims_ext req of
        Some c \<Rightarrow> Inr (Protected (sub c))
      | None \<Rightarrow>
          (case (case header_get (headers req) X_FORWARDED_FOR of
                   Some v \<Rightarrow> Some v
                 | None \<Rightarrow> header_get (headers req) X_REAL_IP) of
             None \<Rightarrow> Inl Unauthorized
           | Some v \<Rightarrow>
               (case to_str v of
                  None \<Rightarrow> Inl Unauthorized
                | Some s \<Rightarrow>
                    (case iter_next (split_str (CHR '','') s) of
                       None \<Rightarrow> Inl Unauthorized
                     | Some p \<Rightarrow>
                         (case parse_ip p of
                            None \<Rightarrow> Inl Unauthorized
                          | Some ip \<Rightarrow> Inr (Public ip))))))"

section \<open>Handler\<close>

definition ok_response :: "string \<Rightarrow> response" where
  "ok_response v = \<lparr>status = 200, out_headers = [(RATE_LIMIT_HEADER_NAME, v)], body = []\<rparr>"

text \<open>The word in quotes.\<close>
definition unknown_limit :: string where
  "unknown_limit = CHR 0x22 # ''unknown'' @ [CHR 0x22]"

text \<open>
  The handler, its extractors first, in order. \<open>None\<close>: it never returns (or \<open>hostname\<close> panics).
\<close>
definition http_consume ::
    "'r redis_ops \<Rightarrow> net \<Rightarrow> times \<Rightarrow> notify \<Rightarrow> request \<Rightarrow> store \<Rightarrow> 'r
     \<Rightarrow> (response \<times> store \<times> 'r) option" where
  "http_consume ops n tm nid req s r =
     (case host_from_parts req of
        Inl e \<Rightarrow> Some (into_response e, s, r)
      | Inr host \<Rightarrow>
          (case identifier_from_parts req of
             Inl e \<Rightarrow> Some (into_response e, s, r)
           | Inr b_id \<Rightarrow>
               (case domain host of
                  None \<Rightarrow> None
                | Some (Some h) \<Rightarrow>
                    if should_handle s h then
                      (case consume ops n tm nid s r b_id of
                         None \<Rightarrow> None
                       | Some (Inl e, s', r') \<Rightarrow> Some (into_response (Store e), s', r')
                       | Some (Inr tokens_left, s', r') \<Rightarrow>
                           Some (ok_response (''r='' @ show_nat (unat tokens_left)), s', r'))
                    else Some (ok_response unknown_limit, s, r)
                | Some None \<Rightarrow>
                    Some (ok_response unknown_limit, s, r))))"

text \<open>
  \<open>find_token_claims\<close> around \<open>next\<close>. \<open>bearer\<close>: the rejection of a malformed \<open>Authorization\<close> header, or the
  token if there is one; \<open>decode\<close>: \<open>insecure_decode::<Claims>\<close>.
\<close>
definition find_token_claims ::
    "(headers \<Rightarrow> response + string option) \<Rightarrow> (string \<Rightarrow> string + claims)
     \<Rightarrow> (request \<Rightarrow> store \<Rightarrow> 'r \<Rightarrow> (response \<times> store \<times> 'r) option)
     \<Rightarrow> request \<Rightarrow> store \<Rightarrow> 'r \<Rightarrow> (response \<times> store \<times> 'r) option" where
  "find_token_claims bearer decode next req s r =
     (case bearer (headers req) of
        Inl rejection \<Rightarrow> Some (rejection, s, r)
      | Inr None \<Rightarrow> next req s r
      | Inr (Some token) \<Rightarrow>
          (case decode token of
             Inl e \<Rightarrow> Some (into_response InvalidToken, s, r)
           | Inr c \<Rightarrow> next (req\<lparr>claims_ext := Some c\<rparr>) s r))"

definition init_router ::
    "(headers \<Rightarrow> response + string option) \<Rightarrow> (string \<Rightarrow> string + claims)
     \<Rightarrow> (request \<Rightarrow> response) \<Rightarrow> 'r redis_ops \<Rightarrow> net \<Rightarrow> times \<Rightarrow> notify
     \<Rightarrow> request \<Rightarrow> store \<Rightarrow> 'r \<Rightarrow> (response \<times> store \<times> 'r) option" where
  "init_router bearer decode fallback ops n tm nid req s r =
     (if path req = ''/consume''
      then find_token_claims bearer decode
             (if http_method req = ''POST'' then http_consume ops n tm nid
              else (\<lambda>req s r. Some (fallback req, s, r))) req s r
      else if path req = ''/health'' \<and> http_method req = ''GET''
      then Some (\<lparr>status = 200, out_headers = [], body = ''UP''\<rparr>, s, r)
      else Some (fallback req, s, r))"

section \<open>Extractors, branch by branch\<close>

lemma hostname_plain: "take 1 h \<noteq> ''['' \<Longrightarrow> hostname h = Some (takeWhile (\<lambda>c. c \<noteq> CHR '':'') h)"
  by (simp add: hostname_def split_str_first)

lemma hostname_bracket: "hostname (CHR ''['' # h) = Some (takeWhile (\<lambda>c. c \<noteq> CHR '']'') h)"
  using split_str_first [of "CHR '']''" "CHR ''['' # h"] by (simp add: hostname_def slice_from_def)

lemma takeWhile_both: "takeWhile P (takeWhile Q xs) = takeWhile (\<lambda>x. Q x \<and> P x) xs"
  by (induction xs) auto

text \<open>What the domain should be: the first label of the host, without brackets and port.\<close>
definition first_label :: "string \<Rightarrow> string" where
  "first_label h =
     (if take 1 h = ''['' then takeWhile (\<lambda>x. x \<notin> {CHR '']'', CHR ''.''}) (tl h)
      else takeWhile (\<lambda>x. x \<notin> {CHR '':'', CHR ''.''}) h)"

lemma domain_label: "domain h = Some (Some (first_label h))"
proof (cases "take 1 h = ''[''")
  case True
  then obtain cs where "h = CHR ''['' # cs" by (cases h) auto
  then show ?thesis
    by (simp add: domain_def hostname_bracket split_str_first takeWhile_both first_label_def)
next
  case False
  then show ?thesis
    by (simp add: domain_def hostname_plain split_str_first takeWhile_both first_label_def)
qed

section \<open>Properties\<close>

text \<open>
  What a request with the identity \<open>who\<close> is answered, with the store and Redis after it; \<open>None\<close> when it waits for
  a refill of its bucket that is under way.
\<close>
definition answered_for ::
    "'r redis_ops \<Rightarrow> net \<Rightarrow> times \<Rightarrow> notify \<Rightarrow> http_error + bucket_id \<Rightarrow> request \<Rightarrow> store \<Rightarrow> 'r
     \<Rightarrow> (response \<times> store \<times> 'r) option \<Rightarrow> bool" where
  "answered_for ops n tm nid who req s r answer \<longleftrightarrow>
     (case host_from_parts req of
        Inl _ \<Rightarrow> \<exists>resp. answer = Some (resp, s, r) \<and> status resp = 400
      | Inr host \<Rightarrow>
          (case who of
             Inl _ \<Rightarrow> \<exists>resp. answer = Some (resp, s, r) \<and> status resp = 401
           | Inr b_id \<Rightarrow>
               if first_label host \<notin> set (domains (cfg s)) then
                 \<exists>resp. answer = Some (resp, s, r) \<and> status resp = 200
               else if check (t_check tm) s b_id = Inr False \<and> refills s b_id \<noteq> None then answer = None
               else \<exists>resp out s' r'. answer = Some (resp, s', r') \<and>
                 consume ops n tm nid s r b_id = Some (out, s', r') \<and>
                 (case out of
                    Inr left \<Rightarrow> status resp = 200 \<and>
                      out_headers resp = [(''ratelimit'', ''r='' @ show_nat (unat left))]
                  | Inl (Exhausted _ wait) \<Rightarrow> status resp = 429 \<and>
                      out_headers resp = [(''retry-after'', show_nat (unat (as_secs wait)))]
                  | Inl (Cache _) \<Rightarrow> status resp = 500)))"

lemma http_consume_answers:
  "answered_for ops n tm nid (identifier_from_parts req) req s r (http_consume ops n tm nid req s r)"
proof -
  have host: "\<And>e. host_from_parts req = Inl e \<Longrightarrow> e = MissingHost"
    by (auto simp: host_from_parts_def split: option.splits if_splits)
  have ident: "\<And>e. identifier_from_parts req = Inl e \<Longrightarrow> e = Unauthorized"
    by (auto simp: identifier_from_parts_def split: option.splits)
  show ?thesis
  proof (cases "host_from_parts req")
    case (Inl e)
    then show ?thesis using host by (auto simp: http_consume_def into_response_def answered_for_def)
  next
    case h: (Inr host)
    show ?thesis
    proof (cases "identifier_from_parts req")
      case (Inl e)
      then show ?thesis using h ident by (auto simp: http_consume_def into_response_def answered_for_def)
    next
      case (Inr b)
      show ?thesis
      proof (cases "consume ops n tm nid s r b")
        case None
        then show ?thesis using h Inr consume_waits [of ops n tm nid s r b]
          by (simp add: http_consume_def domain_label should_handle_def ok_response_def answered_for_def)
      next
        case (Some x)
        moreover obtain out s' r' where "x = (out, s', r')" by (cases x)
        moreover note consume_waits [of ops n tm nid s r b]
        ultimately show ?thesis using h Inr
          by (auto simp: http_consume_def domain_label should_handle_def into_response_def ok_response_def
              RATE_LIMIT_HEADER_NAME_def answered_for_def split: sum.split store_error.split)
      qed
    qed
  qed
qed

text \<open>
  C27. The HTTP router answers every POST to /consume: with the rejection of an unusable
  \<open>Authorization\<close> header, with 400 for a token that does not decode, and neither
  touches the store; else for the identity that is the subject of the token, whatever address
  headers there are, or without a token that of the address: 400 without a usable host, 401
  without an identity, for a domain that is not handled 200 without consuming, and for a handled
  one 200 with the tokens left, 429 with the whole seconds to wait, or 500 when Redis fails, as
  \<open>consume\<close> ends. The one request it does not answer is one that waits: for a bucket
  that cannot be used while a refill entry is there for it.
\<close>

theorem http_answers:
  assumes "path req = ''/consume''" and "http_method req = ''POST''"
    and "answer = init_router bearer decode fallback ops n tm nid req s r"
  shows "case bearer (headers req) of
      Inl rejection \<Rightarrow> answer = Some (rejection, s, r)
    | Inr None \<Rightarrow> answered_for ops n tm nid (identifier_from_parts req) req s r answer
    | Inr (Some token) \<Rightarrow>
        (case decode token of
           Inl _ \<Rightarrow> \<exists>resp. answer = Some (resp, s, r) \<and> status resp = 400
         | Inr c \<Rightarrow> answered_for ops n tm nid (Inr (Protected (sub c))) req s r answer)"
proof (cases "bearer (headers req)")
  case (Inl rejection)
  then show ?thesis using assms by (simp add: init_router_def find_token_claims_def)
next
  case (Inr t)
  show ?thesis
  proof (cases t)
    case None
    then show ?thesis using Inr assms http_consume_answers [of ops n tm nid req s r]
      by (simp add: init_router_def find_token_claims_def)
  next
    case (Some token)
    show ?thesis
    proof (cases "decode token")
      case (Inl e)
      then show ?thesis using Inr Some assms
        by (simp add: init_router_def find_token_claims_def into_response_def)
    next
      case (Inr c)
      have "host_from_parts (req\<lparr>claims_ext := Some c\<rparr>) = host_from_parts req"
        "identifier_from_parts (req\<lparr>claims_ext := Some c\<rparr>) = Inr (Protected (sub c))"
        by (simp_all add: host_from_parts_def identifier_from_parts_def)
      then show ?thesis
        using \<open>bearer (headers req) = Inr t\<close> Some Inr assms
          http_consume_answers [of ops n tm nid "req\<lparr>claims_ext := Some c\<rparr>" s r]
        by (simp add: init_router_def find_token_claims_def answered_for_def)
    qed
  qed
qed

text \<open>The requests of the adapter's tests.\<close>

definition consume_request :: "headers \<Rightarrow> request" where
  "consume_request hs =
     \<lparr>http_method = ''POST'', path = ''/consume'',
      headers = hs @ [(X_FORWARDED_HOST, ''test-app.com'')], claims_ext = None\<rparr>"

lemmas http_eval =
  consume_request_def header_get_def to_str_def X_FORWARDED_HOST_def X_FORWARDED_FOR_def X_REAL_IP_def
  host_from_parts_def identifier_from_parts_def first_label_def

theorem http_answers_witness:
  "\<exists>resp s' r' out. init_router (\<lambda>_. Inr (Some ''x.y.z'')) (\<lambda>_. Inr \<lparr>sub = ''valera''\<rparr>) (\<lambda>_. ok_response [])
       mem_ops Delivered (sample_times 1) 0 (consume_request [(X_REAL_IP, ''89.28.75.89'')])
       (store_new small_config) (\<lambda>_. None) = Some (resp, s', r') \<and>
     consume mem_ops Delivered (sample_times 1) 0 (store_new small_config) (\<lambda>_. None)
       (Protected ''valera'') = Some (out, s', r')"
proof -
  let ?req = "consume_request [(X_REAL_IP, ''89.28.75.89'')]"
  have h: "host_from_parts ?req = Inr ''test-app.com''"
    by (simp add: http_eval)
  have d: "first_label ''test-app.com'' \<in> set (domains (cfg (store_new small_config)))"
    by (simp add: first_label_def store_new_def small_config_def)
  have start: "refills (store_new small_config) b = None" for b by (simp add: store_new_def)
  have post: "path ?req = ''/consume''" "http_method ?req = ''POST''" by (simp_all add: consume_request_def)
  from http_answers [OF post refl, of "\<lambda>_. Inr (Some ''x.y.z'')" "\<lambda>_. Inr \<lparr>sub = ''valera''\<rparr>"
      "\<lambda>_. ok_response []" mem_ops Delivered "sample_times 1" 0 "store_new small_config" "\<lambda>_. None"] h d start
  show ?thesis by (auto simp: answered_for_def)
qed

end
