(* ===== verification/Envoy.thy ===== *)
theory Envoy
  imports Http
begin

text \<open>
  The Envoy adapter (\<open>crates/envoy-adapter\<close>): the identity in a rate limit request, the service's
  \<open>consume\<close>, \<open>should_rate_limit\<close>, and the mapping of errors to a gRPC status, with the texts that the errors
  of the crates display. The last property compares the two adapters.
\<close>

section \<open>Messages\<close>

text \<open>The messages of the protocol as far as the adapter reads or sets their fields.\<close>

type_synonym entry = "string \<times> string"

record rate_limit_request =
  rl_domain :: string
  descriptors :: "entry list list"
  hits_addend :: u32

datatype code = Ok | OverLimit

record proto_duration =
  seconds :: i64
  nanos :: "32 word"

record descriptor_status =
  ds_code :: code
  limit_remaining :: u32
  duration_until_reset :: "proto_duration option"

record rate_limit_response =
  overall_code :: code
  statuses :: "descriptor_status list"

datatype envoy_error = Unauthenticated_user | IpMalformed | EStore store_error | ParseInt

datatype grpc_code = Unauthenticated | InvalidArgument | Internal

text \<open>A \<open>tonic::Status\<close>: code and message.\<close>
type_synonym grpc_status = "grpc_code \<times> string"

text \<open>\<open>Display\<close> of the cache's errors, of a duration in \<open>{:?}\<close>, and of the store's errors.\<close>

definition show_cache_error :: "cache_error \<Rightarrow> string" where
  "show_cache_error e =
     (case e of
        Redis m \<Rightarrow> ''Redis error occurred: '' @ m
      | KeyDoesNotExist k \<Rightarrow> ''Key '' @ k @ '' does not exist''
      | NoExpiration k \<Rightarrow> ''Key '' @ k @ '' does not have expiration''
      | Unexpected m \<Rightarrow> ''Unexpected redis error: '' @ m
      | NotFound k \<Rightarrow> ''Key '' @ k @ '' not found'')"

text \<open>The digits of \<open>n / 10^k\<close> after the point, without trailing zeros.\<close>
fun show_fraction :: "nat \<Rightarrow> nat \<Rightarrow> string" where
  "show_fraction 0 n = []"
| "show_fraction (Suc k) n =
     (if n = 0 then [] else digit_char (n div 10 ^ k) # show_fraction k (n mod 10 ^ k))"

definition show_decimal :: "nat \<Rightarrow> nat \<Rightarrow> nat \<Rightarrow> string" where
  "show_decimal whole k part =
     show_nat whole @ (if part = 0 then [] else CHR ''.'' # show_fraction k part)"

text \<open>The unit of microseconds is the micro sign, two bytes.\<close>
definition debug_duration :: "duration \<Rightarrow> string" where
  "debug_duration d =
     (let secs = d div 10 ^ 9; ns = d mod 10 ^ 9
      in if 0 < secs then show_decimal secs 9 ns @ ''s''
         else if 10 ^ 6 \<le> ns then show_decimal (ns div 10 ^ 6) 6 (ns mod 10 ^ 6) @ ''ms''
         else if 10 ^ 3 \<le> ns then show_decimal (ns div 10 ^ 3) 3 (ns mod 10 ^ 3) @ [CHR 0xC2, CHR 0xB5] @ ''s''
         else show_decimal ns 1 0 @ ''ns'')"

definition show_store_error :: "store_error \<Rightarrow> string" where
  "show_store_error e =
     (case e of
        Exhausted b wait \<Rightarrow>
          ''Bucket '' @ show_id b @ '' is exhausted, retry after: '' @ debug_duration wait
      | Cache c \<Rightarrow> show_cache_error c)"

definition status_of :: "envoy_error \<Rightarrow> grpc_status" where
  "status_of e =
     (case e of
        Unauthenticated_user \<Rightarrow> (Unauthenticated, ''Unauthenticated'')
      | IpMalformed \<Rightarrow> (InvalidArgument, ''IP Malformed'')
      | EStore err \<Rightarrow> (Internal, show_store_error err)
      | ParseInt \<Rightarrow> (Internal, ''out of range integral type conversion attempted''))"

section \<open>Identity\<close>

text \<open>The two loops of \<open>extract_identifier\<close>: a user ends both (\<open>Inl\<close>); else the address seen last.\<close>

fun scan_entries :: "entry list \<Rightarrow> string option \<Rightarrow> string + string option" where
  "scan_entries [] remote_ip = Inr remote_ip"
| "scan_entries ((key, value) # es) remote_ip =
     (if key = ''user_id'' then Inl value
      else if key = ''remote_address'' then scan_entries es (iter_next (split_str (CHR '','') value))
      else scan_entries es remote_ip)"

fun scan_descriptors :: "entry list list \<Rightarrow> string option \<Rightarrow> string + string option" where
  "scan_descriptors [] remote_ip = Inr remote_ip"
| "scan_descriptors (d # ds) remote_ip =
     (case scan_entries d remote_ip of
        Inl user \<Rightarrow> Inl user
      | Inr remote_ip' \<Rightarrow> scan_descriptors ds remote_ip')"

definition extract_identifier :: "rate_limit_request \<Rightarrow> envoy_error + bucket_id" where
  "extract_identifier req =
     (case scan_descriptors (descriptors req) None of
        Inl user \<Rightarrow> Inr (Protected user)
      | Inr (Some s) \<Rightarrow> (case parse_ip s of None \<Rightarrow> Inl IpMalformed | Some ip \<Rightarrow> Inr (Public ip))
      | Inr None \<Rightarrow> Inl Unauthenticated_user)"

section \<open>Service\<close>

definition u32_try_from :: "u64 \<Rightarrow> u32 option" where
  "u32_try_from n = (if unat n < 2 ^ 32 then Some (of_nat (unat n)) else None)"

definition envoy_response :: "store_error + u64 \<Rightarrow> envoy_error + rate_limit_response" where
  "envoy_response out =
     (case out of
        Inr tokens_left \<Rightarrow>
          (case u32_try_from tokens_left of
             None \<Rightarrow> Inl ParseInt
           | Some n \<Rightarrow> Inr \<lparr>overall_code = Ok, statuses =
               [\<lparr>ds_code = Ok, limit_remaining = n, duration_until_reset = None\<rparr>]\<rparr>)
      | Inl (Exhausted _ retry_after) \<Rightarrow>
          Inr \<lparr>overall_code = OverLimit, statuses =
            [\<lparr>ds_code = OverLimit, limit_remaining = 0, duration_until_reset =
                Some \<lparr>seconds = as_secs retry_after, nanos = subsec_nanos retry_after\<rparr>\<rparr>]\<rparr>
      | Inl e \<Rightarrow> Inl (EStore e))"

text \<open>\<open>Service::consume\<close>; \<open>None\<close> when the store never returns.\<close>
definition service_consume ::
    "'r redis_ops \<Rightarrow> net \<Rightarrow> times \<Rightarrow> notify \<Rightarrow> store \<Rightarrow> 'r \<Rightarrow> bucket_id
     \<Rightarrow> ((envoy_error + rate_limit_response) \<times> store \<times> 'r) option" where
  "service_consume ops n tm nid s r b_id =
     (case consume ops n tm nid s r b_id of
        None \<Rightarrow> None
      | Some (out, s', r') \<Rightarrow> Some (envoy_response out, s', r'))"

definition should_rate_limit ::
    "'r redis_ops \<Rightarrow> net \<Rightarrow> times \<Rightarrow> notify \<Rightarrow> rate_limit_request \<Rightarrow> store \<Rightarrow> 'r
     \<Rightarrow> ((grpc_status + rate_limit_response) \<times> store \<times> 'r) option" where
  "should_rate_limit ops n tm nid req s r =
     (if should_handle s (rl_domain req) then
        (case extract_identifier req of
           Inl e \<Rightarrow> Some (Inl (status_of e), s, r)
         | Inr b_id \<Rightarrow>
             (case service_consume ops n tm nid s r b_id of
                None \<Rightarrow> None
              | Some (Inl e, s', r') \<Rightarrow> Some (Inl (status_of e), s', r')
              | Some (Inr resp, s', r') \<Rightarrow> Some (Inr resp, s', r')))
      else Some (Inr \<lparr>overall_code = Ok, statuses = []\<rparr>, s, r))"

section \<open>The identity, as a search\<close>

lemma scan_entries_user:
  "scan_entries es ip =
     (case filter (\<lambda>(k, v). k = ''user_id'') es of
        (k, v) # _ \<Rightarrow> Inl v
      | [] \<Rightarrow> Inr (case filter (\<lambda>(k, v). k = ''remote_address'') es of
                   [] \<Rightarrow> ip
                 | rs \<Rightarrow> Some (takeWhile (\<lambda>c. c \<noteq> CHR '','') (snd (last rs)))))"
proof (induction es ip rule: scan_entries.induct)
  case (2 key v es ip)
  then show ?case
    by (auto simp: split_str_first split: list.splits)
qed simp

lemma scan_descriptors_concat: "scan_descriptors ds ip = scan_entries (concat ds) ip"
proof (induction ds arbitrary: ip)
  case (Cons d ds)
  have "scan_entries (xs @ ys) ip =
      (case scan_entries xs ip of Inl u \<Rightarrow> Inl u | Inr ip' \<Rightarrow> scan_entries ys ip')" for xs ys ip
    by (induction xs ip rule: scan_entries.induct) auto
  then show ?case using Cons by (simp split: sum.split)
qed simp

section \<open>Properties\<close>

text \<open>
  C29. The nested loops of \<open>extract_identifier\<close> are a search: the first
  \<open>user_id\<close> of all descriptors wins wherever it stands; without one, the first
  comma-separated piece of the last \<open>remote_address\<close> is parsed.
\<close>

theorem identity_search:
  "extract_identifier req =
    (let es = concat (descriptors req)
     in (case filter (\<lambda>(k, v). k = ''user_id'') es of
           (k, user) # _ \<Rightarrow> Inr (Protected user)
         | [] \<Rightarrow>
             (case filter (\<lambda>(k, v). k = ''remote_address'') es of
                [] \<Rightarrow> Inl Unauthenticated_user
              | rs \<Rightarrow> (case parse_ip (takeWhile (\<lambda>c. c \<noteq> CHR '','') (snd (last rs))) of
                        None \<Rightarrow> Inl IpMalformed | Some ip \<Rightarrow> Inr (Public ip)))))"
  by (simp add: extract_identifier_def scan_descriptors_concat scan_entries_user Let_def split: list.split)

section \<open>Addresses\<close>

lemma to_str_append: "to_str (s @ t) = (if to_str s = None \<or> to_str t = None then None else Some (s @ t))"
  by (auto simp: to_str_def)

lemma to_str_show_ip: "to_str (show_ip ip) = Some (show_ip ip)"
proof -
  have "\<forall>c\<in>address_chars. let n = of_char c :: nat in 32 \<le> n \<and> n < 127 \<or> n = 9"
    by (simp add: address_chars_def)
  then show ?thesis using set_show_ip [of ip] unfolding to_str_def list_all_iff by force
qed

lemma first_piece_show_ip:
  assumes "rest = [] \<or> hd rest = CHR '',''"
  shows "iter_next (split_str (CHR '','') (show_ip ip @ rest)) = Some (show_ip ip)"
proof -
  have "CHR '','' \<notin> address_chars" by (simp add: address_chars_def)
  then have "\<forall>x\<in>set (show_ip ip). x \<noteq> CHR '',''" using set_show_ip [of ip] by blast
  then have "takeWhile (\<lambda>x. x \<noteq> CHR '','') (show_ip ip @ rest) =
      show_ip ip @ takeWhile (\<lambda>x. x \<noteq> CHR '','') rest" by (intro takeWhile_append2) blast
  then show ?thesis using assms by (cases rest) (simp_all add: split_str_first)
qed

text \<open>
  C39. A client address survives the way through a request: where \<open>x-forwarded-for\<close>
  (HTTP) or \<open>remote_address\<close> (Envoy) begins with an address as
  \<open>Display\<close> shows it, IPv4, IPv6 with or without a compressed run of zeros, or
  IPv4-mapped, alone or before a comma, both adapters find the public bucket of exactly that
  address; and no other bucket has its Redis key.
\<close>

theorem address_read_back:
  assumes "claims_ext h = None" and "header_get (headers h) X_FORWARDED_FOR = Some (show_ip ip @ rest)"
    and "descriptors e = [[(''remote_address'', show_ip ip @ rest)]]"
    and "rest = [] \<or> hd rest = CHR '',''" and "to_str rest \<noteq> None"
  shows "identifier_from_parts h = Inr (Public ip) \<and> extract_identifier e = Inr (Public ip) \<and>
    (\<forall>b. to_key b = to_key (Public ip) \<longleftrightarrow> b = Public ip)"
proof -
  have "to_str (show_ip ip @ rest) = Some (show_ip ip @ rest)"
    using assms(5) to_str_show_ip [of ip] unfolding to_str_append by simp
  then show ?thesis
    using assms first_piece_show_ip [OF assms(4), of ip]
    by (simp add: identifier_from_parts_def extract_identifier_def del: to_key.simps)
qed

text \<open>
  C38. The Envoy adapter cannot report more than 2^32 - 1 tokens left: a request on an unexpired
  bucket with tokens that is not exhausted takes one, and is answered OK with what is left if
  that is at most 2^32 - 1, and else, with the token gone, with gRPC INTERNAL.
\<close>

theorem large_lease_is_an_error:
  assumes "should_handle s (rl_domain req)" and "extract_identifier req = Inr b"
    and "buckets s b = Some x" and "tokens x \<noteq> 0" and "\<not> exhausted x"
    and "t_check tm < expires_at x" and "t_spend tm < expires_at x"
  shows "\<exists>out s'. should_rate_limit ops n tm nid req s r = Some (out, s', r) \<and>
    buckets s' = (buckets s)(b \<mapsto> x\<lparr>tokens := tokens x - 1\<rparr>) \<and>
    (if 2 ^ 32 < unat (tokens x)
     then out = Inl (Internal, ''out of range integral type conversion attempted'')
     else \<exists>left. out = Inr \<lparr>overall_code = Ok, statuses =
            [\<lparr>ds_code = Ok, limit_remaining = left, duration_until_reset = None\<rparr>]\<rparr> \<and>
          Suc (unat left) = unat (tokens x))"
proof -
  have left: "Suc (unat (tokens x - 1)) = unat (tokens x)"
    using unat_dec [OF assms(4)] assms(4) by (simp add: unat_gt_0 Suc_pred)
  then have fits: "unat (tokens x - 1) < 2 ^ 32 \<longleftrightarrow> \<not> 2 ^ 32 < unat (tokens x)" by linarith
  have "unat (ucast (tokens x - 1) :: u32) = unat (tokens x - 1)" if "unat (tokens x - 1) < 2 ^ 32"
    using that by (simp add: unsigned_ucast_eq take_bit_nat_eq_self)
  then show ?thesis
    using assms fits left consume_hot [OF assms(3,5,4,6,7), of ops n nid r]
    by (simp add: should_rate_limit_def service_consume_def envoy_response_def u32_try_from_def status_of_def)
qed

text \<open>The requests of the adapter's tests.\<close>

definition for_sub :: "string \<Rightarrow> entry" where
  "for_sub s = (''user_id'', s)"

definition for_ip :: "string \<Rightarrow> entry" where
  "for_ip s = (''remote_address'', s)"

definition envoy_request :: "entry \<Rightarrow> rate_limit_request" where
  "envoy_request identity_descriptor =
     \<lparr>rl_domain = ''test-app'', descriptors = [[identity_descriptor]], hits_addend = 1\<rparr>"

theorem address_read_back_witness:
  "identifier_from_parts (consume_request [(X_FORWARDED_FOR, show_ip (V4 28 75 89 89) @ '', 1.1.1.1'')]) =
     Inr (Public (V4 28 75 89 89))"
proof -
  have "to_str '', 1.1.1.1'' \<noteq> None" by (simp add: to_str_def)
  then show ?thesis
    using address_read_back [of "consume_request [(X_FORWARDED_FOR, show_ip (V4 28 75 89 89) @ '', 1.1.1.1'')]"
        "V4 28 75 89 89" "'', 1.1.1.1''" "envoy_request (for_ip (show_ip (V4 28 75 89 89) @ '', 1.1.1.1''))"]
    by (simp add: consume_request_def envoy_request_def for_ip_def header_get_def)
qed

definition large_store :: store where
  "large_store = store_add 0 (store_new small_config) (Protected ''valera'') 5000000000 (from_secs 60)"

theorem large_lease_is_an_error_witness:
  "\<exists>s'. should_rate_limit mem_ops Delivered (sample_times 1) 0 (envoy_request (for_sub ''valera''))
     large_store (\<lambda>_. None) =
       Some (Inl (Internal, ''out of range integral type conversion attempted''), s', \<lambda>_. None)"
proof -
  have x: "buckets large_store (Protected ''valera'') = Some (bucket_new 0 5000000000 (from_secs 60) 0)"
    by (simp add: large_store_def store_add_def)
  have "should_handle large_store (rl_domain (envoy_request (for_sub ''valera'')))"
    by (simp add: should_handle_def large_store_def store_add_def store_new_def small_config_def envoy_request_def)
  moreover have "extract_identifier (envoy_request (for_sub ''valera'')) = Inr (Protected ''valera'')"
    by (simp add: extract_identifier_def envoy_request_def for_sub_def)
  ultimately show ?thesis
    using large_lease_is_an_error [OF _ _ x, of "envoy_request (for_sub ''valera'')" "sample_times 1"
        mem_ops Delivered 0 "\<lambda>_. None"]
    by (auto simp: bucket_new_def sample_times_def from_secs_def)
qed

text \<open>
  C28. The two adapters decide alike: for a request with the same domain and identity, HTTP
  answers 429 exactly when Envoy is told OVER_LIMIT, an HTTP 500 is a gRPC INTERNAL, an OK of
  Envoy is an HTTP 200, and both leave the store and Redis in the same state.
\<close>

theorem adapters_agree:
  assumes "host_from_parts h = Inr host" and "identifier_from_parts h = Inr b"
    and "rl_domain e = first_label host" and "extract_identifier e = Inr b"
    and "\<forall>b. refills s b = None"
  shows "\<exists>resp out s' r'. http_consume ops n tm nid h s r = Some (resp, s', r') \<and>
    should_rate_limit ops n tm nid e s r = Some (out, s', r') \<and>
    (status resp = 429 \<longleftrightarrow> (\<exists>m. out = Inr m \<and> overall_code m = OverLimit)) \<and>
    (status resp = 500 \<longrightarrow> (\<exists>m. out = Inl (Internal, m))) \<and>
    (\<forall>m. out = Inr m \<and> overall_code m = Ok \<longrightarrow> status resp = 200)"
proof (cases "should_handle s (rl_domain e)")
  case False
  then show ?thesis using assms
    by (simp add: http_consume_def should_rate_limit_def domain_label ok_response_def)
next
  case True
  obtain out s' r' where c: "consume ops n tm nid s r b = Some (out, s', r')"
    using consume_returns [of s b ops n tm nid r] assms(5) by auto
  show ?thesis
  proof (cases out)
    case (Inl err)
    then show ?thesis using assms True c
      by (cases err) (simp_all add: http_consume_def should_rate_limit_def service_consume_def
          domain_label envoy_response_def into_response_def status_of_def)
  next
    case (Inr left)
    then show ?thesis using assms True c
      by (cases "u32_try_from left") (simp_all add: http_consume_def should_rate_limit_def service_consume_def
          domain_label envoy_response_def ok_response_def status_of_def)
  qed
qed

theorem adapters_agree_witness:
  "\<exists>resp out s' r'. http_consume mem_ops (Request_Lost ''refused'') (sample_times 1) 0
       (consume_request [(X_FORWARDED_FOR, ''28.75.89.89'')]) (store_new small_config) (\<lambda>_. None) =
       Some (resp, s', r') \<and>
     should_rate_limit mem_ops (Request_Lost ''refused'') (sample_times 1) 0
       (envoy_request (for_ip ''28.75.89.89'')) (store_new small_config) (\<lambda>_. None) = Some (out, s', r') \<and>
     (status resp = 500 \<longrightarrow> (\<exists>m. out = Inl (Internal, m)))"
proof -
  have h: "host_from_parts (consume_request [(X_FORWARDED_FOR, ''28.75.89.89'')]) = Inr ''test-app.com''"
    "identifier_from_parts (consume_request [(X_FORWARDED_FOR, ''28.75.89.89'')]) = Inr (Public (V4 28 75 89 89))"
    by (simp_all add: http_eval parse_eval)
  have e: "rl_domain (envoy_request (for_ip ''28.75.89.89'')) = first_label ''test-app.com''"
    "extract_identifier (envoy_request (for_ip ''28.75.89.89'')) = Inr (Public (V4 28 75 89 89))"
    by (simp_all add: envoy_request_def for_ip_def first_label_def extract_identifier_def parse_eval)
  have "\<forall>b. refills (store_new small_config) b = None" by (simp add: store_new_def)
  from adapters_agree [OF h e this, of mem_ops "Request_Lost ''refused''" "sample_times 1" 0 "\<lambda>_. None"]
  show ?thesis by blast
qed

end
