(* ===== verification/Adapters.thy ===== *)
theory Adapters
  imports Server Envoy
begin

text \<open>
  From \<open>main\<close> to a response: \<open>start_http\<close> and \<open>start_envoy\<close> (\<open>app.rs\<close> of the adapters), \<open>main\<close> with the
  features it is built with, and whole sessions of requests through router, middleware, handler, store,
  scripts and Redis. Of the libraries, binding a socket and serving on it are parameters.
\<close>

section \<open>Starting an adapter\<close>

text \<open>
  \<open>TcpListener::bind\<close> takes the address as text, and resolves it itself. A panic is \<open>Inl\<close> with its
  message.
\<close>
definition start_http ::
    "(string \<Rightarrow> string option) \<Rightarrow> (string \<Rightarrow> string + 'l) \<Rightarrow> ('l \<Rightarrow> string + unit) \<Rightarrow> string + unit" where
  "start_http var bind serve_on =
     (let port = (case var ''HTTP_PORT'' of Some p \<Rightarrow> p | None \<Rightarrow> ''8000'')
      in (case bind (''0.0.0.0:'' @ port) of
            Inl e \<Rightarrow> Inl (''Failed to start application: '' @ e)
          | Inr listener \<Rightarrow>
              (case serve_on listener of
                 Inl e \<Rightarrow> Inl (''Failed to start application: '' @ e)
               | Inr _ \<Rightarrow> Inr ())))"

text \<open>
  \<open>str::parse::<SocketAddr>\<close> on a text that does not begin with a bracket: an IPv4 address, a colon and a
  port of decimal digits, leading zeros allowed.
\<close>
definition parse_socket :: "string \<Rightarrow> (ip_addr \<times> u16) option" where
  "parse_socket s =
     (case read_ipv4 s of
        None \<Rightarrow> None
      | Some (os, s1) \<Rightarrow>
          (case read_given_char (CHR '':'') s1 of
             None \<Rightarrow> None
           | Some s2 \<Rightarrow>
               (case read_number 10 (length s2) True 65535 s2 of
                  Some (p, []) \<Rightarrow> Some (v4_of os, of_nat p)
                | _ \<Rightarrow> None)))"

definition start_envoy ::
    "(string \<Rightarrow> string option) \<Rightarrow> (ip_addr \<times> u16 \<Rightarrow> string + unit) \<Rightarrow> string + unit" where
  "start_envoy var serve_on =
     (let port = (case var ''ENVOY_PORT'' of Some p \<Rightarrow> p | None \<Rightarrow> ''50051'')
      in (case parse_socket (''0.0.0.0:'' @ port) of
            None \<Rightarrow> Inl ''Failed to parse server address: AddrParseError(Socket)''
          | Some addr \<Rightarrow>
              (case serve_on addr of
                 Inl e \<Rightarrow> Inl (''Failed to start application: '' @ e)
               | Inr _ \<Rightarrow> Inr ())))"

text \<open>
  The level filter of the \<open>log\<close> library is read by it (\<open>level_of\<close>); \<open>Info\<close> is its level of that name.
\<close>
definition init_logger ::
    "(string \<Rightarrow> string option) \<Rightarrow> (string \<Rightarrow> 'lv option) \<Rightarrow> 'lv \<Rightarrow> ('lv \<Rightarrow> string + unit) \<Rightarrow> string + unit" where
  "init_logger var level_of Info term_init =
     (let rust_log = (case var ''RUST_LOG'' of Some v \<Rightarrow> v | None \<Rightarrow> ''info'');
          level = (case level_of rust_log of Some l \<Rightarrow> l | None \<Rightarrow> Info)
      in (case term_init level of
            Inl e \<Rightarrow> Inl (''Failed to initialize logger: '' @ e)
          | Inr _ \<Rightarrow> Inr ()))"

text \<open>
  \<open>main\<close> of a binary built with the features \<open>http\<close> and \<open>envoy\<close>; without either it does not compile
  (\<open>None\<close>). \<open>set_log\<close> sets up the logger. What is started gets the store, the connection and the channel.
\<close>
definition server_main ::
    "bool \<Rightarrow> bool \<Rightarrow> (string \<Rightarrow> string option) \<Rightarrow> ((string \<Rightarrow> string option) \<Rightarrow> string + unit)
     \<Rightarrow> (string \<Rightarrow> config_error + config)
     \<Rightarrow> (redis_config \<Rightarrow> string + 'con) \<Rightarrow> (store \<times> 'con \<times> bool \<Rightarrow> string + unit)
     \<Rightarrow> (store \<times> 'con \<times> bool \<Rightarrow> string + unit) \<Rightarrow> (start_error + unit) option" where
  "server_main http envoy var set_log get connect run_http run_envoy =
     (if \<not> http \<and> \<not> envoy then None
      else Some
        (case set_log var of
           Inl m \<Rightarrow> Inl (Panic m)
         | Inr _ \<Rightarrow>
             (case startup var get connect of
                Inl e \<Rightarrow> Inl e
              | Inr started \<Rightarrow>
                  (case (if envoy \<and> \<not> http then run_envoy started else Inr ()) of
                     Inl m \<Rightarrow> Inl (Panic m)
                   | Inr _ \<Rightarrow>
                       (case (if http \<and> \<not> envoy then run_http started else Inr ()) of
                          Inl m \<Rightarrow> Inl (Panic m)
                        | Inr _ \<Rightarrow> Inr ())))))"

section \<open>Sessions\<close>

text \<open>Requests handled one after the other, and their answers.\<close>

fun session :: "('q \<Rightarrow> store \<Rightarrow> 'r \<Rightarrow> ('a \<times> store \<times> 'r) option) \<Rightarrow> 'q list \<Rightarrow> store \<Rightarrow> 'r
    \<Rightarrow> ('a list \<times> store \<times> 'r) option" where
  "session handle [] s r = Some ([], s, r)"
| "session handle (q # qs) s r =
     (case handle q s r of
        None \<Rightarrow> None
      | Some (a, s', r') \<Rightarrow>
          (case session handle qs s' r' of
             None \<Rightarrow> None
           | Some (as, s'', r'') \<Rightarrow> Some (a # as, s'', r'')))"

definition http_handle ::
    "(headers \<Rightarrow> response + string option) \<Rightarrow> (string \<Rightarrow> string + claims) \<Rightarrow> (request \<Rightarrow> response)
     \<Rightarrow> 'r redis_ops \<Rightarrow> net \<times> times \<times> request \<Rightarrow> store \<Rightarrow> 'r \<Rightarrow> (response \<times> store \<times> 'r) option" where
  "http_handle bearer decode fallback ops q =
     (case q of (n, tm, req) \<Rightarrow> init_router bearer decode fallback ops n tm 0 req)"

definition envoy_handle ::
    "'r redis_ops \<Rightarrow> net \<times> times \<times> rate_limit_request \<Rightarrow> store \<Rightarrow> 'r
     \<Rightarrow> ((grpc_status + rate_limit_response) \<times> store \<times> 'r) option" where
  "envoy_handle ops q = (case q of (n, tm, req) \<Rightarrow> should_rate_limit ops n tm 0 req)"

text \<open>A POST to \<open>/consume\<close> for a host of the domain \<open>d\<close>, with the identity \<open>b\<close> by token or address.\<close>
definition asks ::
    "(headers \<Rightarrow> response + string option) \<Rightarrow> (string \<Rightarrow> string + claims) \<Rightarrow> string \<Rightarrow> bucket_id
     \<Rightarrow> request \<Rightarrow> bool" where
  "asks bearer decode d b req \<longleftrightarrow>
     path req = ''/consume'' \<and> http_method req = ''POST'' \<and>
     (case host_from_parts req of Inr host \<Rightarrow> first_label host = d | Inl _ \<Rightarrow> False) \<and>
     (case bearer (headers req) of
        Inl _ \<Rightarrow> False
      | Inr None \<Rightarrow> identifier_from_parts req = Inr b
      | Inr (Some token) \<Rightarrow> (case decode token of Inr c \<Rightarrow> b = Protected (sub c) | Inl _ \<Rightarrow> False))"

definition http_answer :: "store_error + u64 \<Rightarrow> response" where
  "http_answer out =
     (case out of Inr left \<Rightarrow> ok_response (''r='' @ show_nat (unat left)) | Inl e \<Rightarrow> into_response (Store e))"

lemma http_handle_asks:
  assumes "asks bearer decode d b req" and "should_handle s d"
  shows "http_handle bearer decode fallback ops (n, tm, req) s r =
    (case consume ops n tm 0 s r b of None \<Rightarrow> None | Some (out, s', r') \<Rightarrow> Some (http_answer out, s', r'))"
proof -
  obtain host where h: "host_from_parts req = Inr host" "first_label host = d"
    and p: "path req = ''/consume''" "http_method req = ''POST''"
    using assms(1) by (auto simp: asks_def split: sum.splits)
  have run: "http_consume ops n tm 0 req' s r =
      (case consume ops n tm 0 s r b of None \<Rightarrow> None | Some (out, s', r') \<Rightarrow> Some (http_answer out, s', r'))"
    if "host_from_parts req' = Inr host" "identifier_from_parts req' = Inr b" for req'
    using that h(2) assms(2)
    by (auto simp: http_consume_def domain_label http_answer_def split: option.split sum.split)
  show ?thesis
  proof (cases "bearer (headers req)")
    case (Inl e)
    then show ?thesis using assms(1) by (simp add: asks_def)
  next
    case (Inr t)
    show ?thesis
    proof (cases t)
      case None
      then show ?thesis using run [OF h(1)] assms(1) Inr p
        by (simp add: http_handle_def init_router_def find_token_claims_def asks_def)
    next
      case (Some token)
      then obtain c where c: "decode token = Inr c" "b = Protected (sub c)"
        using assms(1) Inr by (auto simp: asks_def split: sum.splits)
      let ?req = "req\<lparr>claims_ext := Some c\<rparr>"
      have "host_from_parts ?req = Inr host" "identifier_from_parts ?req = Inr b"
        using h(1) c by (simp_all add: host_from_parts_def identifier_from_parts_def)
      then show ?thesis using run [of ?req] Inr Some c p
        by (simp add: http_handle_def init_router_def find_token_claims_def)
    qed
  qed
qed

lemma consume_cfg:
  assumes "consume ops n tm nid s r b = Some (out, s', r')"
  shows "cfg s' = cfg s"
proof -
  have spend: "cfg st' = cfg st" if "spend now st b = (x, st')" for now x st st'
    using that by (auto simp: spend_def split: option.splits prod.splits if_splits)
  have reply: "cfg st' = cfg st" if "apply_lease now st b res = (x, st')" for now res x st st'
    using that apply_lease_cfg [of now st b res] by simp
  have lease: "cfg st' = cfg st" if "lease ops n tm st r b = (x, st', y)" for x st st' y
    using that by (auto simp: lease_def Let_def dest!: reply split: prod.splits)
  have "cfg st' = cfg s" if "ensure_refilled ops n tm nid s r b = Some (x, st', y)" for x st' y
    using that by (auto simp: ensure_refilled_def begin_refill_def end_refill_def dest!: lease
        split: sum.splits bool.splits option.splits prod.splits)
  then show ?thesis using assms
    by (auto simp: consume_def remove_bucket_def dest!: spend split: option.splits sum.splits prod.splits)
qed

lemma session_asks:
  assumes "\<forall>(tm, req)\<in>set qs. asks bearer decode d b req" and "should_handle s d"
  shows "session (http_handle bearer decode fallback ops) (map (\<lambda>(tm, req). (Delivered, tm, req)) qs) s r =
    (case serve ops b (map (\<lambda>(tm, req). (Delivered, tm)) qs) s r of
       None \<Rightarrow> None | Some (outs, s', r') \<Rightarrow> Some (map http_answer outs, s', r'))"
  using assms
proof (induction qs arbitrary: s r)
  case (Cons q qs)
  obtain tm req where q: "q = (tm, req)" by (cases q)
  have ask: "asks bearer decode d b req" using Cons.prems(1) q by simp
  show ?case
  proof (cases "consume ops Delivered tm 0 s r b")
    case None
    then show ?thesis using http_handle_asks [OF ask Cons.prems(2), of fallback ops] q by simp
  next
    case (Some res)
    obtain out s' r' where res: "res = (out, s', r')" by (cases res) auto
    have "should_handle s' d"
      using Cons.prems(2) consume_cfg [OF Some [unfolded res]] by (simp add: should_handle_def)
    then have "session (http_handle bearer decode fallback ops) (map (\<lambda>(tm, req). (Delivered, tm, req)) qs) s' r' =
      (case serve ops b (map (\<lambda>(tm, req). (Delivered, tm)) qs) s' r' of
         None \<Rightarrow> None | Some (outs, s', r') \<Rightarrow> Some (map http_answer outs, s', r'))"
      using Cons.prems(1) by (intro Cons.IH) auto
    then show ?thesis
      using http_handle_asks [OF ask Cons.prems(2), of fallback ops] Some res q by (auto split: option.splits)
  qed
qed simp

lemma http_answer_at:
  "http_answer (answer_at pol Q i) =
     ok_response (''r='' @ show_nat (leased_for (unat (lease_size pol)) Q (Suc i) - Suc i))"
  unfolding http_answer_def answer_at_def by (simp only: sum.case unat_of_nat_le [OF leased_for_left])

fun http_status :: "outcome \<Rightarrow> nat" where
  "http_status Admitted = 200"
| "http_status Refused = 429"
| "http_status Failed = 500"

lemma status_http_answer: "status (http_answer out) = http_status (outcome_of out)"
  by (cases out rule: outcome_of.cases) (simp_all add: http_answer_def ok_response_def into_response_def)

section \<open>Ports\<close>

lemma read_digits_span:
  "n + length s \<le> most \<Longrightarrow>
   read_digits b most n acc s =
     Some (n + length (takeWhile (digit b) s),
       foldl (\<lambda>a c. a * b + (case char_digit b c of None \<Rightarrow> 0 | Some d \<Rightarrow> d)) acc (takeWhile (digit b) s),
       dropWhile (digit b) s)"
  by (induction s arbitrary: n acc) (auto split: option.splits)

lemma read_number_all:
  "read_number 10 (length s) True hi s = Some (v, []) \<longleftrightarrow> read_dec s = Some v \<and> v \<le> hi"
proof (cases "list_all (digit 10) s")
  case True
  then have "read_digits 10 (length s) 0 0 s = Some (length s, base_val 10 s, [])"
    using read_digits_all [OF True, of 0 "length s" "[]" 0] by (simp add: base_val_def)
  then show ?thesis using True
    by (auto simp: read_number_def read_dec_def simp del: not_None_eq)
next
  case False
  then have "dropWhile (digit 10) s \<noteq> []"
    by (auto simp: list_all_iff simp del: not_None_eq)
  then show ?thesis using False
    by (simp add: read_number_def read_digits_span read_dec_def del: not_None_eq)
qed

lemma parse_socket_any:
  "parse_socket (''0.0.0.0:'' @ port) = Some a \<longleftrightarrow>
     (\<exists>n. read_dec port = Some n \<and> n \<le> 65535 \<and> a = (V4 0 0 0 0, of_nat n))"
proof -
  have "read_ipv4 (''0.0.0.0:'' @ port) = Some ([0, 0, 0, 0], CHR '':'' # port)"
    by (simp add: read_ipv4_def read_octets_numeral read_separator_def read_number_def char_digit_def)
  then have "parse_socket (''0.0.0.0:'' @ port) =
      (case read_number 10 (length port) True 65535 port of
         Some (p, []) \<Rightarrow> Some (V4 0 0 0 0, of_nat p) | _ \<Rightarrow> None)"
    by (auto simp: parse_socket_def v4_of_def split: option.split list.split)
  also have "\<dots> = Some a \<longleftrightarrow> (\<exists>n. read_number 10 (length port) True 65535 port = Some (n, []) \<and>
      a = (V4 0 0 0 0, of_nat n))"
    by (auto split: option.splits list.splits)
  finally show ?thesis by (simp add: read_number_all)
qed

section \<open>Properties\<close>

text \<open>
  C15. The quota as a client of the HTTP adapter sees it: of the POSTs to /consume for a handled
  host that carry one identity (by token or by address), served one after the other within a
  window through router, middleware, handler, store, script and Redis, the first
  \<open>quota\<close> are answered 200 with exactly the tokens left in the
  \<open>ratelimit\<close> header, and every later one 429.
\<close>

theorem http_quota_exact:
  assumes "redis_server ops live"
    and "counters_ok live r (t_server (fst q))" and "window_of live r (t_server (fst q)) b = None"
    and "buckets s b = None" and "refills s b = None" and "policy_for (cfg s) b = pol"
    and "lease_args 0 (lease_size pol) (quota pol) (reset_in pol)"
    and "e = t_server (fst q) + 1000 * uint (as_secs (reset_in pol))"
    and "e + 1000 * uint (as_secs (reset_in pol)) \<le> 2 ^ 53"
    and "window_run e D (t_server (fst q)) (map fst (q # qs))"
    and "\<forall>(tm, req)\<in>set (q # qs). asks bearer decode d b req" and "d \<in> set (domains (cfg s))"
  shows "\<exists>refused s' r'. session (http_handle bearer decode fallback ops)
      (map (\<lambda>(tm, req). (Delivered, tm, req)) (q # qs)) s r =
      Some (map (\<lambda>i. ok_response (''r='' @
          show_nat (leased_for (unat (lease_size pol)) (unat (quota pol)) (Suc i) - Suc i)))
        [0..<min (Suc (length qs)) (unat (quota pol))] @ refused, s', r') \<and>
    map status refused = replicate (Suc (length qs) - unat (quota pol)) 429"
proof -
  have run: "window_run e D (t_server (fst q)) (fst q # map fst qs)" using assms(10) by simp
  obtain refused s' r' where served: "serve ops b (map (Pair Delivered) (fst q # map fst qs)) s r =
      Some (map (answer_at pol (unat (quota pol))) [0..<min (Suc (length qs)) (unat (quota pol))] @ refused, s', r')"
    "map outcome_of refused = replicate (Suc (length qs) - unat (quota pol)) Refused"
    using redis_server.serve_quota [OF assms(1-9) run] by auto
  have args: "map (\<lambda>(tm, req). (Delivered, tm)) (q # qs) = map (Pair Delivered) (fst q # map fst qs)"
    by (auto simp: split_beta)
  have "should_handle s d" using assms(12) by (simp add: should_handle_def)
  from session_asks [OF assms(11) this, of fallback ops r]
  have "session (http_handle bearer decode fallback ops) (map (\<lambda>(tm, req). (Delivered, tm, req)) (q # qs)) s r =
      Some (map (\<lambda>i. ok_response (''r='' @
          show_nat (leased_for (unat (lease_size pol)) (unat (quota pol)) (Suc i) - Suc i)))
        [0..<min (Suc (length qs)) (unat (quota pol))] @ map http_answer refused, s', r')"
    unfolding args served by (simp only: option.case prod.case map_append map_map comp_def http_answer_at)
  moreover have "map status (map http_answer refused) = map http_status (map outcome_of refused)"
    by (simp add: status_http_answer)
  then have "map status (map http_answer refused) = replicate (Suc (length qs) - unat (quota pol)) 429"
    unfolding served(2) by simp
  ultimately show ?thesis by blast
qed

text \<open>Four requests from one address, of which three get in.\<close>

definition sample_posts :: "(times \<times> request) list" where
  "sample_posts = map (\<lambda>i. (sample_times i, consume_request [(X_REAL_IP, ''1.2.3.4'')])) [1, 2, 3, 4]"

theorem http_quota_exact_witness:
  "\<exists>refused s' r'. session (http_handle (\<lambda>_. Inr None) (\<lambda>_. Inl []) (\<lambda>_. ok_response []) mem_ops)
      (map (\<lambda>(tm, req). (Delivered, tm, req)) sample_posts) (store_new small_config) (\<lambda>_. None) =
      Some (map ok_response [''r=1'', ''r=0'', ''r=0''] @ refused, s', r') \<and>
    map status refused = [429]"
proof -
  let ?p = "public_policy small_config" and ?s = "store_new small_config"
  let ?b = "Public (V4 1 2 3 4)" and ?req = "consume_request [(X_REAL_IP, ''1.2.3.4'')]"
  let ?q = "(sample_times 1, ?req)"
  let ?qs = "map (\<lambda>i. (sample_times i, ?req)) [2, 3, 4]"
  have posts: "sample_posts = ?q # ?qs" by (simp add: sample_posts_def)
  have pol: "quota ?p = 3" "lease_size ?p = 2" "reset_in ?p = from_secs 60"
    by (simp_all add: small_config_def)
  have start: "counters_ok mem_live (\<lambda>_. None) (t_server (fst ?q))"
    "window_of mem_live (\<lambda>_. None) (t_server (fst ?q)) ?b = None"
    by (simp_all add: counters_ok_def mem_live_def window_of_def sample_times_def)
  have store: "buckets ?s ?b = None" "refills ?s ?b = None" "policy_for (cfg ?s) ?b = ?p"
    by (simp_all add: store_new_def)
  have args: "lease_args 0 (lease_size ?p) (quota ?p) (reset_in ?p)"
    by (simp add: lease_args_def pol)
  have e: "60001 = t_server (fst ?q) + 1000 * uint (as_secs (reset_in ?p))"
    "60001 + 1000 * uint (as_secs (reset_in ?p)) \<le> 2 ^ 53"
    by (simp_all add: pol sample_times_def)
  have run: "window_run 60001 100 (t_server (fst ?q)) (map fst (?q # ?qs))"
    by (simp add: sample_times_def)
  have "asks (\<lambda>_. Inr None) (\<lambda>_. Inl []) ''test-app'' ?b ?req"
    by (simp add: asks_def http_eval parse_eval)
  then have ask: "\<forall>(tm, req)\<in>set (?q # ?qs). asks (\<lambda>_. Inr None) (\<lambda>_. Inl []) ''test-app'' ?b req"
    by simp
  have d: "''test-app'' \<in> set (domains (cfg ?s))" by (simp add: store_new_def small_config_def)
  have sizes: "unat (quota ?p) = 3" "unat (lease_size ?p) = 2" "min (Suc (length ?qs)) 3 = 3"
    "Suc (length ?qs) - 3 = 1" "replicate 1 (429::nat) = [429]" by (simp_all add: pol)
  have answers: "map (\<lambda>i. ok_response (''r='' @ show_nat (leased_for 2 3 (Suc i) - Suc i))) [0..<3] =
      map ok_response [''r=1'', ''r=0'', ''r=0'']"
    by (simp add: leased_for_def upt_rec show_base.simps [of _ "Suc 0"] show_base.simps [of _ 0] digit_char_def)
  show ?thesis
    using http_quota_exact [OF mem.redis_server_axioms start store args e run ask d, of "\<lambda>_. ok_response []"]
    unfolding posts sizes answers .
qed

lemma envoy_address:
  "parse_socket (''0.0.0.0:'' @ port) =
    (case read_dec port of Some n \<Rightarrow> if n \<le> 65535 then Some (V4 0 0 0 0, of_nat n) else None | None \<Rightarrow> None)"
  using parse_socket_any [of port] by (cases "parse_socket (''0.0.0.0:'' @ port)") (auto split: option.split)

lemma start_envoy_ends:
  "start_envoy var run_envoy =
    (case read_dec (case var ''ENVOY_PORT'' of Some p \<Rightarrow> p | None \<Rightarrow> ''50051'') of
       Some n \<Rightarrow>
         if n \<le> 65535 then (case run_envoy (V4 0 0 0 0, of_nat n) of
           Inl e \<Rightarrow> Inl (''Failed to start application: '' @ e) | Inr _ \<Rightarrow> Inr ())
         else Inl ''Failed to parse server address: AddrParseError(Socket)''
     | None \<Rightarrow> Inl ''Failed to parse server address: AddrParseError(Socket)'')"
  unfolding start_envoy_def Let_def envoy_address by (auto split: option.split)

text \<open>
  C33. What \<open>main\<close> ends with: a panic when the logger, set to the level named by
  RUST_LOG or to Info, cannot be set up, before anything else is read; the error of a startup
  that fails; then, built for HTTP it serves on HTTP_PORT or 8000, built for Envoy on ENVOY_PORT
  or 50051, which must be a decimal number up to 65535, and a failure to bind or serve panics;
  built with both features it serves nothing and returns successfully.
\<close>

theorem main_serves:
  assumes "http \<or> envoy"
    and "server = server_main http envoy var (\<lambda>var. init_logger var level_of Info term_init) get connect
      (\<lambda>_. start_http var bind run_http) (\<lambda>_. start_envoy var run_envoy)"
  shows "server = Some
    (case term_init (case level_of (case var ''RUST_LOG'' of Some v \<Rightarrow> v | None \<Rightarrow> ''info'') of
         Some l \<Rightarrow> l | None \<Rightarrow> Info) of
       Inl e \<Rightarrow> Inl (Panic (''Failed to initialize logger: '' @ e))
     | Inr _ \<Rightarrow>
         (case startup var get connect of
            Inl e \<Rightarrow> Inl e
          | Inr _ \<Rightarrow>
              if http \<and> envoy then Inr ()
              else if http then
                (case bind (''0.0.0.0:'' @ (case var ''HTTP_PORT'' of Some p \<Rightarrow> p | None \<Rightarrow> ''8000'')) of
                   Inl e \<Rightarrow> Inl (Panic (''Failed to start application: '' @ e))
                 | Inr l \<Rightarrow> (case run_http l of
                     Inl e \<Rightarrow> Inl (Panic (''Failed to start application: '' @ e)) | Inr _ \<Rightarrow> Inr ()))
              else
                (case read_dec (case var ''ENVOY_PORT'' of Some p \<Rightarrow> p | None \<Rightarrow> ''50051'') of
                   Some n \<Rightarrow>
                     if n \<le> 65535 then (case run_envoy (V4 0 0 0 0, of_nat n) of
                       Inl e \<Rightarrow> Inl (Panic (''Failed to start application: '' @ e)) | Inr _ \<Rightarrow> Inr ())
                     else Inl (Panic ''Failed to parse server address: AddrParseError(Socket)'')
                 | None \<Rightarrow> Inl (Panic ''Failed to parse server address: AddrParseError(Socket)''))))"
proof -
  have choice: "http \<and> envoy \<or> http \<and> \<not> envoy \<or> \<not> http \<and> envoy" using assms(1) by blast
  define port where "port = (case var ''ENVOY_PORT'' of Some p \<Rightarrow> p | None \<Rightarrow> ''50051'')"
  define level where "level = (case level_of (case var ''RUST_LOG'' of Some v \<Rightarrow> v | None \<Rightarrow> ''info'') of
      Some l \<Rightarrow> l | None \<Rightarrow> Info)"
  note main = assms(2) server_main_def init_logger_def start_envoy_ends start_http_def Let_def
    port_def [symmetric] level_def [symmetric]
  show ?thesis
  proof (cases "term_init level")
    case (Inl e)
    then show ?thesis using choice unfolding main by auto
  next
    case log: (Inr u)
    show ?thesis
    proof (cases "startup var get connect")
      case (Inl e)
      then show ?thesis using choice log unfolding main by auto
    next
      case (Inr started)
      from choice show ?thesis
        unfolding main log Inr sum.case by (elim disjE conjE) (simp_all split: sum.split option.split)
    qed
  qed
qed

text \<open>Only the path of the configuration is set.\<close>
definition only_path :: "string \<Rightarrow> string option" where
  "only_path v = (if v = ''CFG_PATH'' then Some ''static/config.json'' else None)"

theorem main_serves_witness:
  "server_main True False only_path
     (\<lambda>var. init_logger var (\<lambda>l. if l = ''info'' then Some (3::nat) else None) 0 (\<lambda>l. if l = 3 then Inr () else Inl ''0''))
     (get_config Inr (\<lambda>_. Inr (raw_config 100))) (\<lambda>c. Inr (redis_url c))
     (\<lambda>_. start_http only_path (\<lambda>addr. Inl (addr @ '' in use'')) (\<lambda>_::nat. Inr ()))
     (\<lambda>_. start_envoy only_path (\<lambda>_. Inr ())) =
   Some (Inl (Panic ''Failed to start application: 0.0.0.0:8000 in use''))"
proof -
  obtain started where "startup only_path (get_config Inr (\<lambda>_. Inr (raw_config 100))) (\<lambda>c. Inr (redis_url c)) = Inr started"
    by (simp add: startup_def get_config_def config_from_raw_def policy_try_from_def raw_config_def
        raw_policy_def word_le_nat_alt word_less_nat_alt only_path_def)
  moreover have "only_path ''RUST_LOG'' = None" "only_path ''HTTP_PORT'' = None" by (simp_all add: only_path_def)
  ultimately show ?thesis by (subst main_serves [OF _ refl]) simp_all
qed

end
