(* ===== verification/Scenarios.thy ===== *)
theory Scenarios
  imports Adapters
begin

text \<open>
  The repository's own tests, as runs of the model: each definition sets up what the test of its name sets
  up, sends what it sends, and is true when the test's assertions hold. Redis is the server in memory that
  stands for the test container, and requests come ten milliseconds apart.
\<close>

section \<open>Fixtures\<close>

definition TEST_DOMAIN :: string where "TEST_DOMAIN = ''test-app''"
definition TEST_USER :: string where "TEST_USER = ''valera''"

text \<open>\<open>init_store\<close>: a fresh Redis and store, and whether there is a channel.\<close>
definition init_store :: "config \<Rightarrow> store \<times> mem \<times> bool" where
  "init_store c = (store_new c, Map.empty, enabled (cleanup c))"

text \<open>The \<open>get\<close> script of the test helpers.\<close>
definition get_script :: "'r redis_ops \<Rightarrow> 'r \<Rightarrow> int \<Rightarrow> bucket_id \<Rightarrow> string + int option" where
  "get_script ops r t b_id =
     (case redis_get ops r t (to_key b_id) of
        Inl e \<Rightarrow> Inl e
      | Inr None \<Rightarrow> Inr None
      | Inr (Some v) \<Rightarrow> Inr (lua_tonumber ops v))"

text \<open>The clock readings of the \<open>i\<close>th request, local ones in nanoseconds.\<close>
definition test_times :: "nat \<Rightarrow> times" where
  "test_times i =
     (let t = i * 10 ^ 7
      in \<lparr>t_check = t, t_started = t + 10, t_server = int (10 * i), t_elapsed = t + 20, t_reply = t + 30,
          t_spend = t + 40\<rparr>)"

text \<open>Requests one after the other.\<close>
fun timed :: "nat \<Rightarrow> 'q list \<Rightarrow> (net \<times> times \<times> 'q) list" where
  "timed i [] = []"
| "timed i (q # qs) = (Delivered, test_times i, q) # timed (Suc i) qs"

section \<open>HTTP adapter\<close>

definition TEST_TOKEN :: string where
  "TEST_TOKEN = ''Bearer eyJhbGciOiJIUzI1NiIsInR5cCI6IkpXVCJ9.'' @
     ''eyJzdWIiOiJ2YWxlcmEiLCJuYW1lIjoiVmFsZXJhIFBhcnRpemFuIiwiYWRtaW4iOnRydWUsImlhdCI6MTUxNjIzOTAyMn0.'' @
     ''aY8dzG8B4vl-IB2hYQ7E45FJdxwT8FECvsUlpZ16fH8''"

text \<open>
  What the libraries do with the requests of the tests: the header is read up to the token, and the token
  decodes to its claims.
\<close>
definition test_bearer :: "headers \<Rightarrow> response + string option" where
  "test_bearer hs =
     (case header_get hs ''authorization'' of
        None \<Rightarrow> Inr None
      | Some v \<Rightarrow> Inr (Some (drop 7 v)))"

definition test_decode :: "string \<Rightarrow> string + claims" where
  "test_decode t = (if t = drop 7 TEST_TOKEN then Inr \<lparr>sub = ''valera''\<rparr> else Inl ''InvalidToken'')"

text \<open>\<open>TestApp\<close>: what a fresh app with the configuration answers to the requests.\<close>
definition test_app :: "config \<Rightarrow> request list \<Rightarrow> response list" where
  "test_app c reqs =
     (case init_store c of (s, r, _) \<Rightarrow>
        (case session (http_handle test_bearer test_decode
                (\<lambda>_. \<lparr>status = 404, out_headers = [], body = []\<rparr>) mem_ops) (timed 1 reqs) s r of
           None \<Rightarrow> []
         | Some (answers, _, _) \<Rightarrow> answers))"

definition app_config :: config where
  "app_config = with_domain default_config TEST_DOMAIN"

definition post_token :: request where
  "post_token = consume_request [(''authorization'', TEST_TOKEN)]"

definition rate_header :: "response \<Rightarrow> string option" where
  "rate_header resp = header_get (out_headers resp) RATE_LIMIT_HEADER_NAME"

definition http_ok_on_consume_authorized :: bool where
  "http_ok_on_consume_authorized \<longleftrightarrow>
     (case test_app app_config [post_token] of
        [response] \<Rightarrow>
          status response = 200 \<and>
          rate_header response =
            Some (''r='' @ show_nat (unat (lease_size (protected_policy app_config) - 1)))
      | _ \<Rightarrow> False)"

definition http_ok_on_consume_public :: bool where
  "http_ok_on_consume_public \<longleftrightarrow>
     (let ip_headers =
        [(X_REAL_IP, ''89.28.75.89''), (X_REAL_IP, ''89.75.28.89''), (X_REAL_IP, ''::ffff:192.0.2.128''),
         (X_FORWARDED_FOR, ''28.75.89.89''), (X_FORWARDED_FOR, ''fe80::1, 2001:db8::1'')];
        responses = test_app app_config (map (\<lambda>h. consume_request [h]) ip_headers)
      in length responses = length ip_headers \<and>
         list_all (\<lambda>response.
           status response = 200 \<and>
           rate_header response =
             Some (''r='' @ show_nat (unat (lease_size (public_policy app_config) - 1)))) responses)"

definition http_fail_on_consume_public_malformed :: bool where
  "http_fail_on_consume_public_malformed \<longleftrightarrow>
     (let ip_headers =
        [(X_REAL_IP, []), (X_FORWARDED_FOR, ''1.2.3''), (X_REAL_IP, ''256.1.1.1''),
         (X_FORWARDED_FOR, ''1.2.3.4 ''), (X_FORWARDED_FOR, ''01.02.03.04''), (X_REAL_IP, ''1..3.4''),
         (X_REAL_IP, '':''), (X_FORWARDED_FOR, '':::''), (X_REAL_IP, ''2001::db8::1''),
         (X_FORWARDED_FOR, ''2001:dg8::1''), (X_FORWARDED_FOR, ''fe80::1%eth0''),
         (X_REAL_IP, ''::ffff:999.1.1.1''), (X_REAL_IP, ''12345::1'')];
        responses = test_app app_config (map (\<lambda>h. consume_request [h]) ip_headers)
      in length responses = length ip_headers \<and> list_all (\<lambda>response. status response = 401) responses)"

definition http_ok_on_subsequent_consume :: bool where
  "http_ok_on_subsequent_consume \<longleftrightarrow>
     (case test_app app_config [post_token, post_token] of
        [_, response] \<Rightarrow>
          status response = 200 \<and>
          rate_header response =
            Some (''r='' @ show_nat (unat (lease_size (protected_policy app_config) - 2)))
      | _ \<Rightarrow> False)"

definition http_fail_on_consume_unauthorized :: bool where
  "http_fail_on_consume_unauthorized \<longleftrightarrow>
     (case test_app app_config [consume_request []] of [response] \<Rightarrow> status response = 401 | _ \<Rightarrow> False)"

definition http_exhausted_when_no_quota_left :: bool where
  "http_exhausted_when_no_quota_left \<longleftrightarrow>
     (let config = with_protected_lease_size (with_protected_quota app_config 1) 1
      in (case test_app config [post_token, post_token] of
            [_, response] \<Rightarrow>
              status response = 429 \<and>
              header_get (out_headers response) ''retry-after'' =
                Some (show_nat (unat (as_secs
                  (saturating_sub (reset_in (protected_policy config)) (from_secs 1)))))
          | _ \<Rightarrow> False))"

definition http_lease_more_tokens :: bool where
  "http_lease_more_tokens \<longleftrightarrow>
     (let config = with_protected_lease_size (with_protected_quota app_config 5) 2;
          responses = test_app config [post_token, post_token, post_token]
      in map status responses = [200, 200, 200] \<and>
         map rate_header responses = [Some ''r=1'', Some ''r=0'', Some ''r=1''])"

definition http_unknown_domain :: bool where
  "http_unknown_domain \<longleftrightarrow>
     (case test_app default_config [post_token] of
        [response] \<Rightarrow> status response = 200 \<and> rate_header response = Some unknown_limit
      | _ \<Rightarrow> False)"

definition http_bad_request_when_missing_host :: bool where
  "http_bad_request_when_missing_host \<longleftrightarrow>
     (case test_app app_config
             [\<lparr>http_method = ''POST'', path = ''/consume'', headers = [(''authorization'', TEST_TOKEN)],
               claims_ext = None\<rparr>] of
        [response] \<Rightarrow> status response = 400
      | _ \<Rightarrow> False)"

section \<open>Envoy adapter\<close>

text \<open>What a fresh service with the configuration answers to the requests.\<close>
definition test_service :: "config \<Rightarrow> rate_limit_request list \<Rightarrow> (grpc_status + rate_limit_response) list" where
  "test_service c reqs =
     (case init_store c of (s, r, _) \<Rightarrow>
        (case session (envoy_handle mem_ops) (timed 1 reqs) s r of
           None \<Rightarrow> []
         | Some (answers, _, _) \<Rightarrow> answers))"

text \<open>The one status of an OK response, with so many tokens of a lease used.\<close>
definition ok_after :: "u32 \<Rightarrow> policy \<Rightarrow> grpc_status + rate_limit_response \<Rightarrow> bool" where
  "ok_after taken pol resp \<longleftrightarrow>
     (case (resp, u32_try_from (lease_size pol)) of
        (Inr r, Some n) \<Rightarrow>
          overall_code r = Ok \<and>
          statuses r = [\<lparr>ds_code = Ok, limit_remaining = n - taken, duration_until_reset = None\<rparr>]
      | _ \<Rightarrow> False)"

definition envoy_ok_on_consume_authorized :: bool where
  "envoy_ok_on_consume_authorized \<longleftrightarrow>
     (case test_service app_config [envoy_request (for_sub TEST_USER)] of
        [resp] \<Rightarrow> ok_after 1 (protected_policy app_config) resp
      | _ \<Rightarrow> False)"

definition envoy_ok_on_consume_public :: bool where
  "envoy_ok_on_consume_public \<longleftrightarrow>
     (let ip_headers =
        [''89.28.75.89'', ''89.75.28.89, 75.89.28.89'', ''::ffff:192.0.2.128'', ''fe80::1, 2001:db8::1''];
        resps = test_service app_config (map (\<lambda>ip. envoy_request (for_ip ip)) ip_headers)
      in length resps = length ip_headers \<and> list_all (ok_after 1 (public_policy app_config)) resps)"

definition envoy_fail_on_consume_public_malformed :: bool where
  "envoy_fail_on_consume_public_malformed \<longleftrightarrow>
     (let ip_headers =
        [[], ''1.2.3'', ''256.1.1.1'', ''1.2.3.4 '', ''01.02.03.04'', ''1..3.4'', '':'', '':::'',
         ''2001::db8::1'', ''2001:dg8::1'', ''fe80::1%eth0'', ''::ffff:999.1.1.1'', ''12345::1''];
        resps = test_service app_config (map (\<lambda>ip. envoy_request (for_ip ip)) ip_headers)
      in length resps = length ip_headers \<and>
         list_all (\<lambda>resp. case resp of Inl (c, _) \<Rightarrow> c = InvalidArgument | Inr _ \<Rightarrow> False) resps)"

definition envoy_ok_on_subsequent_consume :: bool where
  "envoy_ok_on_subsequent_consume \<longleftrightarrow>
     (case test_service app_config [envoy_request (for_sub TEST_USER), envoy_request (for_sub TEST_USER)] of
        [_, resp] \<Rightarrow> ok_after 2 (protected_policy app_config) resp
      | _ \<Rightarrow> False)"

definition envoy_fail_on_consume_unauthorized :: bool where
  "envoy_fail_on_consume_unauthorized \<longleftrightarrow>
     (case test_service app_config [\<lparr>rl_domain = TEST_DOMAIN, descriptors = [], hits_addend = 1\<rparr>] of
        [Inl (c, _)] \<Rightarrow> c = Unauthenticated
      | _ \<Rightarrow> False)"

definition envoy_over_limit_when_no_quota_left :: bool where
  "envoy_over_limit_when_no_quota_left \<longleftrightarrow>
     (let config = with_protected_lease_size (with_protected_quota app_config 1) 1;
          retry_after = saturating_sub (reset_in (protected_policy config)) (from_secs 1)
      in (case test_service config [envoy_request (for_sub TEST_USER), envoy_request (for_sub TEST_USER)] of
            [_, Inr r] \<Rightarrow>
              overall_code r = OverLimit \<and>
              (case statuses r of
                 [d_status] \<Rightarrow>
                   ds_code d_status = OverLimit \<and> limit_remaining d_status = 0 \<and>
                   (case duration_until_reset d_status of
                      None \<Rightarrow> False | Some d \<Rightarrow> seconds d = as_secs retry_after)
               | _ \<Rightarrow> False)
          | _ \<Rightarrow> False))"

definition envoy_lease_more_tokens :: bool where
  "envoy_lease_more_tokens \<longleftrightarrow>
     (let config = with_protected_lease_size (with_protected_quota app_config 5) 2
      in (case test_service config
                 [envoy_request (for_sub TEST_USER), envoy_request (for_sub TEST_USER),
                  envoy_request (for_sub TEST_USER)] of
            [_, _, Inr r] \<Rightarrow>
              overall_code r = Ok \<and>
              statuses r = [\<lparr>ds_code = Ok, limit_remaining = 1, duration_until_reset = None\<rparr>]
          | _ \<Rightarrow> False))"

definition envoy_unknown_domain :: bool where
  "envoy_unknown_domain \<longleftrightarrow>
     (case test_service default_config [envoy_request (for_sub TEST_USER)] of
        [Inr r] \<Rightarrow> overall_code r = Ok \<and> statuses r = []
      | _ \<Rightarrow> False)"

section \<open>Evaluation\<close>

lemmas serve_eval =
  consume_def ensure_refilled_def lease_def store_defs store_new_def cache_lease_def lease_request_def
  lease_invocation_def lease_script_def script_execute_def script_new_def script_key_def script_arg_def
  lease_answer_def lease_values_def mem_defs lua_number_arg_def lua_index_def lua_sub_def lua_round_def
  exact_def lease_table_def time_left_def bucket_consume_eq show_int_nat saturating_sub_def
  from_millis_def duration_since_def set_exhausted_def

lemmas config_eval =
  app_config_def with_domain_def default_config_def TEST_DOMAIN_def with_protected_lease_size_def
  with_protected_quota_def

lemma http_asks_token:
  "asks test_bearer test_decode ''test-app'' (Protected ''valera'') post_token"
  by (simp add: asks_def post_token_def test_bearer_def test_decode_def http_eval)

lemma http_handle_token:
  "should_handle s ''test-app'' \<Longrightarrow>
   http_handle test_bearer test_decode fallback ops (n, tm, post_token) s r =
    (case consume ops n tm 0 s r (Protected ''valera'') of
       None \<Rightarrow> None | Some (out, s', r') \<Rightarrow> Some (http_answer out, s', r'))"
  by (rule http_handle_asks [OF http_asks_token])

lemmas app_eval =
  test_app_def init_store_def http_handle_token should_handle_def config_eval serve_eval test_times_def
  http_answer_def ok_response_def into_response_def rate_header_def header_get_def

lemma show_digit: "0 \<le> d \<Longrightarrow> d < 10 \<Longrightarrow> show_int d = [digit_char (nat d)]"
  by (simp add: show_int_def show_base.simps [of _ "nat d"])

lemma http_authorized: "http_ok_on_consume_authorized"
  by (simp add: http_ok_on_consume_authorized_def app_eval)

lemma http_subsequent: "http_ok_on_subsequent_consume"
  by (simp add: http_ok_on_subsequent_consume_def app_eval)

lemma http_exhausted: "http_exhausted_when_no_quota_left"
proof -
  have "as_secs (from_secs 60 - from_secs 1) = 59" "as_secs 59989999990 = 59"
    by (simp_all add: from_secs_def as_secs_def)
  then show ?thesis by (simp add: http_exhausted_when_no_quota_left_def app_eval)
qed

lemma http_more: "http_lease_more_tokens"
  by (simp add: http_lease_more_tokens_def app_eval, simp add: show_digit digit_char_def)

lemma http_unknown: "http_unknown_domain"
  by (simp add: http_unknown_domain_def test_app_def init_store_def http_handle_def post_token_def
      init_router_def find_token_claims_def test_bearer_def test_decode_def http_eval domain_label
      http_consume_def should_handle_def default_config_def store_new_def ok_response_def rate_header_def)

lemma http_no_host: "http_bad_request_when_missing_host"
  by (simp add: http_bad_request_when_missing_host_def test_app_def init_store_def http_handle_def
      init_router_def find_token_claims_def test_bearer_def test_decode_def http_eval http_consume_def into_response_def)

lemma http_unauthorized: "http_fail_on_consume_unauthorized"
  by (simp add: http_fail_on_consume_unauthorized_def test_app_def init_store_def http_handle_def
      init_router_def find_token_claims_def test_bearer_def http_eval http_consume_def into_response_def)

lemma http_malformed: "http_fail_on_consume_public_malformed"
  by (simp add: http_fail_on_consume_public_malformed_def test_app_def init_store_def http_handle_def
      init_router_def find_token_claims_def test_bearer_def http_eval parse_eval http_consume_def into_response_def)

text \<open>A first request from an address.\<close>

lemma first_lease:
  assumes "r (to_key b) = None"
  shows "\<exists>w. cache_lease mem_ops Delivered r t st an b 100 500 (from_secs 3600) =
    (Inr (100, time_left st an 3600000, w), r(to_key b \<mapsto> (show_int 400, Some (t + 3600000))))"
  using assms
  by (simp add: cache_lease_def lease_request_def lease_invocation_def lease_script_def script_execute_def
      script_new_def script_key_def script_arg_def lease_answer_def lease_values_def mem_defs
      lua_number_arg_def lua_index_def lua_sub_def lua_round_def exact_def lease_table_def show_int_nat
      del: to_key.simps)

lemma first_from_address:
  assumes "cfg s = app_config" "buckets s (Public ip) = None" "refills s (Public ip) = None"
    and "r (to_key (Public ip)) = None"
  shows "\<exists>x v. consume mem_ops Delivered (test_times i) 0 s r (Public ip) =
    Some (Inr 99, s\<lparr>buckets := (buckets s)(Public ip \<mapsto> x)\<rparr>, r(to_key (Public ip) \<mapsto> v))"
proof -
  let ?tm = "test_times i"
  have chk: "check (t_check ?tm) s (Public ip) = Inr False" using assms(2) by (simp add: check_false_iff)
  have pol: "policy_for (cfg s) (Public ip) = public_policy app_config" using assms(1) by simp
  have sizes: "lease_size (public_policy app_config) = 100" "quota (public_policy app_config) = 500"
    "reset_in (public_policy app_config) = from_secs 3600" by (simp_all add: config_eval)
  obtain w where "cache_lease mem_ops Delivered r (t_server ?tm) (t_started ?tm) (t_elapsed ?tm) (Public ip)
      (lease_size (public_policy app_config)) (quota (public_policy app_config)) (reset_in (public_policy app_config)) =
      (Inr (100, time_left (t_started ?tm) (t_elapsed ?tm) 3600000, w),
        r(to_key (Public ip) \<mapsto> (show_int 400, Some (t_server ?tm + 3600000))))"
    using first_lease [where r = r and b = "Public ip"] assms(4) unfolding sizes by blast
  from consume_lease [OF chk assms(3) pol this, of 0] show ?thesis
    by (auto simp: apply_lease_def spend_def is_expired_def bucket_consume_eq sizes time_left_def
        from_millis_def duration_since_def saturating_sub_def test_times_def Let_def simp del: to_key.simps)
qed

text \<open>How a request is handled that is for the bucket \<open>b\<close> and gets as far as the store.\<close>
definition consumes ::
    "'r redis_ops \<Rightarrow> (net \<times> times \<times> 'q \<Rightarrow> store \<Rightarrow> 'r \<Rightarrow> ('a \<times> store \<times> 'r) option)
     \<Rightarrow> (store_error + u64 \<Rightarrow> 'a) \<Rightarrow> 'q \<Rightarrow> bucket_id \<Rightarrow> bool" where
  "consumes ops handle answer req b \<longleftrightarrow>
     (\<forall>n tm s r. should_handle s TEST_DOMAIN \<longrightarrow>
        handle (n, tm, req) s r =
          (case consume ops n tm 0 s r b of
             None \<Rightarrow> None | Some (out, s', r') \<Rightarrow> Some (answer out, s', r')))"

text \<open>The first requests of different addresses, one after the other.\<close>

lemma session_addresses:
  assumes "list_all (\<lambda>(req, ip). consumes mem_ops handle answer req (Public ip)) reqs"
    and "distinct (map snd reqs)" and "cfg s = app_config"
    and "\<forall>ip\<in>set (map snd reqs). buckets s (Public ip) = None \<and> r (to_key (Public ip)) = None"
    and "\<forall>ip. refills s (Public ip) = None"
  shows "\<exists>s' r'. session handle (timed i (map fst reqs)) s r = Some (map (\<lambda>_. answer (Inr 99)) reqs, s', r')"
  using assms
proof (induction reqs arbitrary: i s r)
  case (Cons q reqs)
  obtain req ip where q: "q = (req, ip)" by (cases q)
  have handled: "should_handle s TEST_DOMAIN" using Cons.prems(3) by (simp add: should_handle_def config_eval)
  obtain x v where "consume mem_ops Delivered (test_times i) 0 s r (Public ip) =
      Some (Inr 99, s\<lparr>buckets := (buckets s)(Public ip \<mapsto> x)\<rparr>, r(to_key (Public ip) \<mapsto> v))"
    using first_from_address [of s ip r i] Cons.prems q by auto
  then have first: "handle (Delivered, test_times i, req) s r =
      Some (answer (Inr 99), s\<lparr>buckets := (buckets s)(Public ip \<mapsto> x)\<rparr>, r(to_key (Public ip) \<mapsto> v))"
    using Cons.prems(1) q handled by (simp add: consumes_def)
  let ?s = "s\<lparr>buckets := (buckets s)(Public ip \<mapsto> x)\<rparr>" and ?r = "r(to_key (Public ip) \<mapsto> v)"
  have fresh: "\<forall>ip\<in>set (map snd reqs). buckets ?s (Public ip) = None \<and> ?r (to_key (Public ip)) = None"
    using Cons.prems(2,4) q by (auto simp del: to_key.simps)
  have "\<exists>s' r'. session handle (timed (Suc i) (map fst reqs)) ?s ?r =
      Some (map (\<lambda>_. answer (Inr 99)) reqs, s', r')"
    by (rule Cons.IH [OF _ _ _ fresh]) (use Cons.prems in auto)
  then obtain s' r' where
    "session handle (timed (Suc i) (map fst reqs)) ?s ?r = Some (map (\<lambda>_. answer (Inr 99)) reqs, s', r')"
    by blast
  then show ?case using first q by auto
qed simp

lemma http_consumes:
  "asks test_bearer test_decode TEST_DOMAIN b req \<Longrightarrow>
   consumes ops (http_handle test_bearer test_decode fallback ops) http_answer req b"
  by (simp add: consumes_def http_handle_asks)

lemma http_public: "http_ok_on_consume_public"
proof -
  let ?reqs = "[(consume_request [(X_REAL_IP, ''89.28.75.89'')], V4 89 28 75 89),
    (consume_request [(X_REAL_IP, ''89.75.28.89'')], V4 89 75 28 89),
    (consume_request [(X_REAL_IP, ''::ffff:192.0.2.128'')], V6 0 0 0 0 0 0xffff 0xc000 0x0280),
    (consume_request [(X_FORWARDED_FOR, ''28.75.89.89'')], V4 28 75 89 89),
    (consume_request [(X_FORWARDED_FOR, ''fe80::1, 2001:db8::1'')], V6 0xfe80 0 0 0 0 0 0 1)]"
  let ?h = "http_handle test_bearer test_decode (\<lambda>_. \<lparr>status = 404, out_headers = [], body = []\<rparr>) mem_ops"
  have "list_all (\<lambda>(req, ip). asks test_bearer test_decode TEST_DOMAIN (Public ip) req) ?reqs"
    by (simp add: asks_def test_bearer_def http_eval parse_eval TEST_DOMAIN_def)
  then have "list_all (\<lambda>(req, ip). consumes mem_ops ?h http_answer req (Public ip)) ?reqs"
    by (simp add: http_consumes)
  from session_addresses [OF this, of "store_new app_config" Map.empty 1]
  show ?thesis
    by (auto simp: http_ok_on_consume_public_def test_app_def init_store_def store_new_def http_answer_def
        ok_response_def rate_header_def header_get_def config_eval)
qed

subsection \<open>Envoy\<close>

definition envoy_answer :: "store_error + u64 \<Rightarrow> grpc_status + rate_limit_response" where
  "envoy_answer out = (case envoy_response out of Inl e \<Rightarrow> Inl (status_of e) | Inr resp \<Rightarrow> Inr resp)"

lemma envoy_consumes:
  "extract_identifier req = Inr b \<Longrightarrow> rl_domain req = TEST_DOMAIN \<Longrightarrow>
   consumes ops (envoy_handle ops) envoy_answer req b"
  by (auto simp: consumes_def envoy_handle_def should_rate_limit_def service_consume_def envoy_answer_def
      split: option.split sum.split)

lemmas request_eval =
  envoy_request_def for_sub_def for_ip_def extract_identifier_def TEST_DOMAIN_def TEST_USER_def

lemma envoy_handle_user:
  assumes "should_handle s TEST_DOMAIN"
  shows "envoy_handle ops (n, tm, envoy_request (for_sub TEST_USER)) s r =
    (case consume ops n tm 0 s r (Protected ''valera'') of
       None \<Rightarrow> None | Some (out, s', r') \<Rightarrow> Some (envoy_answer out, s', r'))"
proof -
  have "consumes ops (envoy_handle ops) envoy_answer (envoy_request (for_sub TEST_USER)) (Protected ''valera'')"
    by (rule envoy_consumes) (simp_all add: request_eval)
  then show ?thesis using assms by (simp add: consumes_def)
qed

lemmas service_eval =
  test_service_def init_store_def envoy_handle_user should_handle_def config_eval serve_eval test_times_def
  envoy_answer_def envoy_response_def ok_after_def u32_try_from_def

lemma envoy_authorized: "envoy_ok_on_consume_authorized"
  by (simp add: envoy_ok_on_consume_authorized_def service_eval)

lemma envoy_subsequent: "envoy_ok_on_subsequent_consume"
  by (simp add: envoy_ok_on_subsequent_consume_def service_eval)

lemma envoy_exhausted: "envoy_over_limit_when_no_quota_left"
proof -
  have "as_secs (from_secs 60 - from_secs 1) = 59" "as_secs 59989999990 = 59"
    by (simp_all add: from_secs_def as_secs_def)
  then show ?thesis by (simp add: envoy_over_limit_when_no_quota_left_def service_eval)
qed

lemma envoy_more: "envoy_lease_more_tokens"
  by (simp add: envoy_lease_more_tokens_def service_eval)

lemma envoy_unknown: "envoy_unknown_domain"
  by (simp add: envoy_unknown_domain_def test_service_def init_store_def envoy_handle_def should_rate_limit_def
      should_handle_def default_config_def store_new_def)

lemma envoy_unauthorized: "envoy_fail_on_consume_unauthorized"
  by (simp add: envoy_fail_on_consume_unauthorized_def test_service_def init_store_def envoy_handle_def
      should_rate_limit_def should_handle_def config_eval store_new_def extract_identifier_def status_of_def)

lemma envoy_malformed: "envoy_fail_on_consume_public_malformed"
  by (simp add: envoy_fail_on_consume_public_malformed_def test_service_def init_store_def envoy_handle_def
      should_rate_limit_def should_handle_def config_eval store_new_def request_eval parse_eval status_of_def)

lemma envoy_public: "envoy_ok_on_consume_public"
proof -
  let ?reqs = "[(envoy_request (for_ip ''89.28.75.89''), V4 89 28 75 89),
    (envoy_request (for_ip ''89.75.28.89, 75.89.28.89''), V4 89 75 28 89),
    (envoy_request (for_ip ''::ffff:192.0.2.128''), V6 0 0 0 0 0 0xffff 0xc000 0x0280),
    (envoy_request (for_ip ''fe80::1, 2001:db8::1''), V6 0xfe80 0 0 0 0 0 0 1)]"
  have "list_all (\<lambda>(req, ip). extract_identifier req = Inr (Public ip) \<and> rl_domain req = TEST_DOMAIN) ?reqs"
    by (simp add: request_eval parse_eval)
  then have "list_all (\<lambda>(req, ip). consumes mem_ops (envoy_handle mem_ops) envoy_answer req (Public ip)) ?reqs"
    by (simp add: envoy_consumes)
  from session_addresses [OF this, of "store_new app_config" Map.empty 1]
  show ?thesis
    by (auto simp: envoy_ok_on_consume_public_def test_service_def init_store_def store_new_def envoy_answer_def
        envoy_response_def ok_after_def u32_try_from_def config_eval)
qed

section \<open>Store\<close>

definition valera :: bucket_id where "valera = Protected ''valera''"
definition jora :: bucket_id where "jora = Protected ''jora''"
definition client :: bucket_id where "client = Public (V4 89 28 75 89)"

text \<open>A fresh store whose cleanup task has been spawned; the first tick of an interval comes at once.\<close>
definition spawned :: "config \<Rightarrow> store \<times> mem" where
  "spawned c = (case cleanup_task mem_ops [Interval_tick 0 []] (store_new c) Map.empty of (s, r, _) \<Rightarrow> (s, r))"

definition store_cleanup_on_tick :: bool where
  "store_cleanup_on_tick \<longleftrightarrow>
     (let config = with_protected_reset_in
            (with_cleanup default_config \<lparr>enabled = True, interval = from_millis 50\<rparr>) (from_millis 25)
      in (case spawned config of (s, r) \<Rightarrow>
            (let s1 = fold (\<lambda>b s. store_add 1000 s b (config_quota config b) (config_reset_in config b))
                        [valera, jora, client] s
             in (case cleanup_task mem_ops [Interval_tick (from_millis 50) [jora, client, valera]] s1 r of
                   (s2, _, _) \<Rightarrow>
                     check (from_millis 75) s2 valera = Inr False \<and>
                     check (from_millis 75) s2 jora = Inr False \<and>
                     check (from_millis 75) s2 client = Inr True))))"

definition store_shutdown_on_signal :: bool where
  "store_shutdown_on_signal \<longleftrightarrow>
     (let config = with_cleanup default_config \<lparr>enabled = True, interval = from_secs 60\<rparr>
      in (case spawned config of (s, r) \<Rightarrow>
            (case consume mem_ops Delivered (test_times 1) 0 s r valera of
               Some (Inr _, s1, r1) \<Rightarrow>
                 (case consume mem_ops Delivered (test_times 2) 1 s1 r1 client of
                    Some (Inr _, s2, r2) \<Rightarrow>
                      (case cleanup_task mem_ops
                              [Received Shutdown (from_millis 30) [client, valera]
                                 [(Delivered, 31), (Delivered, 32)]] s2 r2 of
                         (_, r3, Some CleanupComplete) \<Rightarrow>
                           get_script mem_ops r3 40 valera =
                             Inr (Some (uint (quota (protected_policy config) - 1))) \<and>
                           get_script mem_ops r3 41 client =
                             Inr (Some (uint (quota (public_policy config) - 1)))
                       | _ \<Rightarrow> False)
                  | _ \<Rightarrow> False)
             | _ \<Rightarrow> False)))"

definition store_not_outlive_redis_window :: bool where
  "store_not_outlive_redis_window \<longleftrightarrow>
     (case cache_lease mem_ops Delivered Map.empty 10 1000 2000 valera 10 100 (from_secs 1) of
        (Inr (_, ttl, _), _) \<Rightarrow> ttl < from_secs 1
      | _ \<Rightarrow> False)"

definition store_not_release_into_expired_window :: bool where
  "store_not_release_into_expired_window \<longleftrightarrow>
     (case cache_lease mem_ops Delivered Map.empty 10 1000 2000 valera 10 100 (from_secs 1) of
        (Inr (_, _, old_window), r) \<Rightarrow>
          (case cache_release mem_ops Delivered r 1111 valera 10 old_window of
             (Inr released, r') \<Rightarrow> \<not> released \<and> get_script mem_ops r' 1112 valera = Inr None
           | _ \<Rightarrow> False)
      | _ \<Rightarrow> False)"

definition store_not_release_into_newer_window :: bool where
  "store_not_release_into_newer_window \<longleftrightarrow>
     (case cache_lease mem_ops Delivered Map.empty 10 1000 2000 valera 10 100 (from_secs 1) of
        (Inr (_, _, old_window), r) \<Rightarrow>
          (case cache_lease mem_ops Delivered r 1111 3000 4000 valera 10 100 (from_secs 60) of
             (Inr _, r') \<Rightarrow>
               (case cache_release mem_ops Delivered r' 1112 valera 10 old_window of
                  (Inr released, r'') \<Rightarrow> \<not> released \<and> get_script mem_ops r'' 1113 valera = Inr (Some 90)
                | _ \<Rightarrow> False)
           | _ \<Rightarrow> False)
      | _ \<Rightarrow> False)"

lemma store_tick: "store_cleanup_on_tick"
proof -
  let ?x = "\<lambda>n ttl. bucket_new 1000 n ttl 0"
  let ?s = "\<lambda>c. \<lparr>buckets = [valera \<mapsto> ?x 10000 (from_millis 25), jora \<mapsto> ?x 10000 (from_millis 25),
      client \<mapsto> ?x 500 (from_secs 3600)], refills = Map.empty, cfg = c\<rparr>"
  have ids: "valera \<noteq> jora" "jora \<noteq> client" "valera \<noteq> client"
    by (simp_all add: valera_def jora_def client_def)
  then have "set [jora, client, valera] = dom (buckets (?s c))" for c by auto
  note tick = on_tick_buckets [OF this, of "from_millis 50"]
  have "check (from_millis 75) (on_tick (from_millis 50) [jora, client, valera] (?s c)) b =
      (if b = client then Inr True else Inr False)" if "b \<in> {valera, jora, client}" for b c
    unfolding check_def tick using that ids
    by (auto simp: is_expired_def is_exhausted_def is_empty_def from_millis_def from_secs_def)
  moreover have "config_quota c valera = quota (protected_policy c)" "config_quota c jora = quota (protected_policy c)"
    "config_quota c client = quota (public_policy c)" "config_reset_in c valera = reset_in (protected_policy c)"
    "config_reset_in c jora = reset_in (protected_policy c)" "config_reset_in c client = reset_in (public_policy c)"
    for c by (simp_all add: config_accessors valera_def jora_def client_def)
  ultimately show ?thesis using ids
    by (simp add: store_cleanup_on_tick_def spawned_def on_tick_def [of _ "[]"] store_add_def store_new_def
        with_cleanup_def with_protected_reset_in_def default_config_def)
qed

lemmas call_eval =
  get_script_def cache_release_def release_script_def release_value_def valera_def

lemma store_outlive: "store_not_outlive_redis_window"
  by (simp add: store_not_outlive_redis_window_def serve_eval call_eval, simp add: from_secs_def)

lemma store_expired: "store_not_release_into_expired_window"
  by (simp add: store_not_release_into_expired_window_def serve_eval call_eval)

lemma store_newer: "store_not_release_into_newer_window"
  by (simp add: store_not_release_into_newer_window_def serve_eval call_eval)

text \<open>The shutdown test, one call after the other.\<close>

lemma store_shutdown: "store_shutdown_on_signal"
proof -
  let ?c = "with_cleanup default_config \<lparr>enabled = True, interval = from_secs 60\<rparr>"
  let ?x = "(bucket_new 10000030 2000 (from_millis 60000 - 10) 60010)\<lparr>tokens := 1999\<rparr>"
  let ?y = "(bucket_new 20000030 100 (from_millis 3600000 - 10) 3600020)\<lparr>tokens := 99\<rparr>"
  let ?s = "\<lambda>m. \<lparr>buckets = m, refills = Map.empty, cfg = ?c\<rparr>"
  let ?k = "to_key valera" and ?l = "to_key client"
  have ids: "valera \<noteq> client" "client \<noteq> valera" by (simp_all add: valera_def client_def)
  have first: "consume mem_ops Delivered (test_times 1) 0 (?s Map.empty) Map.empty valera =
      Some (Inr 1999, ?s [valera \<mapsto> ?x], [?k \<mapsto> (show_int 8000, Some 60010)])"
    by (simp add: default_config_def with_cleanup_def test_times_def serve_eval valera_def del: to_key.simps)
  have second: "consume mem_ops Delivered (test_times 2) 1 (?s [valera \<mapsto> ?x]) [?k \<mapsto> (show_int 8000, Some 60010)]
      client = Some (Inr 99, ?s [valera \<mapsto> ?x, client \<mapsto> ?y],
        [?k \<mapsto> (show_int 8000, Some 60010), ?l \<mapsto> (show_int 400, Some 3600020)])"
    by (simp add: default_config_def with_cleanup_def test_times_def serve_eval valera_def client_def
        del: to_key.simps)
  have lots: "replenish (from_millis 30) (?s [valera \<mapsto> ?x, client \<mapsto> ?y]) [client, valera] =
      [(client, 99, 3600020), (valera, 1999, 60010)]"
    using ids by (simp add: replenish_def is_empty_def is_expired_def from_millis_def)
  have given: "cache_release mem_ops Delivered
        [?k \<mapsto> (show_int 8000, Some 60010), ?l \<mapsto> (show_int 400, Some 3600020)] 31 client 99 3600020 =
      (Inr True, [?k \<mapsto> (show_int 8000, Some 60010), ?l \<mapsto> (show_int 499, Some 3600020)])"
    "cache_release mem_ops Delivered
        [?k \<mapsto> (show_int 8000, Some 60010), ?l \<mapsto> (show_int 499, Some 3600020)] 32 valera 1999 60010 =
      (Inr True, [?k \<mapsto> (show_int 9999, Some 60010), ?l \<mapsto> (show_int 499, Some 3600020)])"
    by (simp_all add: ids serve_eval cache_release_def release_script_def release_value_def
        fun_upd_twist [of ?k ?l] del: to_key.simps)
  have "on_shutdown mem_ops (from_millis 30) [client, valera] [(Delivered, 31), (Delivered, 32)]
      (?s [valera \<mapsto> ?x, client \<mapsto> ?y])
      [?k \<mapsto> (show_int 8000, Some 60010), ?l \<mapsto> (show_int 400, Some 3600020)] =
      [?k \<mapsto> (show_int 9999, Some 60010), ?l \<mapsto> (show_int 499, Some 3600020)]"
    by (simp add: on_shutdown_def lots chunks_concat CHUNK_SIZE_def given del: to_key.simps)
  moreover have "spawned ?c = (?s Map.empty, Map.empty)"
    by (simp add: spawned_def on_tick_def store_new_def)
  moreover have "get_script mem_ops [?k \<mapsto> (show_int 9999, Some 60010), ?l \<mapsto> (show_int 499, Some 3600020)] 40 valera =
      Inr (Some 9999)"
    "get_script mem_ops [?k \<mapsto> (show_int 9999, Some 60010), ?l \<mapsto> (show_int 499, Some 3600020)] 41 client =
      Inr (Some 499)"
    using ids by (simp_all add: get_script_def mem_defs del: to_key.simps)
  moreover have "quota (protected_policy ?c) - 1 = 9999" "quota (public_policy ?c) - 1 = 499"
    by (simp_all add: with_cleanup_def default_config_def)
  ultimately show ?thesis
    by (simp add: store_shutdown_on_signal_def Let_def first second del: to_key.simps One_nat_def)
qed

section \<open>Configuration\<close>

text \<open>The policies of the fixtures, as the JSON reader yields them.\<close>
definition fixture :: "string list \<Rightarrow> u64 \<Rightarrow> unchecked_config" where
  "fixture ds l =
     \<lparr>u_domains = ds, u_cleanup = \<lparr>enabled = True, interval = from_secs 5\<rparr>,
      u_protected = \<lparr>u_criteria = Sub, u_quota = 10000, u_lease_size = 2000, u_reset_in = from_secs 600\<rparr>,
      u_public = \<lparr>u_criteria = Ip, u_quota = 500, u_lease_size = l, u_reset_in = from_secs 3600\<rparr>\<rparr>"

definition invalid_type_message :: string where
  "invalid_type_message = ''invalid type: string '' @ [CHR 0x22] @ ''600'' @ [CHR 0x22] @ '', expected u64''"

text \<open>The files of the tests, by path, and what the JSON reader makes of each.\<close>

definition fixture_read :: "string \<Rightarrow> string + string" where
  "fixture_read p =
     (if p \<in> {''tests/fixtures/valid.json'', ''tests/fixtures/invalid_type.json'',
              ''tests/fixtures/invalid_lease_size.json''}
      then Inr p else Inl ''NotFound'')"

definition fixture_parse :: "string \<Rightarrow> string + unchecked_config" where
  "fixture_parse content =
     (if content = ''tests/fixtures/valid.json'' then Inr (fixture [''test-app'', ''mock-api''] 100)
      else if content = ''tests/fixtures/invalid_lease_size.json'' then Inr (fixture [''test-app'', ''mock-api''] 501)
      else Inl invalid_type_message)"

abbreviation get_fixture :: "string \<Rightarrow> config_error + config" where
  "get_fixture name \<equiv> get_config fixture_read fixture_parse (''tests/fixtures/'' @ name)"

definition config_from_file :: bool where
  "config_from_file \<longleftrightarrow>
     get_fixture ''valid.json'' = Inr
       \<lparr>domains = [''test-app'', ''mock-api''], cleanup = \<lparr>enabled = True, interval = from_secs 5\<rparr>,
        protected_policy = \<lparr>criteria = Sub, quota = 10000, lease_size = 2000, reset_in = from_secs 600\<rparr>,
        public_policy = \<lparr>criteria = Ip, quota = 500, lease_size = 100, reset_in = from_secs 3600\<rparr>\<rparr>"

definition config_file_does_not_exist :: bool where
  "config_file_does_not_exist \<longleftrightarrow> get_fixture ''unknown.json'' = Inl (Io ''NotFound'')"

definition config_invalid_format :: bool where
  "config_invalid_format \<longleftrightarrow>
     get_fixture ''invalid_type.json'' = Inl (Json invalid_type_message)"

definition config_lease_size_exceeds_quota :: bool where
  "config_lease_size_exceeds_quota \<longleftrightarrow>
     (case get_fixture ''invalid_lease_size.json'' of
        Inl (Json e) \<Rightarrow> take 31 e = ''lease_size must be in 1..=quota''
      | _ \<Rightarrow> False)"

lemmas fixture_eval =
  get_config_def fixture_read_def fixture_parse_def fixture_def config_from_raw_def policy_try_from_def
  word_less_nat_alt word_le_nat_alt lease_size_message_def

lemma config_tests:
  "config_from_file" "config_file_does_not_exist" "config_invalid_format" "config_lease_size_exceeds_quota"
  by (simp_all add: config_from_file_def config_file_does_not_exist_def config_invalid_format_def
      config_lease_size_exceeds_quota_def fixture_eval)

end
