(* ===== verification/Spec2Isabelle.thy ===== *)
theory Spec2Isabelle
  imports Expiry Alone Bank Sections Wedged Stale Batches Isolation Scenarios
begin

text \<open>
  Verification development for \<^emph>\<open>That Limit\<close>, a distributed rate limiter: instances lease batches of tokens
  of a fixed window from Redis and spend them locally, behind an HTTP or an Envoy adapter.

  \<^bold>\<open>The program and its parts.\<close> An adapter (\<open>crates/http-adapter\<close>, \<open>crates/envoy-adapter\<close>) finds the
  identity of a request and asks the store (\<open>crates/core/src/store.rs\<close>) for a token. The store keeps one
  bucket per identity (\<open>bucket.rs\<close>) and, when a bucket is empty or expired, lets one request lease
  tokens with a Lua script (\<open>cache.rs\<close>, run by \<open>crates/cache\<close>) while the others wait. A cleanup task per instance
  removes expired buckets and on shutdown returns unspent tokens; \<open>crates/server\<close> starts all
  of it from a configuration (\<open>config.rs\<close>) and waits for the cleanup task when it stops.

  \<^bold>\<open>Theories\<close>, each importing those it needs:
  \<^item> \<open>Prelude\<close>: integers of the machine, durations and instants in nanoseconds, the string functions
    of the standard library, reachability, runs of transition functions, and the interface
    \<open>invariant_system\<close> of an inductive invariant.
  \<^item> \<open>Ip\<close>: \<open>std::net::IpAddr\<close>, shown and parsed. \<open>Bucket\<close>: \<open>bucket.rs\<close> and the Redis keys.
    \<open>Config\<close>: \<open>config.rs\<close> with its validation.
  \<^item> \<open>Redis\<close>: the commands of Redis the scripts call, as a record of functions over an abstract server
    state, and the interface \<open>redis_server\<close> with their documented behaviour; a server in memory
    satisfies it. \<open>Cache\<close>: the two Lua programs, the script runner of \<open>crates/cache/src/action.rs\<close>, and
    \<open>lease\<close> and \<open>release\<close>; every \<open>redis_server\<close> with them is a \<open>window_service\<close>, one counter per bucket.
  \<^item> \<open>Store\<close>: the operations of the store as sections on its two maps, and composed (\<open>consume\<close>) for a
    request that runs alone. \<open>Sections\<close>: those sections access by access, with other readers in between, under
    the guards of the shards of a \<open>DashMap\<close>.
  \<^item> \<open>System\<close>: the same sections as steps of concurrent requests at several instances, with their cleanup
    tasks and one Redis, under time, cancellation, lost calls and replies, and crashes; one
    transition function, \<open>fire\<close>.
  \<^item> \<open>Safety\<close>: where the tokens of a window are (\<open>used\<close>), the invariants \<open>well_formed\<close> and \<open>balanced\<close>, and
    that no more tokens are spent than a window has. \<open>Flight\<close>: single flight and isolation of buckets. \<open>Races\<close>:
    requests admitted without a token, and the lost wake-up. \<open>Expiry\<close>: the life of a local bucket against that
    of its window. \<open>Loss\<close>: that dropped tokens are gone, and the sweep that drops a bucket refilled since it was found
    expired. \<open>Stale\<close>: the refill that begins after another has ended, and drops its tokens or shuts its bucket.
    \<open>Conserve\<close>: all events that can drop tokens, and that without them a window's tokens add up to the quota.
    \<open>Batches\<close>: the tokens that instances keep from each other when a request is refused. \<open>Waiters\<close>: infinite runs
    with weak fairness, in which every waiting request is woken and every request ends. \<open>Wedged\<close>: infinite runs
    after a leasing request is dropped, in which every request for its bucket waits for good.
  \<^item> \<open>Alone\<close>: what a request does in the system by steps of its own alone is \<open>consume\<close>, and conversely.
    \<open>Rate\<close>: the tokens spent over any length of time. \<open>Isolation\<close>: that the requests for other
    buckets leave a bucket, its window and its requests alone. \<open>Bank\<close>: the abstract bank of
    tokens that the whole system is for each bucket.
  \<^item> \<open>Cleaner\<close>: the cleanup task as functions of the order of iteration, and the loop over what it receives.
    \<open>Shutdown\<close>: what its steps in the system give back, in any order and among whatever else goes on, and the
    tokens that are spent a second time after it. \<open>Server\<close>: startup, the settings of Redis, and the shutdown
    handshake as a step relation.
  \<^item> \<open>Http\<close>, \<open>Envoy\<close>: extractors, handlers, error mappings with their texts, router; the two adapters
    compared. \<open>Adapters\<close>: \<open>start_http\<close>, \<open>start_envoy\<close> and the rest of \<open>main\<close>, and sessions of requests from
    the router down to Redis. \<open>Scenarios\<close>: the tests of the crates, run in the model
    as a check of it; nothing rests on them.

  \<^bold>\<open>State.\<close> A \<open>DashMap\<close> is a function to options; what runs under one guard of it, and one atomic access, is
  one operation or step. The atomics of a bucket are fields of a record, taken to be sequentially consistent.
  That a section under a read guard is one step although it makes several accesses and reads the clock by itself is
  justified in \<open>Sections\<close>: but for two answers (\<open>stray\<close>), what it answers and changes is what the one step does at
  some moment while it ran, with a reading of the clock from while it ran. \<open>System\<close> reads the clock at that moment;
  in the code a bucket can still expire between the reading and the token taken. Every section ends. In \<open>Reply\<close>, the
  reading of the clock at the reply and the making of the bucket are one step with a \<open>gap\<close> of time between them, in
  which no other event falls: none could see a difference, since nothing shared is touched in between.
  A \<open>Notify\<close> is its number and the count of its \<open>notify_waiters\<close> calls; a \<open>Notified\<close> future remembers the count
  at its creation, as \<open>tokio\<close> documents. \<open>Instant::now()\<close> is an argument or the clock of the system plus a constant
  per instance; Redis has a clock of its own, in
  milliseconds. The fields \<open>visited\<close>, \<open>spent\<close> and \<open>admitted\<close> of the system only record what happened (the first
  also keeps the iteration of a shutdown from visiting an entry twice).

  \<^bold>\<open>Results.\<close> For every Redis with the documented behaviour: the scripts refine one counter per window; one
  instance alone admits exactly the quota, with known answers, and so does its HTTP router. In the whole
  system the tokens of a window in Redis, in buckets, on their way and spent stay within the quota, as long as an
  instance does not spend from buckets its shutdown has come past (\<open>quiet_fire\<close>; such buckets still hold the
  tokens that were given back, and are not counted); over time at most the quota times the windows begun is spent. Every such run is a run of an abstract bank (\<open>bank_step\<close>) that lends tokens of one
  window at a time. What clients of other buckets do leaves a bucket and its window as they are.
  While besides none of a list of events drops some (\<open>spares\<close>), the tokens add up to exactly
  the quota; so a refused client has been denied at most one lease for each other instance when no refill begins
  too late (\<open>orderly\<close>), and in any run at most two for each instance and one for each event that dropped some
  (\<open>cost\<close>, two for a crash). With weak fairness every request is answered, unless a leasing request is
  dropped or a \<open>notified()\<close> comes late. The code ensures none of these provisos, and it counts a request as
  admitted that found no token, so the admitted requests can exceed the quota. All of it is shown for
  all states of a kind: the tokens spent twice after a shutdown, the lost wake-up, the bucket wedged by a cancellation,
  the tokens lost to a late sweep or a late refill, the full bucket a late refill shuts, the exhausted bucket that
  without cleanup refuses for good, the server that stops at once without cleanup, the build with both features
  that serves nothing, and the configurations (zero interval, zero window, large leases) that are accepted and do
  not work.

  \<^bold>\<open>Bounds.\<close> Lua numbers are doubles: \<open>lease_args\<close> and \<open>env_ok\<close> ask for quotas, times and expiries up to \<open>2^53\<close>, where
  their arithmetic is exact (about the year 287000 in milliseconds), and for windows of at least a second. The
  model runs until \<open>horizon\<close>, any number. Tokens are 64 bit words; the invariants exclude a wrap. There is no
  fuel: recursion is on lists, and what may not end is a step relation with a measure or has the value \<open>None\<close>.

  \<^bold>\<open>Not modelled.\<close> The lines that log; the test logger and the test containers, which only configure libraries.
  Parameters stand for the file system and the JSON reader (\<open>get_config\<close>), for the names of log levels and the
  set-up of the logger (\<open>init_logger\<close>), for Redis and its client (\<open>redis_ops\<close>, \<open>redis_connect\<close>), for binding a
  socket and serving on it (\<open>start_http\<close>, \<open>start_envoy\<close>), for the reading of the \<open>Authorization\<close> header, token
  decoding and unmatched routes (\<open>init_router\<close>). Loss of keys by Redis is outside \<open>redis_server\<close>. The futures are
  polled at the points where the code awaits; what \<open>tokio\<close> and \<open>DashMap\<close> do between those is theirs. The message
  of the JSON reader is taken as it comes, and \<open>get_config\<close> gives that of the validation without the position
  \<open>serde_json\<close> appends. The releases of a shutdown run concurrently (\<open>join_all\<close>, \<open>JoinSet\<close>): so they do in
  \<open>System\<close>, where any lot can be next, while \<open>on_shutdown\<close> takes them in the order of its list; the effect is the
  same (\<open>shutdown_gives_back\<close>, \<open>shutdown_returns_unspent\<close>).

  What is left of the Rust code beside that are imports, attributes, accessors of one field, and the set-up of tests:
  nothing there has a state or a decision of its own. The weak memory orderings of the two atomics of a bucket are
  taken as sequentially consistent; a model of them would be one of the hardware, and each atomic alone is coherent.
\<close>

end
